(* ===== verification/KV_Prelude.thy ===== *)
theory KV_Prelude
  imports Main "HOL-Library.Word" "HOL-Library.List_Lexorder" "HOL-Library.Monad_Syntax"
    "HOL-Library.Sublist"
begin

text \<open>
  What every component of the store shares: Go's byte slices and fixed-width integers,
  the outcome of a call that may return, fail or panic, \<open>bytes.Compare\<close>, the big-endian and
  little-endian integer encodings of \<open>encoding/binary\<close> and of the C++ \<open>memcpy\<close>, sorted
  association lists (the abstract view of the skip list and of a data block), and the
  interface of a framed record stream (\<open>frame_codec\<close>), which the write-ahead log, the data
  block of an SSTable, the sparse index block and the client protocol all implement.
\<close>

unbundle bit_operations_syntax

section \<open>Bytes, machine integers and outcomes\<close>

type_synonym byte = "8 word"
type_synonym bytes = "8 word list"
type_synonym u32 = "32 word"
type_synonym u64 = "64 word"

text \<open>A Go call returns its results, returns an error value, or panics.\<close>

datatype ('e, 'a) outcome = Ok 'a | Err 'e | Panic

named_theorems endian_simps \<open>decoding of encoded integers\<close>
named_theorems entry_simps \<open>sorted association lists\<close>

section \<open>The library calls the code makes on bytes\<close>

text \<open>\<open>bytes.Compare\<close>: lexicographic, a proper prefix is smaller.\<close>

fun bytes_Compare :: "bytes \<Rightarrow> bytes \<Rightarrow> int" where
  "bytes_Compare [] [] = 0"
| "bytes_Compare [] (_ # _) = -1"
| "bytes_Compare (_ # _) [] = 1"
| "bytes_Compare (a # as) (b # bs) =
     (if a < b then -1 else if b < a then 1 else bytes_Compare as bs)"

text \<open>\<open>binary.BigEndian.PutUint32\<close>, \<open>Uint32\<close>, \<open>PutUint64\<close> and \<open>Uint64\<close>.\<close>

definition PutUint32 :: "u32 \<Rightarrow> bytes" where
  "PutUint32 v = [ucast (drop_bit 24 v), ucast (drop_bit 16 v), ucast (drop_bit 8 v), ucast v]"

definition Uint32 :: "bytes \<Rightarrow> u32" where
  "Uint32 b = ucast (b ! 3) OR push_bit 8 (ucast (b ! 2)) OR push_bit 16 (ucast (b ! 1))
     OR push_bit 24 (ucast (b ! 0))"

definition PutUint64 :: "u64 \<Rightarrow> bytes" where
  "PutUint64 v =
     [ucast (drop_bit 56 v), ucast (drop_bit 48 v), ucast (drop_bit 40 v), ucast (drop_bit 32 v),
      ucast (drop_bit 24 v), ucast (drop_bit 16 v), ucast (drop_bit 8 v), ucast v]"

definition Uint64 :: "bytes \<Rightarrow> u64" where
  "Uint64 b = ucast (b ! 7) OR push_bit 8 (ucast (b ! 6)) OR push_bit 16 (ucast (b ! 5))
     OR push_bit 24 (ucast (b ! 4)) OR push_bit 32 (ucast (b ! 3)) OR push_bit 40 (ucast (b ! 2))
     OR push_bit 48 (ucast (b ! 1)) OR push_bit 56 (ucast (b ! 0))"

text \<open>A \<open>memcpy\<close> of a \<open>uint64_t\<close> on a little-endian machine.\<close>

definition put_le64 :: "u64 \<Rightarrow> bytes" where
  "put_le64 v = rev (PutUint64 v)"

definition get_le64 :: "bytes \<Rightarrow> u64" where
  "get_le64 b = Uint64 (rev b)"

text \<open>
  \<open>io.ReadFull\<close> into a buffer of \<open>n\<close> bytes from a reader with the bytes \<open>bs\<close> left: the
  bytes read and what is left, or \<open>None\<close> for \<open>io.EOF\<close> and \<open>io.ErrUnexpectedEOF\<close>.
\<close>

definition readFull :: "nat \<Rightarrow> bytes \<Rightarrow> (bytes \<times> bytes) option" where
  "readFull n bs = (if length bs < n then None else Some (take n bs, drop n bs))"

text \<open>The conversion \<open>[]byte(s)\<close> of a string.\<close>

definition ascii :: "string \<Rightarrow> bytes" where
  "ascii s = map of_char s"

section \<open>Sorted association lists\<close>

text \<open>
  Writing a key of a list that is sorted by key: the value of a present key is replaced,
  an absent key goes to its place.
\<close>

fun assoc_put :: "'k::linorder \<Rightarrow> 'v \<Rightarrow> ('k \<times> 'v) list \<Rightarrow> ('k \<times> 'v) list" where
  "assoc_put k v [] = [(k, v)]"
| "assoc_put k v ((a, b) # ps) =
     (if a < k then (a, b) # assoc_put k v ps
      else if a = k then (k, v) # ps else (k, v) # (a, b) # ps)"

abbreviation sorted_keys :: "('k::linorder \<times> 'v) list \<Rightarrow> bool" where
  "sorted_keys ps \<equiv> sorted_wrt (<) (map fst ps)"

section \<open>Framed record streams\<close>

text \<open>
  One step of a loop that reads records off a byte stream: the stream ends here (nothing
  left, or an incomplete record), a record and the bytes after it, a record that fails its
  check, or a run-time panic.
\<close>

datatype ('e, 'r) scan = End | Got 'r bytes | Bad 'e | Crash

text \<open>\<open>reads dec bs rs rest\<close>: repeated steps read the records \<open>rs\<close> off \<open>bs\<close> and leave \<open>rest\<close>.\<close>

inductive reads :: "(bytes \<Rightarrow> ('e, 'r) scan) \<Rightarrow> bytes \<Rightarrow> 'r list \<Rightarrow> bytes \<Rightarrow> bool"
  for dec where
  reads_Nil: "reads dec bs [] bs"
| reads_Cons: "dec bs = Got r bs' \<Longrightarrow> reads dec bs' rs rest \<Longrightarrow> reads dec bs (r # rs) rest"

text \<open>The records of a list whose encodings lie completely within the first \<open>n\<close> bytes.\<close>

fun complete_within :: "('r \<Rightarrow> bytes) \<Rightarrow> nat \<Rightarrow> 'r list \<Rightarrow> 'r list" where
  "complete_within enc n [] = []"
| "complete_within enc n (r # rs) =
     (if length (enc r) \<le> n then r # complete_within enc (n - length (enc r)) rs else [])"

section \<open>Lemmas\<close>

subsection \<open>Comparison of byte slices\<close>

lemma bytes_Compare_less [simp]: "bytes_Compare a b < 0 \<longleftrightarrow> a < b"
  by (induction a b rule: bytes_Compare.induct) auto

lemma bytes_Compare_greater [simp]: "0 < bytes_Compare a b \<longleftrightarrow> b < a"
  by (induction a b rule: bytes_Compare.induct) auto

lemma bytes_Compare_eq [simp]: "bytes_Compare a b = 0 \<longleftrightarrow> a = b"
  by (induction a b rule: bytes_Compare.induct) auto

subsection \<open>Integer encodings\<close>

lemma length_PutUint32 [simp]: "length (PutUint32 v) = 4"
  by (simp add: PutUint32_def)

lemma length_PutUint64 [simp]: "length (PutUint64 v) = 8"
  by (simp add: PutUint64_def)

lemma length_put_le64 [simp]: "length (put_le64 v) = 8"
  by (simp add: put_le64_def)

lemma bit_byte_slice:
  fixes v :: "'a::len word"
  shows "bit (push_bit k (ucast (ucast (drop_bit k v) :: byte)) :: 'a word) n
    \<longleftrightarrow> k \<le> n \<and> n < k + 8 \<and> bit v n"
  by (auto simp: bit_simps dest: bit_imp_le_length)

lemma bit_byte_low:
  fixes v :: "'a::len word"
  shows "bit (ucast (ucast v :: byte) :: 'a word) n \<longleftrightarrow> n < 8 \<and> bit v n"
  by (auto simp: bit_simps dest: bit_imp_le_length)

lemma Uint32_PutUint32 [simp, endian_simps]: "Uint32 (PutUint32 v) = v"
proof (rule bit_word_eqI)
  fix n assume n: "n < LENGTH(32)"
  have "Uint32 (PutUint32 v) = ucast (ucast v :: byte)
     OR push_bit 8 (ucast (ucast (drop_bit 8 v) :: byte))
     OR push_bit 16 (ucast (ucast (drop_bit 16 v) :: byte))
     OR push_bit 24 (ucast (ucast (drop_bit 24 v) :: byte))"
    by (simp add: Uint32_def PutUint32_def)
  also have "bit \<dots> n \<longleftrightarrow> bit v n"
    unfolding bit_or_iff bit_byte_slice bit_byte_low using n by auto
  finally show "bit (Uint32 (PutUint32 v)) n = bit v n" .
qed

lemma PutUint32_Uint32 [endian_simps]:
  assumes "length b = 4"
  shows "PutUint32 (Uint32 b) = b"
proof -
  obtain b0 b1 b2 b3 where b: "b = [b0, b1, b2, b3]"
    using assms by (auto simp: numeral_eq_Suc length_Suc_conv)
  have bit: "bit (Uint32 b) n =
      (if n < 8 then bit b3 n else if n < 16 then bit b2 (n - 8)
       else if n < 24 then bit b1 (n - 16) else bit b0 (n - 24))" if "n < 32" for n
    using that unfolding Uint32_def b
    by (auto simp: bit_simps dest: bit_imp_le_length)
  have "ucast (drop_bit 24 (Uint32 b)) = b0" "ucast (drop_bit 16 (Uint32 b)) = b1"
    "ucast (drop_bit 8 (Uint32 b)) = b2" "ucast (Uint32 b) = b3"
    by (rule bit_word_eqI, simp add: bit_ucast_iff bit_drop_bit_eq bit)+
  then show ?thesis by (simp add: PutUint32_def b)
qed

lemma Uint64_PutUint64 [simp, endian_simps]: "Uint64 (PutUint64 v) = v"
proof (rule bit_word_eqI)
  fix n assume n: "n < LENGTH(64)"
  have "Uint64 (PutUint64 v) = ucast (ucast v :: byte)
     OR push_bit 8 (ucast (ucast (drop_bit 8 v) :: byte))
     OR push_bit 16 (ucast (ucast (drop_bit 16 v) :: byte))
     OR push_bit 24 (ucast (ucast (drop_bit 24 v) :: byte))
     OR push_bit 32 (ucast (ucast (drop_bit 32 v) :: byte))
     OR push_bit 40 (ucast (ucast (drop_bit 40 v) :: byte))
     OR push_bit 48 (ucast (ucast (drop_bit 48 v) :: byte))
     OR push_bit 56 (ucast (ucast (drop_bit 56 v) :: byte))"
    by (simp add: Uint64_def PutUint64_def)
  also have "bit \<dots> n \<longleftrightarrow> bit v n"
    unfolding bit_or_iff bit_byte_slice bit_byte_low using n by auto
  finally show "bit (Uint64 (PutUint64 v)) n = bit v n" .
qed

lemma get_put_le64 [simp, endian_simps]: "get_le64 (put_le64 v) = v"
  by (simp add: get_le64_def put_le64_def)

lemma xor_word_cancel [simp]: "(a XOR c = b XOR c) = (a = (b :: 'a::len word))"
  "(c XOR a = c XOR b) = (a = b)"
  by (metis xor.assoc xor.commute xor.left_neutral xor_self_eq)+

lemma unat_of_nat_u32: "n < 2 ^ 32 \<Longrightarrow> unat (of_nat n :: u32) = n"
  by (simp add: unat_of_nat take_bit_nat_eq_self_iff)

lemma unat_of_nat_u64: "n < 2 ^ 64 \<Longrightarrow> unat (of_nat n :: u64) = n"
  by (simp add: unat_of_nat take_bit_nat_eq_self_iff)

lemma unat_add_u32: "unat a + unat b < 2 ^ 32 \<Longrightarrow> unat (a + b :: u32) = unat a + unat b"
  by (simp add: unat_word_ariths)

subsection \<open>Reading from a buffer\<close>

lemma readFull_append [simp]:
  "length xs = n \<Longrightarrow> readFull n (xs @ rest) = Some (xs, rest)"
  by (simp add: readFull_def)

lemma readFull_None: "readFull n bs = None \<longleftrightarrow> length bs < n"
  by (simp add: readFull_def)

lemma readFull_SomeD:
  "readFull n bs = Some (xs, rest) \<Longrightarrow> bs = xs @ rest \<and> length xs = n"
  by (auto simp: readFull_def split: if_splits)

subsection \<open>Association lists\<close>

lemma map_of_assoc_put [entry_simps]: "map_of (assoc_put k v ps) = (map_of ps)(k \<mapsto> v)"
  by (induction k v ps rule: assoc_put.induct) auto

lemma keys_assoc_put [entry_simps]: "fst ` set (assoc_put k v ps) = insert k (fst ` set ps)"
  by (induction k v ps rule: assoc_put.induct) auto

lemma sorted_assoc_put [entry_simps]: "sorted_keys ps \<Longrightarrow> sorted_keys (assoc_put k v ps)"
proof (induction k v ps rule: assoc_put.induct)
  case (2 k v a b ps)
  have "\<forall>x \<in> fst ` set (assoc_put k v ps). x = k \<or> x \<in> fst ` set ps"
    by (simp add: keys_assoc_put)
  with 2 show ?case by fastforce
qed simp

lemma assoc_put_absent:
  "sorted_keys (ls @ gs) \<Longrightarrow> \<forall>p \<in> set ls. fst p < k \<Longrightarrow> \<forall>p \<in> set gs. k < fst p \<Longrightarrow>
   assoc_put k v (ls @ gs) = ls @ (k, v) # gs"
  by (induction ls) (auto split: prod.splits, cases gs, auto)

lemma assoc_put_present:
  "\<forall>p \<in> set ls. fst p < k \<Longrightarrow> assoc_put k v (ls @ (k, w) # gs) = ls @ (k, v) # gs"
  by (induction ls) auto

subsection \<open>Streams of records\<close>

lemma reads_append: "reads dec bs rs mid \<Longrightarrow> reads dec mid ss rest \<Longrightarrow> reads dec bs (rs @ ss) rest"
  by (induction rule: reads.induct) (auto intro: reads.intros)

lemma complete_within_prefix: "prefix (complete_within enc n rs) rs"
  by (induction enc n rs rule: complete_within.induct) auto

lemma complete_within_all:
  "length (concat (map enc rs)) \<le> n \<Longrightarrow> complete_within enc n rs = rs"
  by (induction enc n rs rule: complete_within.induct) auto

lemma complete_within_append:
  "length (concat (map enc rs)) \<le> n \<Longrightarrow>
   complete_within enc n (rs @ ss) = rs @ complete_within enc (n - length (concat (map enc rs))) ss"
  by (induction enc n rs rule: complete_within.induct) auto

text \<open>
  The interface of a record format: an encoder, the step that reads one record, and which
  records the encoder can represent. An encoded record is read back whatever follows it,
  and a proper prefix of one reads as the end of the stream.
\<close>

locale frame_codec =
  fixes enc :: "'r \<Rightarrow> bytes"
    and dec :: "bytes \<Rightarrow> ('e, 'r) scan"
    and fits :: "'r \<Rightarrow> bool"
  assumes dec_enc: "fits r \<Longrightarrow> dec (enc r @ rest) = Got r rest"
    and dec_torn: "fits r \<Longrightarrow> n < length (enc r) \<Longrightarrow> dec (take n (enc r)) = End"
    and dec_nil: "dec [] = End"
begin

lemma reads_all: "\<forall>r \<in> set rs. fits r \<Longrightarrow> reads dec (concat (map enc rs) @ rest) rs rest"
  by (induction rs) (auto intro: reads.intros simp: dec_enc)

text \<open>
  A log cut off at any byte reads as the records that are complete before the cut, and
  then as the end of the stream.
\<close>

lemma reads_truncated:
  assumes "\<forall>r \<in> set rs. fits r"
  shows "\<exists>rest. reads dec (take n (concat (map enc rs))) (complete_within enc n rs) rest \<and> dec rest = End"
  using assms
proof (induction rs arbitrary: n)
  case Nil
  then show ?case by (auto intro: reads.intros simp: dec_nil)
next
  case (Cons r rs)
  show ?case
  proof (cases "length (enc r) \<le> n")
    case True
    let ?m = "n - length (enc r)"
    from Cons obtain rest where
      IH: "reads dec (take ?m (concat (map enc rs))) (complete_within enc ?m rs) rest" "dec rest = End"
      by auto
    have "dec (enc r @ take ?m (concat (map enc rs))) = Got r (take ?m (concat (map enc rs)))"
      using Cons.prems by (simp add: dec_enc)
    with IH True show ?thesis by (auto intro: reads.intros)
  next
    case False
    with Cons.prems show ?thesis by (auto intro: reads.intros simp: dec_torn)
  qed
qed

end

section \<open>Key-value stores\<close>

text \<open>A list of insertions, done in order by a store whose \<open>ins\<close> may fail.\<close>

fun insert_all :: "('s \<Rightarrow> 'k \<Rightarrow> 'v \<Rightarrow> 's option) \<Rightarrow> 's \<Rightarrow> ('k \<times> 'v) list \<Rightarrow> 's option" where
  "insert_all ins s [] = Some s"
| "insert_all ins s ((k, v) # kvs) =
     (case ins s k v of None \<Rightarrow> None | Some s' \<Rightarrow> insert_all ins s' kvs)"

text \<open>
  The interface of a store: inserting an entry that fits succeeds, keeps the invariant and updates
  the map the store represents; a lookup returns what the map holds.
\<close>

locale kv_store =
  fixes inv :: "'s \<Rightarrow> bool"
    and view :: "'s \<Rightarrow> 'k \<Rightarrow> 'v option"
    and fits :: "'k \<Rightarrow> 'v \<Rightarrow> bool"
    and ins :: "'s \<Rightarrow> 'k \<Rightarrow> 'v \<Rightarrow> 's option"
    and look :: "'s \<Rightarrow> 'k \<Rightarrow> 'v option option"
  assumes ins_ok: "inv s \<Longrightarrow> fits k v \<Longrightarrow> \<exists>s'. ins s k v = Some s' \<and> inv s' \<and> view s' = (view s)(k \<mapsto> v)"
    and look_ok: "inv s \<Longrightarrow> look s k = Some (view s k)"
begin

lemma insert_all_ok:
  "inv s \<Longrightarrow> \<forall>(k, v) \<in> set kvs. fits k v \<Longrightarrow>
   \<exists>s'. insert_all ins s kvs = Some s' \<and> inv s' \<and> view s' = view s ++ map_of (rev kvs)"
proof (induction kvs arbitrary: s)
  case (Cons kv kvs)
  obtain k v where kv: "kv = (k, v)" by (cases kv)
  from ins_ok [OF Cons.prems(1), of k v] Cons.prems(2) kv obtain s1 where
    s1: "ins s k v = Some s1" "inv s1" "view s1 = (view s)(k \<mapsto> v)" by auto
  from Cons.IH [OF s1(2)] Cons.prems(2) obtain s' where
    "insert_all ins s1 kvs = Some s'" "inv s'" "view s' = view s1 ++ map_of (rev kvs)" by auto
  with s1 kv show ?case by (auto simp: map_add_def fun_eq_iff split: option.splits)
qed simp

lemma look_after_insert_all:
  assumes "inv s" "\<forall>(k, v) \<in> set kvs. fits k v" "insert_all ins s kvs = Some s'"
  shows "look s' k = Some (case map_of (rev kvs) k of None \<Rightarrow> view s k | Some v \<Rightarrow> Some v)"
proof -
  from insert_all_ok [OF assms(1,2)] assms(3)
  have "inv s'" "view s' = view s ++ map_of (rev kvs)" by auto
  then show ?thesis by (simp add: look_ok map_add_def)
qed

end

section \<open>Membership filters\<close>

fun add_all :: "('f \<Rightarrow> 'k \<Rightarrow> 'f option) \<Rightarrow> 'f \<Rightarrow> 'k list \<Rightarrow> 'f option" where
  "add_all add f [] = Some f"
| "add_all add f (k # ks) = (case add f k of None \<Rightarrow> None | Some f' \<Rightarrow> add_all add f' ks)"

text \<open>
  The interface of an approximate set: adding a key succeeds and makes it a member, members stay
  members, a membership test returns, and a filter survives its serialized form. Nothing is said
  of keys that were not added.
\<close>

locale membership_filter =
  fixes ok :: "'f \<Rightarrow> bool"
    and add :: "'f \<Rightarrow> 'k \<Rightarrow> 'f option"
    and has :: "'f \<Rightarrow> 'k \<Rightarrow> bool option"
    and ser :: "'f \<Rightarrow> bytes"
    and deser :: "bytes \<Rightarrow> 'f option"
  assumes add_ok: "ok f \<Longrightarrow> \<exists>f'. add f k = Some f' \<and> ok f' \<and> has f' k = Some True
      \<and> (\<forall>k'. has f k' = Some True \<longrightarrow> has f' k' = Some True) \<and> length (ser f') = length (ser f)"
    and has_total: "ok f \<Longrightarrow> has f k \<noteq> None"
    and deser_ser: "ok f \<Longrightarrow> deser (ser f) = Some f"
begin

lemma add_all_ok:
  assumes "ok f"
  shows "\<exists>f'. add_all add f ks = Some f' \<and> ok f' \<and> (\<forall>k \<in> set ks. has f' k = Some True)
    \<and> (\<forall>k. has f k = Some True \<longrightarrow> has f' k = Some True) \<and> length (ser f') = length (ser f)"
  using assms
proof (induction ks arbitrary: f)
  case (Cons k ks)
  from add_ok [OF Cons.prems, of k] obtain f1 where
    f1: "add f k = Some f1" "ok f1" "has f1 k = Some True"
      "\<forall>k'. has f k' = Some True \<longrightarrow> has f1 k' = Some True" "length (ser f1) = length (ser f)" by blast
  from Cons.IH [OF f1(2)] obtain f' where
    "add_all add f1 ks = Some f'" "ok f'" "\<forall>k \<in> set ks. has f' k = Some True"
    "\<forall>k. has f1 k = Some True \<longrightarrow> has f' k = Some True" "length (ser f') = length (ser f1)" by blast
  with f1 show ?case by (intro exI [of _ f']) simp
qed simp

lemma no_false_negatives:
  assumes "ok f" "add_all add f ks = Some f'"
  shows "\<exists>g. deser (ser f') = Some g \<and> (\<forall>k. has g k \<noteq> None) \<and> (\<forall>k \<in> set ks. has g k = Some True)"
  using add_all_ok [OF assms(1), of ks] assms(2) deser_ser has_total by auto

end

end
