(* ===== verification/Crc32.thy ===== *)
theory Crc32
  imports KV_Prelude
begin

text \<open>
  \<open>crc32.ChecksumIEEE\<close> of Go's \<open>hash/crc32\<close>, bit by bit: the reflected polynomial
  \<open>0xEDB88320\<close>, all ones at the start, complemented at the end. Both the write-ahead log
  and the SSTable guard a record with it. The lemmas show the guarantee the store relies on
  against bit rot: two payloads that differ only within four consecutive bytes never have the
  same checksum.
\<close>

section \<open>The checksum\<close>

definition crc_bit :: "u32 \<Rightarrow> u32" where
  "crc_bit c = (if bit c 0 then drop_bit 1 c XOR 0xEDB88320 else drop_bit 1 c)"

definition crc_byte :: "u32 \<Rightarrow> byte \<Rightarrow> u32" where
  "crc_byte c b = (crc_bit ^^ 8) (c XOR ucast b)"

definition ChecksumIEEE :: "bytes \<Rightarrow> u32" where
  "ChecksumIEEE bs = NOT (foldl crc_byte (NOT 0) bs)"

text \<open>Up to four bytes as they enter the register: the first one lowest.\<close>

fun low_bytes :: "bytes \<Rightarrow> u32" where
  "low_bytes [] = 0"
| "low_bytes (b # bs) = ucast b XOR push_bit 8 (low_bytes bs)"

text \<open>Rules that let \<open>simp\<close> compute the checksum of concrete bytes.\<close>

lemma ChecksumIEEE_numeral: "ChecksumIEEE bs = NOT (foldl crc_byte 0xFFFFFFFF bs)"
proof -
  have "(NOT 0 :: u32) = 0xFFFFFFFF" by simp
  then show ?thesis unfolding ChecksumIEEE_def by (rule arg_cong)
qed

lemma funpow_eight: "(f ^^ 8) x = f (f (f (f (f (f (f (f x)))))))"
  by (simp add: numeral_eq_Suc)

lemmas crc_eval = ChecksumIEEE_numeral crc_byte_def funpow_eight crc_bit_def

section \<open>The register step is linear and injective\<close>

lemma crc_poly_top: "bit (0xEDB88320 :: u32) 31"
  by simp

lemma crc_bit_xor: "crc_bit (x XOR y) = crc_bit x XOR crc_bit y"
  by (rule bit_word_eqI) (auto simp: crc_bit_def bit_simps)

lemma crc_bit_top: "bit (crc_bit x) 31 \<longleftrightarrow> bit x 0"
  by (auto simp: crc_bit_def bit_simps crc_poly_top dest: bit_imp_le_length)

lemma inj_crc_bit: "inj crc_bit"
proof (rule injI)
  fix x y assume eq: "crc_bit x = crc_bit y"
  then have b0: "bit x 0 \<longleftrightarrow> bit y 0"
    by (metis crc_bit_top)
  with eq have d: "drop_bit 1 x = drop_bit 1 y"
    by (auto simp: crc_bit_def split: if_splits)
  show "x = y"
  proof (rule bit_word_eqI)
    fix n
    have "bit (drop_bit 1 x) (n - 1) = bit (drop_bit 1 y) (n - 1)"
      using d by simp
    then show "bit x n = bit y n"
      using b0 by (cases n) (auto simp: bit_simps)
  qed
qed

lemma crc_bits_xor: "(crc_bit ^^ n) (x XOR y) = (crc_bit ^^ n) x XOR (crc_bit ^^ n) y"
  by (induction n) (auto simp: crc_bit_xor)

lemma crc_bits_inj: "(crc_bit ^^ n) x = (crc_bit ^^ n) y \<Longrightarrow> x = y"
  using inj_fn [OF inj_crc_bit] by (auto dest: injD)

text \<open>Shifting out zeros undoes a left shift that loses no bit.\<close>

lemma crc_bit_push:
  assumes "\<not> bit y 31"
  shows "crc_bit (push_bit 1 y) = y"
proof -
  have "\<not> bit (push_bit 1 y) 0"
    by (simp only: bit_push_bit_iff) simp
  then have "crc_bit (push_bit 1 y) = drop_bit 1 (push_bit 1 y)"
    by (simp only: crc_bit_def if_False)
  also have "\<dots> = y"
  proof (rule bit_word_eqI)
    fix i assume "i < LENGTH(32)"
    with assms show "bit (drop_bit 1 (push_bit 1 y)) i = bit y i"
      unfolding bit_drop_bit_eq comp_def bit_push_bit_iff
      by (cases "i = 31") (auto dest: bit_imp_le_length)
  qed
  finally show ?thesis .
qed

lemma crc_bits_push:
  "(\<And>i. 32 \<le> i + n \<Longrightarrow> \<not> bit x i) \<Longrightarrow> (crc_bit ^^ n) (push_bit n x) = x"
proof (induction n)
  case (Suc n)
  have "\<not> bit (push_bit n x) 31"
    using Suc.prems [of "31 - n"] by (auto simp: bit_push_bit_iff)
  then have "crc_bit (push_bit 1 (push_bit n x)) = push_bit n x"
    by (rule crc_bit_push)
  then have "(crc_bit ^^ Suc n) (push_bit (1 + n) x) = (crc_bit ^^ n) (push_bit n x)"
    by (simp only: push_bit_push_bit [symmetric] funpow_Suc_right comp_def)
  with Suc show ?case by simp
qed simp

lemma crc_byte_inj_state: "crc_byte c b = crc_byte d b \<Longrightarrow> c = d"
proof -
  assume "crc_byte c b = crc_byte d b"
  then have "c XOR ucast b = d XOR ucast b"
    unfolding crc_byte_def by (rule crc_bits_inj)
  then show "c = d" by simp
qed

lemma foldl_crc_inj_state: "foldl crc_byte c bs = foldl crc_byte d bs \<Longrightarrow> c = d"
  by (induction bs arbitrary: c d) (auto dest: crc_byte_inj_state)

section \<open>Bursts of at most four bytes\<close>

lemma low_bytes_bound: "8 * length bs \<le> i \<Longrightarrow> \<not> bit (low_bytes bs) i"
  by (induction bs arbitrary: i) (auto simp: bit_simps dest: bit_imp_le_length)

lemma low_bytes_inj:
  "length xs = length ys \<Longrightarrow> length xs \<le> 4 \<Longrightarrow> low_bytes xs = low_bytes ys \<Longrightarrow> xs = ys"
proof (induction xs ys rule: list_induct2)
  case (Cons x xs y ys)
  have bx: "bit (low_bytes (x # xs)) i = (if i < 8 then bit x i else bit (low_bytes xs) (i - 8))"
    if "i < 32" for i
    using that by (auto simp: bit_simps dest: bit_imp_le_length)
  have by': "bit (low_bytes (y # ys)) i = (if i < 8 then bit y i else bit (low_bytes ys) (i - 8))"
    if "i < 32" for i
    using that by (auto simp: bit_simps dest: bit_imp_le_length)
  have "x = y"
  proof (rule bit_word_eqI)
    fix i assume "i < LENGTH(8)"
    with Cons.prems bx [of i] by' [of i] show "bit x i = bit y i" by simp
  qed
  moreover have "low_bytes xs = low_bytes ys"
  proof (rule bit_word_eqI)
    fix i assume "i < LENGTH(32)"
    show "bit (low_bytes xs) i = bit (low_bytes ys) i"
    proof (cases "i < 24")
      case True
      with Cons.prems bx [of "i + 8"] by' [of "i + 8"] show ?thesis by simp
    next
      case False
      with Cons low_bytes_bound [of xs i] low_bytes_bound [of ys i] show ?thesis by simp
    qed
  qed
  ultimately show ?case using Cons by simp
qed simp

lemma foldl_crc_low_bytes:
  "length bs \<le> 4 \<Longrightarrow> foldl crc_byte c bs = (crc_bit ^^ (8 * length bs)) (c XOR low_bytes bs)"
proof (induction bs arbitrary: c)
  case (Cons b bs)
  let ?l = "low_bytes bs"
  have push: "(crc_bit ^^ 8) (push_bit 8 ?l) = ?l"
    using Cons.prems low_bytes_bound [of bs] by (intro crc_bits_push) auto
  have "foldl crc_byte c (b # bs) = (crc_bit ^^ (8 * length bs)) (crc_byte c b XOR ?l)"
    using Cons by simp
  also have "crc_byte c b XOR ?l = (crc_bit ^^ 8) (c XOR low_bytes (b # bs))"
    by (simp add: crc_byte_def crc_bits_xor push xor.assoc)
  also have "(crc_bit ^^ (8 * length bs)) \<dots> = (crc_bit ^^ (8 * length bs + 8)) (c XOR low_bytes (b # bs))"
    by (simp only: funpow_add comp_apply)
  also have "8 * length bs + 8 = 8 * length (b # bs)" by simp
  finally show ?case .
qed simp

lemma checksum_burst:
  assumes "length m = length m'" and "length m \<le> 4" and "m \<noteq> m'"
  shows "ChecksumIEEE (xs @ m @ ys) \<noteq> ChecksumIEEE (xs @ m' @ ys)"
proof
  let ?c = "foldl crc_byte (NOT 0) xs"
  assume "ChecksumIEEE (xs @ m @ ys) = ChecksumIEEE (xs @ m' @ ys)"
  then have "foldl crc_byte (foldl crc_byte ?c m) ys = foldl crc_byte (foldl crc_byte ?c m') ys"
    by (simp add: ChecksumIEEE_def)
  then have "foldl crc_byte ?c m = foldl crc_byte ?c m'"
    by (rule foldl_crc_inj_state)
  with assms(1,2) have "?c XOR low_bytes m = ?c XOR low_bytes m'"
    by (auto simp: foldl_crc_low_bytes dest: crc_bits_inj)
  then have "low_bytes m = low_bytes m'" by simp
  with assms low_bytes_inj show False by blast
qed

lemma checksum_update_neq:
  assumes "i < length bs" and "bs ! i \<noteq> b"
  shows "ChecksumIEEE (bs[i := b]) \<noteq> ChecksumIEEE bs"
proof -
  have "bs = take i bs @ [bs ! i] @ drop (Suc i) bs"
    using assms(1) by (simp add: id_take_nth_drop)
  moreover have "bs[i := b] = take i bs @ [b] @ drop (Suc i) bs"
    using assms(1) by (simp add: upd_conv_take_nth_drop)
  ultimately show ?thesis
    using checksum_burst [of "[b]" "[bs ! i]" "take i bs" "drop (Suc i) bs"] assms(2) by simp
qed

end
