(* ===== verification/Bench.thy ===== *)
theory Bench
  imports Crc32 "HOL-Library.Char_ord"
begin

text \<open>
  The Bench write-ahead log, \<open>pkg/bench/wal.go\<close>. The log is one file of records
  \<open>[crc32][key length][value length][tombstone][key][value]\<close>. A file is the bytes the
  operating system holds and how many of them an \<open>fsync\<close> has forced to the disk; a crash
  keeps at least those. What the operating system answers to a call (a short write, a failed
  \<open>fsync\<close>, a read error) is an argument of the operation. The mutex makes every operation one
  atomic step, so an operation is a function from the state before to the state after.
\<close>

section \<open>Data\<close>

record LogEntry =
  le_CRC32 :: u32
  le_Key :: bytes
  le_Value :: bytes
  le_Tombstone :: bool

record WALOptions =
  SyncOnWrite :: bool
  DirPath :: string
  SegmentSize :: int

text \<open>The bytes of a file as the operating system sees them, and how many are on disk.\<close>

record File =
  f_data :: bytes
  f_synced :: nat

record WAL =
  w_opts :: WALOptions
  w_file :: File
  w_closed :: bool
  w_size :: int

text \<open>
  \<open>ErrIO\<close> is an error of the operating system with the text that \<open>fmt.Errorf\<close> puts in front of it
  (without the path that some of the texts end with); the text is empty where the error is returned
  as it is. \<open>ErrIncompleteRead\<close> is declared but never returned.
\<close>

datatype wal_error =
    ErrCRCMismatch u32 u32
  | ErrIncompleteRead
  | ErrWALClosed
  | ErrIO string

text \<open>
  The answers of the operating system to one operation: the number of bytes a failing
  \<open>write\<close> got out before its error, and whether \<open>fsync\<close> and \<open>close\<close> succeed.
\<close>

record io =
  io_write :: "nat option"
  io_sync :: bool
  io_close :: bool

abbreviation io_ok :: io where
  "io_ok \<equiv> \<lparr>io_write = None, io_sync = True, io_close = True\<rparr>"

definition DefaultWALOptions :: "string \<Rightarrow> WALOptions" where
  "DefaultWALOptions dir =
     \<lparr>SyncOnWrite = True, DirPath = dir, SegmentSize = 8 * 1024 * 1024\<rparr>"

definition file_append :: "bytes \<Rightarrow> File \<Rightarrow> File" where
  "file_append bs f = f\<lparr>f_data := f_data f @ bs\<rparr>"

definition file_sync :: "File \<Rightarrow> File" where
  "file_sync f = f\<lparr>f_synced := length (f_data f)\<rparr>"

section \<open>Opening, writing and closing\<close>

text \<open>
  \<open>OpenWAL\<close>: \<open>None\<close> for the file stands for a missing \<open>bench_0.wal\<close>, which
  \<open>O_CREATE\<close> creates. The three flags say whether \<open>MkdirAll\<close>, \<open>OpenFile\<close> and \<open>Stat\<close>
  succeed.
\<close>

definition OpenWAL :: "bool \<Rightarrow> bool \<Rightarrow> bool \<Rightarrow> WALOptions \<Rightarrow> File option \<Rightarrow> wal_error + WAL" where
  "OpenWAL mkdir_ok open_ok stat_ok opts existing =
     (if \<not> mkdir_ok then Inl (ErrIO ''failed to create wal directory'')
      else if \<not> open_ok then Inl (ErrIO ''failed to open wal file'')
      else let file = (case existing of None \<Rightarrow> \<lparr>f_data = [], f_synced = 0\<rparr> | Some f \<Rightarrow> f) in
        if \<not> stat_ok then Inl (ErrIO ''failed to stat wal file'')
        else Inr \<lparr>w_opts = opts, w_file = file, w_closed = False,
                 w_size = int (length (f_data file))\<rparr>)"

text \<open>
  \<open>EncodeRecord\<close>: the lengths are cut to 32 bits and added in 32 bits. \<open>None\<close> is the
  panic of the slice expressions \<open>buf[4:8]\<close>, \<open>buf[12]\<close>, \<open>buf[13:13+keyLen]\<close> and
  \<open>buf[13+keyLen:]\<close> when the sum wraps around.
\<close>

definition EncodeRecord :: "bytes \<Rightarrow> bytes \<Rightarrow> bool \<Rightarrow> bytes option" where
  "EncodeRecord key value tombstone =
     (let keyLen = of_nat (length key) :: u32;
          valLen = of_nat (length value) :: u32;
          totalLen = 13 + keyLen + valLen;
          payload = PutUint32 keyLen @ PutUint32 valLen @ [if tombstone then 1 else 0]
            @ take (unat keyLen) key @ take (unat valLen) value
      in if totalLen < 13 \<or> 13 + keyLen < 13 \<or> totalLen < 13 + keyLen then None
         else Some (PutUint32 (ChecksumIEEE payload) @ payload))"

definition Append ::
  "io \<Rightarrow> WAL \<Rightarrow> bytes \<Rightarrow> bytes \<Rightarrow> bool \<Rightarrow> (WAL \<times> int \<times> wal_error option) option" where
  "Append os w key value tombstone =
     (if w_closed w then Some (w, 0, Some ErrWALClosed)
      else case EncodeRecord key value tombstone of
        None \<Rightarrow> None
      | Some encoded \<Rightarrow>
          (case io_write os of
             Some k \<Rightarrow> Some (w\<lparr>w_file := file_append (take k encoded) (w_file w)\<rparr>, 0, Some (ErrIO ''failed to write wal entry''))
           | None \<Rightarrow>
               let n = int (length encoded);
                   w1 = w\<lparr>w_file := file_append encoded (w_file w), w_size := w_size w + n\<rparr>
               in if SyncOnWrite (w_opts w) then
                    (if io_sync os then Some (w1\<lparr>w_file := file_sync (w_file w1)\<rparr>, n, None)
                     else Some (w1, n, Some (ErrIO ''failed to fsync wal entry'')))
                  else Some (w1, n, None)))"

definition Sync :: "io \<Rightarrow> WAL \<Rightarrow> WAL \<times> wal_error option" where
  "Sync os w =
     (if w_closed w then (w, Some ErrWALClosed)
      else if io_sync os then (w\<lparr>w_file := file_sync (w_file w)\<rparr>, None)
      else (w, Some (ErrIO '''')))"

definition Close :: "io \<Rightarrow> WAL \<Rightarrow> WAL \<times> wal_error option" where
  "Close os w =
     (if w_closed w then (w, None)
      else let w1 = w\<lparr>w_closed := True\<rparr> in
        if \<not> io_sync os then (w1, Some (ErrIO ''''))
        else (w1\<lparr>w_file := file_sync (w_file w1)\<rparr>, if io_close os then None else Some (ErrIO '''')))"

section \<open>Reading\<close>

text \<open>
  One turn of the reading loop of \<open>Recover\<close> on the bytes that are left. \<open>broken\<close> says that the device fails where the bytes end, instead of reporting the end
  of the file. \<open>bodyLen\<close> and \<open>9+bodyLen\<close> are 32-bit sums; \<open>checkBuf[0:9]\<close> and
  \<open>bodyBuf[:keyLen]\<close> panic when they wrapped around.
\<close>

definition read_record :: "bool \<Rightarrow> bytes \<Rightarrow> (wal_error, LogEntry) scan" where
  "read_record broken bs =
     (case readFull 13 bs of
        None \<Rightarrow> (if broken then Bad (ErrIO ''failed to read wal header'') else End)
      | Some (headerBuf, bs1) \<Rightarrow>
          let expectedCRC = Uint32 (take 4 headerBuf);
              keyLen = Uint32 (take 4 (drop 4 headerBuf));
              valLen = Uint32 (take 4 (drop 8 headerBuf));
              tombstone = (headerBuf ! 12 = 1);
              bodyLen = keyLen + valLen
          in (case readFull (unat bodyLen) bs1 of
                None \<Rightarrow> (if broken then Bad (ErrIO ''failed to read wal record body'') else End)
              | Some (bodyBuf, bs2) \<Rightarrow>
                  if 9 + bodyLen < 9 then Crash
                  else let actualCRC = ChecksumIEEE (drop 4 headerBuf @ bodyBuf) in
                    if expectedCRC \<noteq> actualCRC then Bad (ErrCRCMismatch expectedCRC actualCRC)
                    else if bodyLen < keyLen then Crash
                    else Got \<lparr>le_CRC32 = expectedCRC, le_Key = take (unat keyLen) bodyBuf,
                             le_Value = drop (unat keyLen) bodyBuf, le_Tombstone = tombstone\<rparr> bs2))"

lemma read_record_shrinks:
  "read_record broken bs = Got e rest \<Longrightarrow> length rest < length bs"
  by (auto simp: read_record_def Let_def split: option.splits if_splits dest!: readFull_SomeD)

function recover_loop :: "bool \<Rightarrow> bytes \<Rightarrow> LogEntry list \<Rightarrow> (wal_error, LogEntry list) outcome" where
  "recover_loop broken bs entries =
     (case read_record broken bs of
        End \<Rightarrow> Ok entries
      | Bad e \<Rightarrow> Err e
      | Crash \<Rightarrow> Panic
      | Got e rest \<Rightarrow> recover_loop broken rest (entries @ [e]))"
  by pat_completeness auto
termination
  by (relation "measure (\<lambda>(_, bs, _). length bs)") (auto dest: read_record_shrinks)

declare recover_loop.simps [simp del]

text \<open>\<open>Recover\<close>: the flags say whether the two \<open>Seek\<close> calls succeed.\<close>

definition Recover :: "bool \<Rightarrow> bool \<Rightarrow> bool \<Rightarrow> WAL \<Rightarrow> (wal_error, LogEntry list) outcome" where
  "Recover seek_start_ok broken seek_end_ok w =
     (if w_closed w then Err ErrWALClosed
      else if \<not> seek_start_ok then Err (ErrIO ''failed to seek start of wal file'')
      else case recover_loop broken (f_data (w_file w)) [] of
        Ok entries \<Rightarrow> if seek_end_ok then Ok entries else Err (ErrIO ''failed to seek end of wal file'')
      | Err e \<Rightarrow> Err e
      | Panic \<Rightarrow> Panic)"

text \<open>
  A directory as \<open>os.ReadDir\<close> reports it. The contents of an entry are \<open>None\<close> when
  \<open>OpenFile\<close> fails, and otherwise its bytes and whether the device breaks behind them.
\<close>

record dir_entry =
  d_name :: string
  d_isdir :: bool
  d_contents :: "(bytes \<times> bool) option"

datatype dir_listing = DirMissing | DirError | DirEntries "dir_entry list"

text \<open>\<open>filepath.Ext\<close>: from the last dot of the last path element on.\<close>

fun ext_rev :: "string \<Rightarrow> string \<Rightarrow> string" where
  "ext_rev [] acc = []"
| "ext_rev (c # cs) acc =
     (if c = CHR ''/'' then [] else if c = CHR ''.'' then c # acc else ext_rev cs (c # acc))"

definition Ext :: "string \<Rightarrow> string" where
  "Ext path = ext_rev (rev path) []"

text \<open>
  One turn of the reading loop of \<open>ReplayWAL\<close>, which is a second copy of the code in \<open>Recover\<close>, with
  texts of its own for the errors: the key, the value and the tombstone flag for the callback.
\<close>

definition replay_record :: "bool \<Rightarrow> bytes \<Rightarrow> (wal_error, bytes \<times> bytes \<times> bool) scan" where
  "replay_record broken bs =
     (case readFull 13 bs of
        None \<Rightarrow> (if broken then Bad (ErrIO ''failed to read wal header in'') else End)
      | Some (headerBuf, bs1) \<Rightarrow>
          let expectedCRC = Uint32 (take 4 headerBuf);
              keyLen = Uint32 (take 4 (drop 4 headerBuf));
              valLen = Uint32 (take 4 (drop 8 headerBuf));
              tombstone = (headerBuf ! 12 = 1);
              bodyLen = keyLen + valLen
          in (case readFull (unat bodyLen) bs1 of
                None \<Rightarrow> (if broken then Bad (ErrIO ''failed to read wal body in'') else End)
              | Some (bodyBuf, bs2) \<Rightarrow>
                  if 9 + bodyLen < 9 then Crash
                  else let actualCRC = ChecksumIEEE (drop 4 headerBuf @ bodyBuf) in
                    if expectedCRC \<noteq> actualCRC then Bad (ErrCRCMismatch expectedCRC actualCRC)
                    else if bodyLen < keyLen then Crash
                    else let key = take (unat keyLen) bodyBuf;
                             val = drop (unat keyLen) bodyBuf
                         in Got (key, val, tombstone) bs2))"

lemma replay_record_shrinks:
  "replay_record broken bs = Got e rest \<Longrightarrow> length rest < length bs"
  by (auto simp: replay_record_def Let_def split: option.splits if_splits dest!: readFull_SomeD)

text \<open>
  \<open>replay_file\<close>: the inner loop of \<open>ReplayWAL\<close> on one segment. The callback changes a
  state and may panic. \<open>replay_files\<close>: the loop over the segments.
\<close>

function replay_file ::
  "(bytes \<Rightarrow> bytes \<Rightarrow> bool \<Rightarrow> 's \<Rightarrow> 's option) \<Rightarrow> bool \<Rightarrow> bytes \<Rightarrow> 's \<Rightarrow> int
     \<Rightarrow> ('s \<times> int \<times> wal_error option) option" where
  "replay_file applyFn broken bs s replayedCount =
     (case replay_record broken bs of
        End \<Rightarrow> Some (s, replayedCount, None)
      | Bad e \<Rightarrow> Some (s, replayedCount, Some e)
      | Crash \<Rightarrow> None
      | Got (key, val, tombstone) rest \<Rightarrow>
          (case applyFn key val tombstone s of
             None \<Rightarrow> None
           | Some s' \<Rightarrow> replay_file applyFn broken rest s' (replayedCount + 1)))"
  by pat_completeness auto
termination
  by (relation "measure (\<lambda>(_, _, bs, _, _). length bs)") (auto dest: replay_record_shrinks)

declare replay_file.simps [simp del]

fun replay_files ::
  "(bytes \<Rightarrow> bytes \<Rightarrow> bool \<Rightarrow> 's \<Rightarrow> 's option) \<Rightarrow> dir_entry list \<Rightarrow> 's \<Rightarrow> int
     \<Rightarrow> ('s \<times> int \<times> wal_error option) option" where
  "replay_files applyFn [] s replayedCount = Some (s, replayedCount, None)"
| "replay_files applyFn (f # fs) s replayedCount =
     (case d_contents f of
        None \<Rightarrow> Some (s, replayedCount, Some (ErrIO ''failed to open wal file for recovery''))
      | Some (bs, broken) \<Rightarrow>
          (case replay_file applyFn broken bs s replayedCount of
             None \<Rightarrow> None
           | Some (s', n, Some e) \<Rightarrow> Some (s', n, Some e)
           | Some (s', n, None) \<Rightarrow> replay_files applyFn fs s' n))"

text \<open>
  \<open>ReplayWAL\<close>: the \<open>.wal\<close> files of the directory in the order of their paths. All paths
  share the directory as their prefix, so \<open>sort.Strings\<close> orders them by name.
\<close>

definition ReplayWAL ::
  "dir_listing \<Rightarrow> (bytes \<Rightarrow> bytes \<Rightarrow> bool \<Rightarrow> 's \<Rightarrow> 's option) \<Rightarrow> 's
     \<Rightarrow> ('s \<times> int \<times> wal_error option) option" where
  "ReplayWAL dir applyFn s =
     (case dir of
        DirMissing \<Rightarrow> Some (s, 0, None)
      | DirError \<Rightarrow> Some (s, 0, Some (ErrIO ''failed to read wal dir''))
      | DirEntries files \<Rightarrow>
          replay_files applyFn
            (sort_key d_name (filter (\<lambda>f. \<not> d_isdir f \<and> Ext (d_name f) = ''.wal'') files)) s 0)"

section \<open>Crashes\<close>

text \<open>
  A power failure keeps some prefix of the file that holds at least the bytes of the last
  successful \<open>fsync\<close>. What is left is on disk.
\<close>

definition crash_to :: "nat \<Rightarrow> File \<Rightarrow> File" where
  "crash_to n f = \<lparr>f_data = take n (f_data f), f_synced = min n (length (f_data f))\<rparr>"

text \<open>A sequence of appends, with the answers of the operating system to each.\<close>

fun append_all ::
  "(io \<times> bytes \<times> bytes \<times> bool) list \<Rightarrow> WAL \<Rightarrow> (WAL \<times> wal_error option list) option" where
  "append_all [] w = Some (w, [])"
| "append_all ((os, key, value, tombstone) # rs) w =
     (case Append os w key value tombstone of
        None \<Rightarrow> None
      | Some (w', _, err) \<Rightarrow>
          (case append_all rs w' of None \<Rightarrow> None | Some (w'', errs) \<Rightarrow> Some (w'', err # errs)))"

section \<open>The record format\<close>

text \<open>The bytes of a record and the entry they are read back as.\<close>

definition payload :: "bytes \<Rightarrow> bytes \<Rightarrow> bool \<Rightarrow> bytes" where
  "payload k v t = PutUint32 (of_nat (length k)) @ PutUint32 (of_nat (length v))
     @ (if t then 1 else 0) # k @ v"

definition record_bytes :: "bytes \<Rightarrow> bytes \<Rightarrow> bool \<Rightarrow> bytes" where
  "record_bytes k v t = PutUint32 (ChecksumIEEE (payload k v t)) @ payload k v t"

definition entry_of :: "bytes \<Rightarrow> bytes \<Rightarrow> bool \<Rightarrow> LogEntry" where
  "entry_of k v t = \<lparr>le_CRC32 = ChecksumIEEE (payload k v t), le_Key = k, le_Value = v,
     le_Tombstone = t\<rparr>"

definition entry_bytes :: "LogEntry \<Rightarrow> bytes" where
  "entry_bytes e = record_bytes (le_Key e) (le_Value e) (le_Tombstone e)"

definition small :: "bytes \<Rightarrow> bytes \<Rightarrow> bool" where
  "small k v \<longleftrightarrow> 13 + length k + length v < 2 ^ 32"

definition entry_fits :: "LogEntry \<Rightarrow> bool" where
  "entry_fits e \<longleftrightarrow> small (le_Key e) (le_Value e)
     \<and> e = entry_of (le_Key e) (le_Value e) (le_Tombstone e)"

lemma entry_of_sel [simp]:
  "le_Key (entry_of k v t) = k" "le_Value (entry_of k v t) = v" "le_Tombstone (entry_of k v t) = t"
  "le_CRC32 (entry_of k v t) = ChecksumIEEE (payload k v t)"
  by (simp_all add: entry_of_def)

lemma entry_bytes_of [simp]: "entry_bytes (entry_of k v t) = record_bytes k v t"
  by (simp add: entry_bytes_def)

lemma entry_fits_of [simp]: "entry_fits (entry_of k v t) \<longleftrightarrow> small k v"
  by (simp add: entry_fits_def)

lemma length_payload [simp]: "length (payload k v t) = 9 + length k + length v"
  by (simp add: payload_def)

lemma length_record_bytes [simp]: "length (record_bytes k v t) = 13 + length k + length v"
  by (simp add: record_bytes_def)

lemma small_lengths:
  assumes "small k v"
  shows "unat (of_nat (length k) :: u32) = length k"
    "unat (of_nat (length v) :: u32) = length v"
    "unat (of_nat (length k) + of_nat (length v) :: u32) = length k + length v"
    "unat (13 + of_nat (length k) :: u32) = 13 + length k"
    "unat (13 + of_nat (length k) + of_nat (length v) :: u32) = 13 + length k + length v"
    "unat (9 + (of_nat (length k) + of_nat (length v)) :: u32) = 9 + length k + length v"
proof -
  have *: "unat (of_nat n :: u32) = n" if "n \<le> 13 + length k + length v" for n
    using that assms by (intro unat_of_nat_u32) (simp add: small_def)
  show "unat (of_nat (length k) :: u32) = length k" "unat (of_nat (length v) :: u32) = length v"
    by (simp_all add: *)
  show "unat (of_nat (length k) + of_nat (length v) :: u32) = length k + length v"
    using * [of "length k + length v"] by simp
  show "unat (13 + of_nat (length k) :: u32) = 13 + length k"
    using * [of "13 + length k"] by simp
  show "unat (13 + of_nat (length k) + of_nat (length v) :: u32) = 13 + length k + length v"
    using * [of "13 + length k + length v"] by simp
  show "unat (9 + (of_nat (length k) + of_nat (length v)) :: u32) = 9 + length k + length v"
    using * [of "9 + length k + length v"] by (simp add: add.assoc)
qed

lemma EncodeRecord_small:
  assumes "small k v"
  shows "EncodeRecord k v t = Some (record_bytes k v t)"
  using small_lengths [OF assms]
  by (simp add: EncodeRecord_def Let_def word_less_nat_alt record_bytes_def payload_def)

text \<open>One turn of the reading loop on a well-framed header.\<close>

lemma read_record_header:
  "read_record broken (PutUint32 c @ PutUint32 kl @ PutUint32 vl @ t # rest) =
     (case readFull (unat (kl + vl)) rest of
        None \<Rightarrow> (if broken then Bad (ErrIO ''failed to read wal record body'') else End)
      | Some (body, rest') \<Rightarrow>
          if 9 + (kl + vl) < 9 then Crash
          else let crc = ChecksumIEEE (PutUint32 kl @ PutUint32 vl @ t # body) in
            if c \<noteq> crc then Bad (ErrCRCMismatch c crc)
            else if kl + vl < kl then Crash
            else Got \<lparr>le_CRC32 = c, le_Key = take (unat kl) body, le_Value = drop (unat kl) body,
                     le_Tombstone = (t = 1)\<rparr> rest')"
proof -
  let ?h = "PutUint32 c @ PutUint32 kl @ PutUint32 vl @ [t]"
  have "readFull 13 (?h @ rest) = Some (?h, rest)"
    by (rule readFull_append) simp
  then show ?thesis
    by (cases "readFull (unat (kl + vl)) rest") (auto simp: read_record_def nth_append Let_def)
qed

lemma read_record_bytes:
  assumes "small k v"
  shows "read_record broken (record_bytes k v t @ rest) = Got (entry_of k v t) rest"
  using small_lengths [OF assms]
  by (simp add: record_bytes_def payload_def read_record_header word_less_nat_alt entry_of_def
      readFull_append [where xs = "k @ v", simplified] Let_def)

lemma read_record_torn:
  assumes "small k v" and "n < length (record_bytes k v t)"
  shows "read_record False (take n (record_bytes k v t)) = End"
proof (cases "n < 13")
  case True
  then show ?thesis by (simp add: read_record_def readFull_def)
next
  case False
  let ?kl = "of_nat (length k) :: u32" and ?vl = "of_nat (length v) :: u32"
  have "take n (record_bytes k v t) = PutUint32 (ChecksumIEEE (payload k v t)) @ PutUint32 ?kl
      @ PutUint32 ?vl @ (if t then 1 else 0) # take (n - 13) (k @ v)"
    using False by (simp add: record_bytes_def payload_def take_Cons')
  moreover have "readFull (length k + length v) (take (n - 13) (k @ v)) = None"
    using assms(2) False by (simp add: readFull_None del: take_append)
  ultimately show ?thesis
    using small_lengths [OF assms(1)] by (simp add: read_record_header del: take_append)
qed

interpretation wal: frame_codec entry_bytes "read_record False" entry_fits
proof unfold_locales
  show "entry_fits r \<Longrightarrow> read_record False (entry_bytes r @ rest) = Got r rest" for r rest
    by (metis entry_bytes_def entry_fits_def read_record_bytes)
  show "entry_fits r \<Longrightarrow> n < length (entry_bytes r) \<Longrightarrow> read_record False (take n (entry_bytes r)) = End"
    for r n
    by (simp add: entry_bytes_def entry_fits_def read_record_torn)
  show "read_record False [] = End"
    by (simp add: read_record_def readFull_def)
qed

section \<open>The reading loops\<close>

text \<open>What \<open>ReplayWAL\<close> does with the entries it has read: the callback, in order.\<close>

fun apply_entries ::
  "(bytes \<Rightarrow> bytes \<Rightarrow> bool \<Rightarrow> 's \<Rightarrow> 's option) \<Rightarrow> LogEntry list \<Rightarrow> 's \<Rightarrow> 's option" where
  "apply_entries f [] s = Some s"
| "apply_entries f (e # es) s =
     (case f (le_Key e) (le_Value e) (le_Tombstone e) s of
        None \<Rightarrow> None | Some s' \<Rightarrow> apply_entries f es s')"

lemma recover_loop_reads:
  "reads (read_record broken) bs es rest \<Longrightarrow>
   recover_loop broken bs acc = recover_loop broken rest (acc @ es)"
proof (induction arbitrary: acc rule: reads.induct)
  case (reads_Cons bs r bs' rs rest)
  then show ?case by (subst recover_loop.simps) simp
qed simp

text \<open>The two copies of the reading code agree, up to the texts of their errors.\<close>

definition replay_error :: "wal_error \<Rightarrow> wal_error" where
  "replay_error e =
     (if e = ErrIO ''failed to read wal header'' then ErrIO ''failed to read wal header in''
      else if e = ErrIO ''failed to read wal record body'' then ErrIO ''failed to read wal body in''
      else e)"

lemma replay_error_crc [simp]: "replay_error (ErrCRCMismatch c crc) = ErrCRCMismatch c crc"
  by (simp add: replay_error_def)

lemma replay_record_read:
  "replay_record broken bs = map_scan replay_error (\<lambda>e. (le_Key e, le_Value e, le_Tombstone e)) (read_record broken bs)"
  by (simp add: replay_record_def read_record_def replay_error_def Let_def split: option.split)

lemma replay_file_reads:
  "reads (read_record broken) bs es rest \<Longrightarrow>
   replay_file f broken bs s n =
     (case apply_entries f es s of
        None \<Rightarrow> None | Some s' \<Rightarrow> replay_file f broken rest s' (n + int (length es)))"
proof (induction arbitrary: s n rule: reads.induct)
  case (reads_Cons bs r bs' rs rest)
  then show ?case
    by (subst replay_file.simps) (auto split: option.split simp: ac_simps replay_record_read)
qed simp

text \<open>\<open>Recover\<close> and \<open>ReplayWAL\<close> stop at the first step that gives no record.\<close>

lemma recover_loop_stop:
  "read_record broken bs = End \<Longrightarrow> recover_loop broken bs acc = Ok acc"
  "read_record broken bs = Bad e \<Longrightarrow> recover_loop broken bs acc = Err e"
  "read_record broken bs = Crash \<Longrightarrow> recover_loop broken bs acc = Panic"
  by (subst recover_loop.simps, simp)+

lemma replay_file_stop:
  "read_record broken bs = End \<Longrightarrow> replay_file f broken bs s n = Some (s, n, None)"
  "read_record broken bs = Bad e \<Longrightarrow> replay_file f broken bs s n = Some (s, n, Some (replay_error e))"
  "read_record broken bs = Crash \<Longrightarrow> replay_file f broken bs s n = None"
  by (subst replay_file.simps, simp add: replay_record_read)+

lemma reads_broken: "reads (read_record False) bs es rest \<Longrightarrow> reads (read_record True) bs es rest"
proof (induction rule: reads.induct)
  case (reads_Cons bs r bs' rs rest)
  have "read_record True bs = Got r bs'"
    using reads_Cons.hyps(1)
    by (auto simp: read_record_def Let_def split: option.splits if_splits)
  then show ?case using reads_Cons by (auto intro: reads.intros)
qed (rule reads.intros)

text \<open>Every byte stream has a maximal sequence of readable records.\<close>

lemma reads_maximal:
  "\<exists>es rest. reads (read_record broken) bs es rest \<and> (\<forall>e rest'. read_record broken rest \<noteq> Got e rest')"
proof (induction bs rule: length_induct)
  case (1 bs)
  show ?case
  proof (cases "\<exists>e rest'. read_record broken bs = Got e rest'")
    case True
    then obtain e rest' where g: "read_record broken bs = Got e rest'" by blast
    with 1 read_record_shrinks obtain es rest where
      "reads (read_record broken) rest' es rest" "\<forall>e r. read_record broken rest \<noteq> Got e r" by blast
    with g show ?thesis by (blast intro: reads.intros)
  next
    case False
    then show ?thesis by (blast intro: reads.intros)
  qed
qed

section \<open>Damaged records\<close>

text \<open>
  A record whose checked part (flag, key and value) is changed within four consecutive
  bytes, or whose stored checksum is changed, fails its check.
\<close>

lemma read_record_damaged_payload:
  assumes "small k v" and p: "(if t then 1 else 0) # k @ v = p1 @ m @ p2"
    and "length m' = length m" "length m \<le> 4" "m' \<noteq> m"
  shows "\<exists>crc. read_record broken (PutUint32 (ChecksumIEEE (payload k v t))
      @ PutUint32 (of_nat (length k)) @ PutUint32 (of_nat (length v)) @ p1 @ m' @ p2 @ rest)
    = Bad (ErrCRCMismatch (ChecksumIEEE (payload k v t)) crc)"
proof -
  let ?kl = "of_nat (length k) :: u32" and ?vl = "of_nat (length v) :: u32"
  let ?q = "PutUint32 ?kl @ PutUint32 ?vl @ p1"
  have len: "length (p1 @ m' @ p2) = Suc (length k + length v)"
    using arg_cong [OF p, of length] assms(3) by simp
  then obtain t' body where tb: "p1 @ m' @ p2 = t' # body" and lb: "length body = length k + length v"
    by (cases "p1 @ m' @ p2") auto
  have "payload k v t = ?q @ m @ p2"
    using p by (simp add: payload_def)
  moreover have "PutUint32 ?kl @ PutUint32 ?vl @ t' # body = ?q @ m' @ p2"
    using tb by simp
  ultimately have crc: "ChecksumIEEE (PutUint32 ?kl @ PutUint32 ?vl @ t' # body) \<noteq> ChecksumIEEE (payload k v t)"
    using checksum_burst [of m' m ?q p2] assms(3,4,5) by simp
  have eq: "p1 @ m' @ p2 @ rest = t' # body @ rest"
    using tb by (metis append.assoc append_Cons)
  show ?thesis
    unfolding eq using small_lengths [OF assms(1)] lb crc
    by (simp add: read_record_header word_less_nat_alt Let_def)
qed

lemma read_record_damaged_crc:
  assumes "small k v" and "c \<noteq> ChecksumIEEE (payload k v t)"
  shows "read_record broken (PutUint32 c @ payload k v t @ rest)
    = Bad (ErrCRCMismatch c (ChecksumIEEE (payload k v t)))"
  using small_lengths [OF assms(1)] assms(2)
  by (simp add: payload_def read_record_header word_less_nat_alt Let_def
      readFull_append [where xs = "k @ v", simplified])

text \<open>Both kinds of damage, at any place of an encoded record but its length fields.\<close>

lemma read_record_damaged:
  assumes sm: "small key value" and rec: "record_bytes key value tombstone = head @ m @ tail"
    and "length m' = length m" "length m \<le> 4" "m' \<noteq> m"
    and "12 \<le> length head \<or> (head = [] \<and> length m = 4)"
  shows "\<exists>c crc. read_record broken (head @ m' @ tail @ rest) = Bad (ErrCRCMismatch c crc)"
proof (cases "head = [] \<and> length m = 4")
  case True
  let ?c = "ChecksumIEEE (payload key value tombstone)"
  from True rec have pt: "PutUint32 ?c = m" "payload key value tombstone = tail"
    by (auto simp: record_bytes_def append_eq_append_conv)
  from True assms(3) obtain c where c: "m' = PutUint32 c"
    by (metis PutUint32_Uint32)
  with pt assms(5) have "c \<noteq> ?c" by auto
  from read_record_damaged_crc [OF sm this, of broken rest] True pt c show ?thesis by auto
next
  case False
  with assms(6) have "12 \<le> length head" by blast
  let ?c = "ChecksumIEEE (payload key value tombstone)"
  let ?kl = "of_nat (length key) :: u32" and ?vl = "of_nat (length value) :: u32"
  define hdr where "hdr = PutUint32 ?c @ PutUint32 ?kl @ PutUint32 ?vl"
  have lh: "length hdr = 12" by (simp add: hdr_def)
  have eq: "hdr @ (if tombstone then 1 else 0) # key @ value = head @ m @ tail"
    using rec by (simp add: hdr_def record_bytes_def payload_def)
  have "take 12 head = hdr"
    using arg_cong [OF eq, of "take 12"] \<open>12 \<le> length head\<close> lh by simp
  then have "(hdr @ drop 12 head) @ m' @ tail @ rest = head @ m' @ tail @ rest"
    by (simp only: append_take_drop_id flip: \<open>take 12 head = hdr\<close>)
  then have buf: "head @ m' @ tail @ rest = PutUint32 ?c @ PutUint32 ?kl @ PutUint32 ?vl
      @ drop 12 head @ m' @ tail @ rest"
    by (simp only: hdr_def append.assoc)
  have p: "(if tombstone then 1 else 0) # key @ value = drop 12 head @ m @ tail"
    using arg_cong [OF eq, of "drop 12"] \<open>12 \<le> length head\<close> lh by simp
  from read_record_damaged_payload [OF sm p assms(3-5), of broken rest] show ?thesis
    unfolding buf by blast
qed

section \<open>Appending\<close>

abbreviation written :: "(io \<times> bytes \<times> bytes \<times> bool) list \<Rightarrow> LogEntry list" where
  "written rs \<equiv> map (\<lambda>(_, k, v, t). entry_of k v t) rs"

definition writable :: "(io \<times> bytes \<times> bytes \<times> bool) list \<Rightarrow> bool" where
  "writable rs \<longleftrightarrow> (\<forall>(os, k, v, t) \<in> set rs. io_write os = None \<and> small k v)"

lemma writable_fits: "writable rs \<Longrightarrow> \<forall>e \<in> set (written rs). entry_fits e"
  by (auto simp: writable_def)

lemma Append_written:
  assumes "\<not> w_closed w" "io_write os = None" "small k v"
  shows "\<exists>w' n err. Append os w k v t = Some (w', n, err)
    \<and> f_data (w_file w') = f_data (w_file w) @ record_bytes k v t
    \<and> w_size w' = w_size w + int (length (record_bytes k v t))
    \<and> w_opts w' = w_opts w \<and> \<not> w_closed w'
    \<and> f_synced (w_file w') \<in> {f_synced (w_file w), length (f_data (w_file w'))}
    \<and> (SyncOnWrite (w_opts w) \<longrightarrow> err = None \<longrightarrow> f_synced (w_file w') = length (f_data (w_file w')))"
  using assms
  by (auto simp: Append_def EncodeRecord_small Let_def file_append_def file_sync_def)

text \<open>
  A sequence of appends whose writes go through: the log holds the old bytes and the new
  records, and the bytes of every acknowledged record are on disk.
\<close>

lemma append_all_written:
  assumes "writable rs" "\<not> w_closed w" "SyncOnWrite (w_opts w)"
    and "f_synced (w_file w) \<le> length (f_data (w_file w))"
  shows "\<exists>w' errs. append_all rs w = Some (w', errs)
    \<and> f_data (w_file w') = f_data (w_file w) @ concat (map entry_bytes (written rs))
    \<and> w_size w' = w_size w + int (length (concat (map entry_bytes (written rs))))
    \<and> \<not> w_closed w' \<and> w_opts w' = w_opts w \<and> length errs = length rs
    \<and> f_synced (w_file w) \<le> f_synced (w_file w')
    \<and> (\<forall>i < length rs. errs ! i = None \<longrightarrow>
          length (f_data (w_file w)) + length (concat (map entry_bytes (take (Suc i) (written rs))))
            \<le> f_synced (w_file w'))"
  using assms
proof (induction rs arbitrary: w)
  case (Cons r rs)
  obtain os k v t where r: "r = (os, k, v, t)" by (cases r)
  with Cons.prems have "io_write os = None" "small k v" and rs: "writable rs"
    by (auto simp: writable_def)
  then obtain w1 n err where w1: "Append os w k v t = Some (w1, n, err)"
      "f_data (w_file w1) = f_data (w_file w) @ record_bytes k v t"
      "w_size w1 = w_size w + int (length (record_bytes k v t))"
      "w_opts w1 = w_opts w" "\<not> w_closed w1"
      "f_synced (w_file w1) \<in> {f_synced (w_file w), length (f_data (w_file w1))}"
      "err = None \<longrightarrow> f_synced (w_file w1) = length (f_data (w_file w1))"
    using Append_written [of w os k v t] Cons.prems by blast
  then have "f_synced (w_file w1) \<le> length (f_data (w_file w1))" "SyncOnWrite (w_opts w1)"
    using Cons.prems by auto
  from Cons.IH [OF rs w1(5) this(2,1)] obtain w2 errs where
    w2: "append_all rs w1 = Some (w2, errs)"
      "f_data (w_file w2) = f_data (w_file w1) @ concat (map entry_bytes (written rs))"
      "w_size w2 = w_size w1 + int (length (concat (map entry_bytes (written rs))))"
      "\<not> w_closed w2" "w_opts w2 = w_opts w1" "length errs = length rs"
      "f_synced (w_file w1) \<le> f_synced (w_file w2)"
      "\<forall>i < length rs. errs ! i = None \<longrightarrow>
          length (f_data (w_file w1)) + length (concat (map entry_bytes (take (Suc i) (written rs))))
            \<le> f_synced (w_file w2)"
    by blast
  have "length (f_data (w_file w)) + length (concat (map entry_bytes (take (Suc i) (written (r # rs)))))
      \<le> f_synced (w_file w2)" if "i < length (r # rs)" "(err # errs) ! i = None" for i
    using that w1 w2 r by (cases i) auto
  then show ?case
    using r w1 w2 Cons.prems by (auto split: option.splits)
qed simp

lemma acknowledged_within:
  assumes "length (concat (map enc (take (Suc i) rs))) \<le> n" and "i < length rs"
  shows "i < length (complete_within enc n rs)"
proof -
  have "complete_within enc n (take (Suc i) rs @ drop (Suc i) rs) = take (Suc i) rs
      @ complete_within enc (n - length (concat (map enc (take (Suc i) rs)))) (drop (Suc i) rs)"
    by (rule complete_within_append [OF assms(1)])
  then show ?thesis
    using assms(2) by (simp add: append_take_drop_id)
qed

lemma recover_truncated:
  assumes "\<forall>e \<in> set es. entry_fits e"
  shows "recover_loop False (take n (concat (map entry_bytes es))) []
    = Ok (complete_within entry_bytes n es)"
proof -
  from wal.reads_truncated [OF assms] obtain rest where
    "reads (read_record False) (take n (concat (map entry_bytes es))) (complete_within entry_bytes n es) rest"
    "read_record False rest = End" by blast
  then show ?thesis by (simp add: recover_loop_reads recover_loop_stop)
qed

lemma recover_complete:
  "\<forall>e \<in> set es. entry_fits e \<Longrightarrow> recover_loop False (concat (map entry_bytes es)) [] = Ok es"
  using recover_truncated [of es "length (concat (map entry_bytes es))"]
  by (simp add: complete_within_all)

section \<open>Properties\<close>

text \<open>
  A record that fits in 32 bits is encoded without a panic, takes 13 bytes more than its
  key and value, and the reading loop gives back its key, value and tombstone flag and
  leaves exactly the bytes that follow it.
\<close>

theorem encode_read_roundtrip:
  assumes "13 + length key + length value < 2 ^ 32"
  shows "\<exists>buf. EncodeRecord key value tombstone = Some buf
    \<and> length buf = 13 + length key + length value
    \<and> (\<exists>e. read_record broken (buf @ rest) = Got e rest
          \<and> le_Key e = key \<and> le_Value e = value \<and> le_Tombstone e = tombstone)"
  using assms EncodeRecord_small [of key "value" tombstone]
    read_record_bytes [of key "value" broken tombstone rest]
  by (auto simp: small_def)

theorem encode_read_roundtrip_witness:
  "13 + length [1 :: byte] + length [2, 3 :: byte] < 2 ^ 32
   \<and> (\<exists>buf. EncodeRecord [1] [2, 3] True = Some buf \<and> length buf = 16
        \<and> (\<exists>e. read_record False (buf @ [9]) = Got e [9]
              \<and> le_Key e = [1] \<and> le_Value e = [2, 3] \<and> le_Tombstone e))"
  using encode_read_roundtrip [of "[1]" "[2, 3]" True False "[9]"] by simp

text \<open>
  Whatever \<open>fsync\<close> answers, as long as the writes themselves go through, \<open>Recover\<close>
  returns every record appended to a fresh log, in the order of the appends, and the size
  the log keeps is the size of its file.
\<close>

theorem recover_returns_appends:
  assumes "OpenWAL True True True (DefaultWALOptions dir) None = Inr w"
    and "\<forall>(os, key, value, tombstone) \<in> set rs.
      io_write os = None \<and> 13 + length key + length value < 2 ^ 32"
  shows "\<exists>w' errs es. append_all rs w = Some (w', errs)
    \<and> Recover True False True w' = Ok es
    \<and> map (\<lambda>e. (le_Key e, le_Value e, le_Tombstone e)) es = map snd rs
    \<and> w_size w' = int (length (f_data (w_file w')))"
proof -
  have w: "\<not> w_closed w" "SyncOnWrite (w_opts w)" "f_data (w_file w) = []"
      "f_synced (w_file w) = 0" "w_size w = 0"
    using assms(1) by (auto simp: OpenWAL_def DefaultWALOptions_def)
  have rs: "writable rs"
    using assms(2) by (auto simp: writable_def small_def)
  with w append_all_written [OF rs, of w] obtain w' errs where
    "append_all rs w = Some (w', errs)" "\<not> w_closed w'"
    "f_data (w_file w') = concat (map entry_bytes (written rs))"
    "w_size w' = int (length (f_data (w_file w')))"
    by auto
  moreover have "recover_loop False (concat (map entry_bytes (written rs))) [] = Ok (written rs)"
    by (rule recover_complete [OF writable_fits [OF rs]])
  moreover have "map (\<lambda>e. (le_Key e, le_Value e, le_Tombstone e)) (written rs) = map snd rs"
    by auto
  ultimately show ?thesis by (auto simp: Recover_def)
qed

theorem recover_returns_appends_witness:
  "\<exists>w w' errs es. OpenWAL True True True (DefaultWALOptions ''d'') None = Inr w
    \<and> append_all [(io_ok, [1], [2], False), (io_ok, [3], [], True)] w = Some (w', errs)
    \<and> Recover True False True w' = Ok es
    \<and> map (\<lambda>e. (le_Key e, le_Value e, le_Tombstone e)) es = [([1], [2], False), ([3], [], True)]"
proof -
  obtain w where w: "OpenWAL True True True (DefaultWALOptions ''d'') None = Inr w"
    by (simp add: OpenWAL_def)
  have "\<forall>(os, key, value, tombstone) \<in> set [(io_ok, [1], [2], False), (io_ok, [3], [], True)].
      io_write os = None \<and> 13 + length (key :: bytes) + length (value :: bytes) < 2 ^ 32"
    by simp
  from recover_returns_appends [OF w this] w show ?thesis by auto
qed

text \<open>
  C3: on a fresh log with the default options (\<open>SyncOnWrite\<close>), as long as every write to the file goes
  through (every \<open>fsync\<close> may fail), a crash that keeps at least the bytes \<open>fsync\<close> forced out loses no
  acknowledged append: the log opened again recovers without an error, gives a prefix of what was
  appended, and that prefix reaches beyond every append that returned no error.
\<close>

theorem acknowledged_appends_survive_crash:
  assumes "OpenWAL True True True (DefaultWALOptions dir) None = Inr w"
    and "\<forall>(os, key, value, tombstone) \<in> set rs.
      io_write os = None \<and> 13 + length key + length value < 2 ^ 32"
    and "append_all rs w = Some (w', errs)"
    and "f_synced (w_file w') \<le> n"
    and "OpenWAL True True True (DefaultWALOptions dir) (Some (crash_to n (w_file w'))) = Inr w2"
  shows "\<exists>es. Recover True False True w2 = Ok es
    \<and> prefix (map (\<lambda>e. (le_Key e, le_Value e, le_Tombstone e)) es) (map snd rs)
    \<and> (\<forall>i < length rs. errs ! i = None \<longrightarrow> i < length es)"
proof -
  have w: "\<not> w_closed w" "SyncOnWrite (w_opts w)" "f_data (w_file w) = []"
      "f_synced (w_file w) = 0"
    using assms(1) by (auto simp: OpenWAL_def DefaultWALOptions_def)
  have rs: "writable rs"
    using assms(2) by (auto simp: writable_def small_def)
  let ?es = "complete_within entry_bytes n (written rs)"
  from w append_all_written [OF rs, of w] assms(3)
  have data: "f_data (w_file w') = concat (map entry_bytes (written rs))"
    and acked: "\<forall>i < length rs. errs ! i = None \<longrightarrow>
      length (concat (map entry_bytes (take (Suc i) (written rs)))) \<le> f_synced (w_file w')"
    by auto
  have "Recover True False True w2 = Ok ?es"
    using assms(5) recover_truncated [OF writable_fits [OF rs], of n] data
    by (auto simp: OpenWAL_def Recover_def crash_to_def)
  moreover have "prefix (map (\<lambda>e. (le_Key e, le_Value e, le_Tombstone e)) ?es) (map snd rs)"
    using map_mono_prefix [OF complete_within_prefix,
        of "\<lambda>e. (le_Key e, le_Value e, le_Tombstone e)" entry_bytes n "written rs"]
    by (simp add: comp_def split_beta)
  moreover have "\<forall>i < length rs. errs ! i = None \<longrightarrow> i < length ?es"
    using acked assms(4) acknowledged_within [of entry_bytes _ "written rs" n] by fastforce
  ultimately show ?thesis by blast
qed

theorem acknowledged_appends_survive_crash_witness:
  "\<exists>w w' errs w2 es. OpenWAL True True True (DefaultWALOptions ''d'') None = Inr w
    \<and> append_all [(io_ok, [1], [2], False), (io_ok\<lparr>io_sync := False\<rparr>, [3], [4], False)] w = Some (w', errs)
    \<and> OpenWAL True True True (DefaultWALOptions ''d'') (Some (crash_to 20 (w_file w'))) = Inr w2
    \<and> f_synced (w_file w') \<le> 20
    \<and> Recover True False True w2 = Ok es
    \<and> prefix (map (\<lambda>e. (le_Key e, le_Value e, le_Tombstone e)) es) [([1], [2], False), ([3], [4], False)]
    \<and> errs ! 0 = None \<and> 0 < length es"
proof -
  let ?rs = "[(io_ok, [1], [2], False), (io_ok\<lparr>io_sync := False\<rparr>, [3], [4], False)]
    :: (io \<times> bytes \<times> bytes \<times> bool) list"
  obtain w where w: "OpenWAL True True True (DefaultWALOptions ''d'') None = Inr w"
    by (simp add: OpenWAL_def)
  have fits: "\<forall>(os, key, value, tombstone) \<in> set ?rs.
      io_write os = None \<and> 13 + length (key :: bytes) + length (value :: bytes) < 2 ^ 32"
    by simp
  have small: "small [1] [2]" "small [3] [4]"
    by (simp_all add: small_def)
  obtain w' errs where w': "append_all ?rs w = Some (w', errs)"
    and synced: "f_synced (w_file w') \<le> 20" and ack: "errs ! 0 = None"
    using w small
    by (auto simp: OpenWAL_def DefaultWALOptions_def Append_def EncodeRecord_small Let_def
        file_append_def file_sync_def)
  obtain w2 where w2: "OpenWAL True True True (DefaultWALOptions ''d'') (Some (crash_to 20 (w_file w'))) = Inr w2"
    by (simp add: OpenWAL_def Let_def)
  obtain es where es: "Recover True False True w2 = Ok es
      \<and> prefix (map (\<lambda>e. (le_Key e, le_Value e, le_Tombstone e)) es) (map snd ?rs)
      \<and> (\<forall>i < length ?rs. errs ! i = None \<longrightarrow> i < length es)"
    using acknowledged_appends_survive_crash [OF w fits w' synced w2] by (rule exE)
  then have "\<forall>i < length ?rs. errs ! i = None \<longrightarrow> i < length es"
    by (elim conjE)
  from this [rule_format, of 0] ack have "0 < length es" by simp
  with w w' w2 synced ack es show ?thesis
    by (intro exI [of _ w] exI [of _ w'] exI [of _ errs] exI [of _ w2] exI [of _ es]) simp
qed

text \<open>
  C34: bit rot in a log is reported. When up to four consecutive bytes of the flag, key and
  value of a record, or its stored checksum, have changed, \<open>Recover\<close> returns the
  checksum error, and \<open>ReplayWAL\<close> has applied exactly the intact records before the
  damaged one when it returns that error.
\<close>

theorem damaged_record_is_reported:
  assumes "\<forall>e \<in> set es. entry_fits e"
    and "13 + length key + length value < 2 ^ 32"
    and "EncodeRecord key value tombstone = Some (head @ m @ tail)"
    and "length m' = length m" "length m \<le> 4" "m' \<noteq> m"
    and "12 \<le> length head \<or> (head = [] \<and> length m = 4)"
    and "\<not> w_closed w" "f_data (w_file w) = concat (map entry_bytes es) @ head @ m' @ tail @ rest"
  shows "\<exists>c crc. Recover True False True w = Err (ErrCRCMismatch c crc)
    \<and> replay_file applyFn False (f_data (w_file w)) s 0 =
        (case apply_entries applyFn es s of
           None \<Rightarrow> None
         | Some s' \<Rightarrow> Some (s', int (length es), Some (ErrCRCMismatch c crc)))"
proof -
  have sm: "small key value" using assms(2) by (simp add: small_def)
  have "record_bytes key value tombstone = head @ m @ tail"
    using assms(3) EncodeRecord_small [OF sm, of tombstone] by simp
  from read_record_damaged [OF sm this assms(4-7), of False rest]
  obtain c crc where bad: "read_record False (head @ m' @ tail @ rest) = Bad (ErrCRCMismatch c crc)"
    by blast
  have "reads (read_record False) (f_data (w_file w)) es (head @ m' @ tail @ rest)"
    using wal.reads_all [OF assms(1)] by (simp add: assms(9))
  with bad assms(8) show ?thesis
    by (auto simp: Recover_def recover_loop_reads replay_file_reads recover_loop_stop
        replay_file_stop split: option.split)
qed

theorem damaged_record_is_reported_witness:
  "\<exists>w c crc. f_data (w_file w) = record_bytes [1] [2] False
      @ take 14 (record_bytes [3] [4] False) @ [5] @ [7]
    \<and> Recover True False True w = Err (ErrCRCMismatch c crc)"
proof -
  let ?b = "record_bytes [3] [4] False"
  define w where "w = \<lparr>w_opts = DefaultWALOptions ''d'',
    w_file = \<lparr>f_data = record_bytes [1] [2] False @ take 14 ?b @ [5] @ [7], f_synced = 0\<rparr>,
    w_closed = False, w_size = 0\<rparr>"
  have small: "small [1] [2]" "small [3] [4]"
    by (simp_all add: small_def)
  have b: "EncodeRecord [3] [4] False = Some (take 14 ?b @ [4] @ [])"
    using EncodeRecord_small [OF small(2), of False]
    by (simp add: record_bytes_def payload_def)
  have "\<exists>c crc. Recover True False True w = Err (ErrCRCMismatch c crc)
    \<and> replay_file (\<lambda>_ _ _. Some) False (f_data (w_file w)) () 0 =
        (case apply_entries (\<lambda>_ _ _. Some) [entry_of [1] [2] False] () of
           None \<Rightarrow> None
         | Some s' \<Rightarrow> Some (s', int (length [entry_of [1] [2] False]), Some (ErrCRCMismatch c crc)))"
    by (rule damaged_record_is_reported [OF _ _ b, where m' = "[5]" and rest = "[7]"])
      (simp_all add: w_def small)
  then show ?thesis by (intro exI [of _ w]) (auto simp: w_def)
qed

text \<open>A directory that holds one file.\<close>

definition one_file :: "string \<Rightarrow> bytes \<Rightarrow> bool \<Rightarrow> dir_listing" where
  "one_file name bs broken = DirEntries [\<lparr>d_name = name, d_isdir = False, d_contents = Some (bs, broken)\<rparr>]"

lemma ReplayWAL_one_file:
  assumes "Ext name = ''.wal''"
  shows "ReplayWAL (one_file name bs broken) applyFn s = replay_file applyFn broken bs s 0"
  using assms by (simp add: ReplayWAL_def one_file_def split: option.split prod.split)

text \<open>
  C35: \<open>Recover\<close> and \<open>ReplayWAL\<close>, two copies of the reading code, agree on every log, whatever bytes it
  holds. On a directory with that log as its only segment, and with a callback that does not panic,
  \<open>ReplayWAL\<close> applies in order the records that the loop of \<open>Recover\<close> reads and returns their number.
  \<open>Recover\<close> returns these records where \<open>ReplayWAL\<close> reports no error; where \<open>Recover\<close> fails, \<open>ReplayWAL\<close>
  fails with the same error, the checksums included, or with its own text for the same failed read;
  and where one panics, so does the other.
\<close>

theorem replay_agrees_with_recover:
  assumes "\<not> w_closed w" and "Ext name = ''.wal''"
    and "\<And>k v t s. applyFn k v t s \<noteq> None"
  shows "\<exists>es rest s'. reads (read_record broken) (f_data (w_file w)) es rest \<and> apply_entries applyFn es s = Some s'
    \<and> (case Recover True broken True w of
         Ok es' \<Rightarrow> es' = es \<and> ReplayWAL (one_file name (f_data (w_file w)) broken) applyFn s = Some (s', int (length es), None)
       | Err e \<Rightarrow> ReplayWAL (one_file name (f_data (w_file w)) broken) applyFn s = Some (s', int (length es), Some (replay_error e))
       | Panic \<Rightarrow> ReplayWAL (one_file name (f_data (w_file w)) broken) applyFn s = None)"
proof -
  let ?data = "f_data (w_file w)"
  obtain es rest where rd: "reads (read_record broken) ?data es rest"
    and stop: "\<forall>e rest'. read_record broken rest \<noteq> Got e rest'"
    using reads_maximal by blast
  have "\<exists>s'. apply_entries applyFn es s = Some s'" for es
    using assms(3) by (induction es arbitrary: s) (auto split: option.split)
  then obtain s' where s': "apply_entries applyFn es s = Some s'" by blast
  have "case Recover True broken True w of
         Ok es' \<Rightarrow> es' = es \<and> ReplayWAL (one_file name ?data broken) applyFn s = Some (s', int (length es), None)
       | Err e \<Rightarrow> ReplayWAL (one_file name ?data broken) applyFn s = Some (s', int (length es), Some (replay_error e))
       | Panic \<Rightarrow> ReplayWAL (one_file name ?data broken) applyFn s = None"
    unfolding ReplayWAL_one_file [OF assms(2)] using stop assms(1) s'
    by (cases "read_record broken rest")
      (auto simp: Recover_def recover_loop_reads [OF rd] replay_file_reads [OF rd] recover_loop_stop replay_file_stop)
  then show ?thesis using rd s' by blast
qed

theorem replay_agrees_with_recover_witness:
  "\<exists>w s'. f_data (w_file w) = record_bytes [1] [2] False @ [0, 0]
    \<and> Recover True False True w = Ok [entry_of [1] [2] False]
    \<and> ReplayWAL (one_file ''bench_0.wal'' (f_data (w_file w)) False) (\<lambda>k v t s. Some (s @ [k])) [] = Some (s', 1, None)"
proof -
  define w where "w = \<lparr>w_opts = DefaultWALOptions ''d'',
    w_file = \<lparr>f_data = record_bytes [1] [2] False @ [0, 0], f_synced = 0\<rparr>,
    w_closed = False, w_size = 0\<rparr>"
  have "read_record False (record_bytes [1] [2] False @ [0, 0]) = Got (entry_of [1] [2] False) [0, 0]"
    by (rule read_record_bytes) (simp add: small_def)
  moreover have "read_record False [0, 0] = End"
    by (simp add: read_record_def readFull_def)
  ultimately have r: "Recover True False True w = Ok [entry_of [1] [2] False]"
    by (simp add: Recover_def w_def recover_loop.simps)
  have "\<not> w_closed w" "Ext ''bench_0.wal'' = ''.wal''" by (simp_all add: w_def Ext_def)
  from replay_agrees_with_recover [OF this, of "\<lambda>k v t s. Some (s @ [k])" False "[]"] r
  obtain s' where "ReplayWAL (one_file ''bench_0.wal'' (f_data (w_file w)) False) (\<lambda>k v t s. Some (s @ [k])) [] = Some (s', 1, None)"
    by auto
  then show ?thesis using r by (intro exI [of _ w] exI [of _ s']) (simp add: w_def)
qed

text \<open>
  C36: a torn record in the middle of a log makes the records behind it unrecoverable. Let a record
  have lost its last one to four bytes, all of them bytes of its key and value, and let further bytes
  have been appended behind it (after a failed write, or after a crash and a restart: nothing cuts
  the torn record off), whose beginning is not by chance the missing bytes. Then \<open>Recover\<close> fails with a
  checksum error, and \<open>ReplayWAL\<close> applies the records before the torn one only and reports that error.
  The witness is a run in which the record behind the torn one was acknowledged and forced to disk.
\<close>

theorem torn_record_hides_later_appends:
  assumes "\<forall>e \<in> set es. entry_fits e" and "13 + length key + length value < 2 ^ 32"
    and "EncodeRecord key value tombstone = Some (torn @ missing)"
    and "1 \<le> length missing" "length missing \<le> 4" "length missing \<le> length key + length value"
    and "length missing \<le> length later" "take (length missing) later \<noteq> missing"
    and "\<not> w_closed w" "f_data (w_file w) = concat (map entry_bytes es) @ torn @ later"
    and "Ext name = ''.wal''"
  shows "\<exists>c crc. Recover True False True w = Err (ErrCRCMismatch c crc)
    \<and> ReplayWAL (one_file name (f_data (w_file w)) False) applyFn s =
        (case apply_entries applyFn es s of
           None \<Rightarrow> None
         | Some s' \<Rightarrow> Some (s', int (length es), Some (ErrCRCMismatch c crc)))"
proof -
  have sm: "small key value" using assms(2) by (simp add: small_def)
  let ?m = "length missing"
  have buf: "record_bytes key value tombstone = torn @ missing"
    using assms(3) EncodeRecord_small [OF sm, of tombstone] by simp
  have "length torn + ?m = 13 + length key + length value"
    using arg_cong [OF buf, of length] by simp
  with assms(6) have "13 \<le> length torn" by simp
  have buf': "record_bytes key value tombstone = torn @ missing @ []"
    using buf by simp
  have "\<exists>c crc. read_record False (torn @ take ?m later @ [] @ drop ?m later) = Bad (ErrCRCMismatch c crc)"
    by (rule read_record_damaged [OF sm buf'])
      (use assms(5,7,8) \<open>13 \<le> length torn\<close> in auto)
  then obtain c crc where "read_record False (torn @ take ?m later @ [] @ drop ?m later)
      = Bad (ErrCRCMismatch c crc)"
    by blast
  then have "read_record False (torn @ later) = Bad (ErrCRCMismatch c crc)"
    by simp
  moreover have "reads (read_record False) (f_data (w_file w)) es (torn @ later)"
    using wal.reads_all [OF assms(1)] by (simp add: assms(10))
  ultimately show ?thesis
    unfolding ReplayWAL_one_file [OF assms(11)]
    using assms(9) by (auto simp: Recover_def recover_loop_reads replay_file_reads recover_loop_stop
        replay_file_stop split: option.split)
qed

theorem torn_record_hides_later_appends_witness:
  "\<exists>w w' c crc. OpenWAL True True True (DefaultWALOptions ''d'') None = Inr w
    \<and> append_all [(io_ok, [1], [2], False), (io_ok\<lparr>io_write := Some 14\<rparr>, [3], [4], False),
         (io_ok, [5], [6], False)] w = Some (w', [None, Some (ErrIO ''failed to write wal entry''), None])
    \<and> f_synced (w_file w') = length (f_data (w_file w'))
    \<and> Recover True False True w' = Err (ErrCRCMismatch c crc)"
proof -
  let ?rs = "[(io_ok, [1], [2], False), (io_ok\<lparr>io_write := Some 14\<rparr>, [3], [4], False),
         (io_ok, [5], [6], False)] :: (io \<times> bytes \<times> bytes \<times> bool) list"
  let ?later = "record_bytes [5] [6] False"
  have small: "small [1] [2]" "small [3] [4]" "small [5] [6]"
    by (simp_all add: small_def)
  obtain w where w: "OpenWAL True True True (DefaultWALOptions ''d'') None = Inr w"
    by (simp add: OpenWAL_def)
  then obtain w' where run: "append_all ?rs w = Some (w', [None, Some (ErrIO ''failed to write wal entry''), None])"
    and synced: "f_synced (w_file w') = length (f_data (w_file w'))" and "\<not> w_closed w'"
    and data: "f_data (w_file w') = concat (map entry_bytes [entry_of [1] [2] False])
      @ take 14 (record_bytes [3] [4] False) @ ?later"
    using small
    by (auto simp: OpenWAL_def DefaultWALOptions_def Append_def EncodeRecord_small Let_def
        file_append_def file_sync_def)
  have torn: "EncodeRecord [3] [4] False = Some (take 14 (record_bytes [3] [4] False) @ [4])"
    using EncodeRecord_small [OF small(2), of False] by (simp add: record_bytes_def payload_def)
  have "payload [5] [6] False = [0, 0, 0, 1, 0, 0, 0, 1, 0, 5, 6]"
    by (simp add: payload_def PutUint32_def)
  then have "ChecksumIEEE (payload [5] [6] False) = 0x8B858767"
    by (simp add: crc_eval)
  then have "take 1 ?later \<noteq> [4]"
    by (simp add: record_bytes_def PutUint32_def)
  then have "\<exists>c crc. Recover True False True w' = Err (ErrCRCMismatch c crc)
    \<and> ReplayWAL (one_file ''bench_0.wal'' (f_data (w_file w')) False) (\<lambda>_ _ _. Some) () =
        (case apply_entries (\<lambda>_ _ _. Some) [entry_of [1] [2] False] () of
           None \<Rightarrow> None
         | Some s' \<Rightarrow> Some (s', int (length [entry_of [1] [2] False]), Some (ErrCRCMismatch c crc)))"
    by (intro torn_record_hides_later_appends [OF _ _ torn _ _ _ _ _ \<open>\<not> w_closed w'\<close> data])
      (simp_all add: small Ext_def)
  with w run synced show ?thesis by blast
qed

text \<open>
  The length fields are used before the checksum is compared. When the lengths of a record
  are changed so that the record seems to reach beyond the end of the file, \<open>Recover\<close> takes it
  for a torn write at the end: it reports no error, and the record and every record behind it
  are gone.
\<close>

theorem damaged_length_is_silent:
  assumes "\<forall>e \<in> set es. entry_fits e" and "\<not> w_closed w"
    and "f_data (w_file w) = concat (map entry_bytes es)
      @ PutUint32 c @ PutUint32 keyLen @ PutUint32 valLen @ flag # later"
    and "length later < unat (keyLen + valLen)"
  shows "Recover True False True w = Ok es"
proof -
  let ?bad = "PutUint32 c @ PutUint32 keyLen @ PutUint32 valLen @ flag # later"
  have "reads (read_record False) (f_data (w_file w)) es ?bad"
    using wal.reads_all [OF assms(1)] by (simp add: assms(3))
  moreover have "read_record False ?bad = End"
    using assms(4) readFull_None [of "unat (keyLen + valLen)" later] by (simp add: read_record_header)
  ultimately show ?thesis
    using assms(2) by (simp add: Recover_def recover_loop_reads recover_loop_stop)
qed

theorem damaged_length_is_silent_witness:
  "\<exists>w. f_data (w_file w) = record_bytes [1] [2] False
      @ PutUint32 (ChecksumIEEE (payload [3] [4] False)) @ PutUint32 0x80000001 @ PutUint32 1
      @ 0 # [3, 4] @ record_bytes [5] [6] False
    \<and> Recover True False True w = Ok [entry_of [1] [2] False]"
proof -
  let ?later = "[3, 4] @ record_bytes [5] [6] False"
  define w where "w = \<lparr>w_opts = DefaultWALOptions ''d'',
    w_file = \<lparr>f_data = record_bytes [1] [2] False
      @ PutUint32 (ChecksumIEEE (payload [3] [4] False)) @ PutUint32 0x80000001 @ PutUint32 1
      @ 0 # ?later, f_synced = 0\<rparr>,
    w_closed = False, w_size = 0\<rparr>"
  have "Recover True False True w = Ok [entry_of [1] [2] False]"
    by (rule damaged_length_is_silent [where later = ?later and flag = 0
          and keyLen = "0x80000001" and valLen = 1])
      (simp_all add: w_def small_def)
  then show ?thesis by (intro exI [of _ w]) (simp add: w_def)
qed

text \<open>
  The sum of the two lengths is taken in 32 bits. A record whose lengths add up to \<open>2 ^ 32\<close>
  and whose checksum is right passes the check, and \<open>Recover\<close> and \<open>ReplayWAL\<close> then
  panic on the slice \<open>bodyBuf[:keyLen]\<close> instead of returning an error.
\<close>

theorem wrapped_length_panics:
  assumes "0 < keyLen" and "keyLen + valLen = 0" and "\<not> w_closed w"
    and "f_data (w_file w) =
      PutUint32 (ChecksumIEEE (PutUint32 keyLen @ PutUint32 valLen @ [flag]))
        @ PutUint32 keyLen @ PutUint32 valLen @ flag # later"
  shows "Recover True False True w = Panic
    \<and> replay_file applyFn False (f_data (w_file w)) s 0 = None"
proof -
  have "readFull 0 later = Some ([], later)"
    by (simp add: readFull_def)
  then have "read_record False (f_data (w_file w)) = Crash"
    using assms by (simp add: read_record_header)
  then show ?thesis
    using assms(3) by (simp add: Recover_def recover_loop_stop replay_file_stop)
qed

theorem wrapped_length_panics_witness:
  "\<exists>w. f_data (w_file w) = PutUint32 (ChecksumIEEE (PutUint32 0xFFFFFFFF @ PutUint32 1 @ [0]))
        @ PutUint32 0xFFFFFFFF @ PutUint32 1 @ 0 # []
    \<and> Recover True False True w = Panic"
proof -
  define w where "w = \<lparr>w_opts = DefaultWALOptions ''d'',
    w_file = \<lparr>f_data = PutUint32 (ChecksumIEEE (PutUint32 0xFFFFFFFF @ PutUint32 1 @ [0]))
        @ PutUint32 0xFFFFFFFF @ PutUint32 1 @ 0 # [], f_synced = 0\<rparr>,
    w_closed = False, w_size = 0\<rparr>"
  have "Recover True False True w = Panic
    \<and> replay_file (\<lambda>_ _ _. Some) False (f_data (w_file w)) () 0 = None"
    by (rule wrapped_length_panics [where keyLen = "0xFFFFFFFF" and valLen = 1]) (simp_all add: w_def)
  then show ?thesis by (intro exI [of _ w]) (simp add: w_def)
qed

end
