(* ===== verification/Soul.thy ===== *)
theory Soul
  imports KV_Prelude Complex_Main
begin

text \<open>
  The Soul MemTable, \<open>pkg/storage/memtable.go\<close>: a skip list of nodes that point to each
  other. Nodes live in a heap, a list indexed by address; a nil pointer is \<open>None\<close>. Every
  dereference and every index into a \<open>forward\<close> array is checked, so that a nil dereference or an
  index out of range is the result \<open>None\<close>, as is a walk that never ends. The random number
  generator is the stream of the values \<open>float32(rnd.Float64())\<close> it will still return.
\<close>

section \<open>Data\<close>

record Node =
  n_Key :: bytes
  n_Value :: bytes
  n_Tombstone :: bool
  n_forward :: "nat option list"

record MemTableOptions =
  MaxLevel :: int
  P :: rat
  FlushThreshold :: int

record MemTable =
  m_heap :: "Node list"
  m_head :: nat
  m_level :: nat
  m_sizeBytes :: int
  m_opts :: MemTableOptions
  m_rnd :: "nat \<Rightarrow> rat"

definition DefaultMemTableOptions :: MemTableOptions where
  "DefaultMemTableOptions = \<lparr>MaxLevel = 16, P = 1 / 4, FlushThreshold = 2 * 1024 * 1024\<rparr>"

definition NewMemTable :: "MemTableOptions \<Rightarrow> (nat \<Rightarrow> rat) \<Rightarrow> MemTable" where
  "NewMemTable opts rnd =
     (let opts1 = (if MaxLevel opts \<le> 0 then opts\<lparr>MaxLevel := 16\<rparr> else opts);
          opts2 = (if P opts1 \<le> 0 \<or> 1 \<le> P opts1 then opts1\<lparr>P := 1 / 4\<rparr> else opts1);
          opts3 = (if FlushThreshold opts2 \<le> 0 then opts2\<lparr>FlushThreshold := 2 * 1024 * 1024\<rparr>
                   else opts2)
      in \<lparr>m_heap = [\<lparr>n_Key = [], n_Value = [], n_Tombstone = False,
                     n_forward = replicate (nat (MaxLevel opts3)) None\<rparr>],
          m_head = 0, m_level = 1, m_sizeBytes = 0, m_opts = opts3, m_rnd = rnd\<rparr>)"

section \<open>Pointers\<close>

definition deref :: "Node list \<Rightarrow> nat \<Rightarrow> Node option" where
  "deref h a = (if a < length h then Some (h ! a) else None)"

text \<open>\<open>fwd h a i\<close> is \<open>a.forward[i]\<close>.\<close>

definition fwd :: "Node list \<Rightarrow> nat \<Rightarrow> nat \<Rightarrow> nat option option" where
  "fwd h a i =
     (case deref h a of
        None \<Rightarrow> None
      | Some nd \<Rightarrow> if i < length (n_forward nd) then Some (n_forward nd ! i) else None)"

definition set_fwd :: "Node list \<Rightarrow> nat \<Rightarrow> nat \<Rightarrow> nat option \<Rightarrow> Node list option" where
  "set_fwd h a i p =
     (case deref h a of
        None \<Rightarrow> None
      | Some nd \<Rightarrow>
          if i < length (n_forward nd) then Some (h[a := nd\<lparr>n_forward := (n_forward nd)[i := p]\<rparr>])
          else None)"

text \<open>A write to a Go slice of pointers: a panic when the index is out of range.\<close>

definition set_slot :: "nat option list \<Rightarrow> nat \<Rightarrow> nat \<Rightarrow> nat option list option" where
  "set_slot upd i a = (if i < length upd then Some (upd[i := Some a]) else None)"

section \<open>Searching\<close>

text \<open>
  The inner loop at level \<open>i\<close>: go right while the next key is smaller. On a cyclic list it
  would not return.
\<close>

partial_function (option) advance :: "Node list \<Rightarrow> bytes \<Rightarrow> nat \<Rightarrow> nat \<Rightarrow> nat option" where
  "advance h key i cur =
     (case fwd h cur i of
        None \<Rightarrow> None
      | Some None \<Rightarrow> Some cur
      | Some (Some next) \<Rightarrow>
          (case deref h next of
             None \<Rightarrow> None
           | Some nd \<Rightarrow>
               if bytes_Compare (n_Key nd) key < 0 then advance h key i next else Some cur))"

text \<open>The outer loop of \<open>Get\<close>, from level \<open>n - 1\<close> down to 0.\<close>

fun descend :: "Node list \<Rightarrow> bytes \<Rightarrow> nat \<Rightarrow> nat \<Rightarrow> nat option" where
  "descend h key 0 cur = Some cur"
| "descend h key (Suc i) cur =
     (case advance h key i cur of None \<Rightarrow> None | Some c \<Rightarrow> descend h key i c)"

text \<open>The outer loop of \<open>insert\<close>, which also records where it went down.\<close>

fun find_update ::
  "Node list \<Rightarrow> bytes \<Rightarrow> nat \<Rightarrow> nat \<Rightarrow> nat option list \<Rightarrow> (nat \<times> nat option list) option" where
  "find_update h key 0 cur upd = Some (cur, upd)"
| "find_update h key (Suc i) cur upd =
     (case advance h key i cur of
        None \<Rightarrow> None
      | Some c \<Rightarrow>
          (case set_slot upd i c of None \<Rightarrow> None | Some upd' \<Rightarrow> find_update h key i c upd'))"

definition Get :: "MemTable \<Rightarrow> bytes \<Rightarrow> (bytes \<times> bool \<times> bool) option" where
  "Get m key =
     (case descend (m_heap m) key (m_level m) (m_head m) of
        None \<Rightarrow> None
      | Some c \<Rightarrow>
          (case fwd (m_heap m) c 0 of
             None \<Rightarrow> None
           | Some None \<Rightarrow> Some ([], False, False)
           | Some (Some cur) \<Rightarrow>
               (case deref (m_heap m) cur of
                  None \<Rightarrow> None
                | Some nd \<Rightarrow>
                    if n_Key nd = key then Some (n_Value nd, n_Tombstone nd, True)
                    else Some ([], False, False))))"

section \<open>Inserting\<close>

text \<open>\<open>randomLevel\<close>: every turn of the loop draws before it looks at the level.\<close>

function randomLevel :: "(nat \<Rightarrow> rat) \<Rightarrow> rat \<Rightarrow> nat \<Rightarrow> nat \<Rightarrow> nat \<times> (nat \<Rightarrow> rat)" where
  "randomLevel rnd p maxl lvl =
     (let rnd' = (\<lambda>n. rnd (Suc n)) in
      if rnd 0 < p \<and> lvl < maxl then randomLevel rnd' p maxl (Suc lvl) else (lvl, rnd'))"
  by pat_completeness auto
termination
  by (relation "measure (\<lambda>(_, _, maxl, lvl). maxl - lvl)") auto

declare randomLevel.simps [simp del]

fun fill_slots :: "nat option list \<Rightarrow> nat list \<Rightarrow> nat \<Rightarrow> nat option list option" where
  "fill_slots upd [] a = Some upd"
| "fill_slots upd (i # is) a =
     (case set_slot upd i a of None \<Rightarrow> None | Some upd' \<Rightarrow> fill_slots upd' is a)"

text \<open>The loop that links the new node \<open>n\<close> in at the levels \<open>is\<close>.\<close>

fun splice :: "nat \<Rightarrow> nat option list \<Rightarrow> nat list \<Rightarrow> Node list \<Rightarrow> Node list option" where
  "splice n upd [] h = Some h"
| "splice n upd (i # is) h =
     (if i < length upd then
        (case upd ! i of
           None \<Rightarrow> None
         | Some u \<Rightarrow>
             (case fwd h u i of
                None \<Rightarrow> None
              | Some p \<Rightarrow>
                  (case set_fwd h n i p of
                     None \<Rightarrow> None
                   | Some h1 \<Rightarrow>
                       (case set_fwd h1 u i (Some n) of
                          None \<Rightarrow> None
                        | Some h2 \<Rightarrow> splice n upd is h2))))
      else None)"

definition insert_existing ::
  "MemTable \<Rightarrow> nat \<Rightarrow> Node \<Rightarrow> bytes \<Rightarrow> bytes \<Rightarrow> bool \<Rightarrow> MemTable" where
  "insert_existing m cur nd key value tombstone =
     (let oldSize = int (length (n_Key nd) + length (n_Value nd));
          newSize = int (length key + length value)
      in m\<lparr>m_heap := (m_heap m)[cur := nd\<lparr>n_Value := value, n_Tombstone := tombstone\<rparr>],
           m_sizeBytes := m_sizeBytes m + (newSize - oldSize)\<rparr>)"

definition insert_new ::
  "MemTable \<Rightarrow> nat option list \<Rightarrow> bytes \<Rightarrow> bytes \<Rightarrow> bool \<Rightarrow> MemTable option" where
  "insert_new m upd key value tombstone =
     (let (newLevel, rnd') = randomLevel (m_rnd m) (P (m_opts m)) (nat (MaxLevel (m_opts m))) 1;
          newNode = \<lparr>n_Key = key, n_Value = value, n_Tombstone = tombstone,
                     n_forward = replicate newLevel None\<rparr>;
          n = length (m_heap m)
      in case fill_slots upd [m_level m..<newLevel] (m_head m) of
           None \<Rightarrow> None
         | Some upd' \<Rightarrow>
             (case splice n upd' [0..<newLevel] (m_heap m @ [newNode]) of
                None \<Rightarrow> None
              | Some h \<Rightarrow>
                  Some (m\<lparr>m_heap := h, m_level := (if m_level m < newLevel then newLevel else m_level m),
                          m_sizeBytes := m_sizeBytes m + int (length key + length value),
                          m_rnd := rnd'\<rparr>)))"

definition mem_insert :: "MemTable \<Rightarrow> bytes \<Rightarrow> bytes \<Rightarrow> bool \<Rightarrow> (MemTable \<times> bool) option" where
  "mem_insert m key value tombstone =
     (case find_update (m_heap m) key (m_level m) (m_head m)
             (replicate (nat (MaxLevel (m_opts m))) None) of
        None \<Rightarrow> None
      | Some (c, upd) \<Rightarrow>
          (case fwd (m_heap m) c 0 of
             None \<Rightarrow> None
           | Some ptr \<Rightarrow>
               let full = (\<lambda>m'. (m', m_sizeBytes m' \<ge> FlushThreshold (m_opts m'))) in
               (case ptr of
                  None \<Rightarrow> map_option full (insert_new m upd key value tombstone)
                | Some cur \<Rightarrow>
                    (case deref (m_heap m) cur of
                       None \<Rightarrow> None
                     | Some nd \<Rightarrow>
                         if n_Key nd = key
                         then Some (full (insert_existing m cur nd key value tombstone))
                         else map_option full (insert_new m upd key value tombstone)))))"

definition Put :: "MemTable \<Rightarrow> bytes \<Rightarrow> bytes \<Rightarrow> (MemTable \<times> bool) option" where
  "Put m key value = mem_insert m key value False"

definition Delete :: "MemTable \<Rightarrow> bytes \<Rightarrow> (MemTable \<times> bool) option" where
  "Delete m key = mem_insert m key [] True"

definition SizeBytes :: "MemTable \<Rightarrow> int" where
  "SizeBytes m = m_sizeBytes m"

definition IsFull :: "MemTable \<Rightarrow> bool" where
  "IsFull m \<longleftrightarrow> m_sizeBytes m \<ge> FlushThreshold (m_opts m)"

section \<open>Iterating\<close>

text \<open>
  An iterator is the address it stands on. \<open>HasNext\<close> and \<open>Next\<close> read the heap; \<open>Next\<close> at
  the end returns a nil node and leaves the iterator where it is.
\<close>

definition Iterator :: "MemTable \<Rightarrow> nat option" where
  "Iterator m = Some (m_head m)"

definition HasNext :: "Node list \<Rightarrow> nat option \<Rightarrow> bool option" where
  "HasNext h it =
     (case it of None \<Rightarrow> Some False | Some a \<Rightarrow> map_option (\<lambda>p. p \<noteq> None) (fwd h a 0))"

definition Next :: "Node list \<Rightarrow> nat option \<Rightarrow> (nat option \<times> Node option) option" where
  "Next h it =
     (case HasNext h it of
        None \<Rightarrow> None
      | Some False \<Rightarrow> Some (it, None)
      | Some True \<Rightarrow>
          (case fwd h (the it) 0 of
             None \<Rightarrow> None
           | Some p \<Rightarrow> Some (p, case p of None \<Rightarrow> None | Some a \<Rightarrow> deref h a)))"

text \<open>The nodes a loop \<open>for it.HasNext() { node := it.Next() ... }\<close> sees.\<close>

partial_function (option) iterate :: "Node list \<Rightarrow> nat option \<Rightarrow> Node list option" where
  "iterate h it =
     (case HasNext h it of
        None \<Rightarrow> None
      | Some hasNext \<Rightarrow>
          if hasNext then
            (case Next h it of
               None \<Rightarrow> None
             | Some (it', None) \<Rightarrow> None
             | Some (it', Some nd) \<Rightarrow> Option.bind (iterate h it') (\<lambda>nds. Some (nd # nds)))
          else Some [])"

section \<open>The well-formed skip list\<close>

abbreviation key_at :: "Node list \<Rightarrow> nat \<Rightarrow> bytes" where
  "key_at h a \<equiv> n_Key (h ! a)"

abbreviation height :: "Node list \<Rightarrow> nat \<Rightarrow> nat" where
  "height h a \<equiv> length (n_forward (h ! a))"

abbreviation max_level :: "MemTable \<Rightarrow> nat" where
  "max_level m \<equiv> nat (MaxLevel (m_opts m))"

text \<open>\<open>seg h i a bs\<close>: the pointers of level \<open>i\<close> lead from \<open>a\<close> through \<open>bs\<close> to nil.\<close>

primrec seg :: "Node list \<Rightarrow> nat \<Rightarrow> nat \<Rightarrow> nat list \<Rightarrow> bool" where
  "seg h i a [] \<longleftrightarrow> fwd h a i = Some None"
| "seg h i a (b # bs) \<longleftrightarrow> fwd h a i = Some (Some b) \<and> seg h i b bs"

definition node_size :: "Node \<Rightarrow> int" where
  "node_size nd = int (length (n_Key nd) + length (n_Value nd))"

text \<open>
  \<open>linked m as\<close>: the nodes other than the head are \<open>as\<close> in strictly ascending order of
  their keys, each level links the nodes that are high enough, and the size is the sum of the
  lengths of the keys and values.
\<close>

definition linked :: "MemTable \<Rightarrow> nat list \<Rightarrow> bool" where
  "linked m as \<longleftrightarrow>
     m_head m < length (m_heap m) \<and> m_head m \<notin> set as \<and> distinct as
     \<and> (\<forall>a \<in> set as. a < length (m_heap m) \<and> 1 \<le> height (m_heap m) a
           \<and> height (m_heap m) a \<le> m_level m)
     \<and> sorted_wrt (<) (map (key_at (m_heap m)) as)
     \<and> height (m_heap m) (m_head m) = max_level m \<and> 1 \<le> m_level m \<and> m_level m \<le> max_level m
     \<and> (\<forall>i < max_level m.
           seg (m_heap m) i (m_head m) (filter (\<lambda>a. i < height (m_heap m) a) as))
     \<and> m_sizeBytes m = sum_list (map (\<lambda>a. node_size (m_heap m ! a)) as)"

definition mem_inv :: "MemTable \<Rightarrow> bool" where
  "mem_inv m \<longleftrightarrow> (\<exists>as. linked m as)"

abbreviation node_entry :: "Node \<Rightarrow> bytes \<times> bytes \<times> bool" where
  "node_entry nd \<equiv> (n_Key nd, n_Value nd, n_Tombstone nd)"

text \<open>What the table holds: the entries an iteration sees, and the map they represent.\<close>

definition contents :: "MemTable \<Rightarrow> (bytes \<times> bytes \<times> bool) list" where
  "contents m =
     (case iterate (m_heap m) (Iterator m) of None \<Rightarrow> [] | Some nds \<Rightarrow> map node_entry nds)"

definition mem_view :: "MemTable \<Rightarrow> bytes \<Rightarrow> (bytes \<times> bool) option" where
  "mem_view m = map_of (contents m)"

section \<open>Pointers and segments\<close>

lemma fwd_Some: "fwd h a i = Some p \<longleftrightarrow> a < length h \<and> i < height h a \<and> p = n_forward (h ! a) ! i"
  by (auto simp: fwd_def deref_def split: if_splits)

lemma deref_eq [simp]: "a < length h \<Longrightarrow> deref h a = Some (h ! a)"
  by (simp add: deref_def)

lemma seg_append: "seg h i a (xs @ ys) \<Longrightarrow> seg h i (last (a # xs)) ys"
  by (induction xs arbitrary: a) auto

lemma seg_cong: "(\<And>b. b \<in> insert a (set bs) \<Longrightarrow> fwd h' b i = fwd h b i) \<Longrightarrow> seg h' i a bs = seg h i a bs"
  by (induction bs arbitrary: a) auto

lemma seg_insert:
  assumes "seg h i a (xs @ ys)" "distinct (a # xs @ ys)" "n \<notin> set (a # xs @ ys)"
    and "\<And>b. fwd h' b i = (if b = n then fwd h (last (a # xs)) i
      else if b = last (a # xs) then Some (Some n) else fwd h b i)"
  shows "seg h' i a (xs @ n # ys)"
  using assms
proof (induction xs arbitrary: a)
  case Nil
  have "seg h' i n ys"
  proof (cases ys)
    case Nil
    with Nil.prems(1) Nil.prems(4) [of n] show ?thesis by simp
  next
    case (Cons y ys')
    have "seg h' i y ys' = seg h i y ys'"
      using Nil.prems Cons by (intro seg_cong) auto
    with Nil.prems Cons show ?thesis by simp
  qed
  with Nil.prems show ?case by simp
next
  case (Cons x xs)
  have last: "last (x # xs) = last (a # x # xs)" by simp
  have "last (a # x # xs) \<noteq> a" using Cons.prems(2) by auto
  moreover have "seg h' i x (xs @ n # ys)"
    using Cons.prems by (intro Cons.IH) (auto simp: last)
  ultimately show ?case using Cons.prems by auto
qed

lemma advance_seg:
  assumes "seg h i a bs" "\<forall>b \<in> set bs. b < length h"
  shows "advance h key i a = Some (last (a # takeWhile (\<lambda>b. key_at h b < key) bs))"
  using assms
proof (induction bs arbitrary: a)
  case Nil
  then show ?case by (simp add: advance.simps)
next
  case (Cons b bs)
  then show ?case by (subst advance.simps) auto
qed

lemma linked_node:
  assumes "linked m as" "a \<in> set as"
  shows "a < length (m_heap m)" "0 < height (m_heap m) a" "height (m_heap m) a \<le> m_level m"
  using assms by (auto simp: linked_def Suc_le_eq)

lemma linked_level: "linked m as \<Longrightarrow> 0 < m_level m \<and> m_level m \<le> max_level m"
  by (auto simp: linked_def)

lemma linked_seg:
  "linked m as \<Longrightarrow> i < max_level m \<Longrightarrow>
   seg (m_heap m) i (m_head m) (filter (\<lambda>a. i < height (m_heap m) a) as)"
  by (simp add: linked_def)

section \<open>The search\<close>

text \<open>
  Below, \<open>as = lt @ ge\<close> splits the nodes at the key; \<open>pred_at h start lt i\<close> is the last node of
  level \<open>i\<close> before the key.
\<close>

definition pred_at :: "Node list \<Rightarrow> nat \<Rightarrow> nat list \<Rightarrow> nat \<Rightarrow> nat" where
  "pred_at h start lt i = last (start # filter (\<lambda>a. i < height h a) lt)"

lemma linked_split:
  assumes "linked m as"
  obtains lt ge where "as = lt @ ge" "\<forall>a \<in> set lt. key_at (m_heap m) a < key"
    "\<forall>a \<in> set ge. key \<le> key_at (m_heap m) a"
proof
  let ?P = "\<lambda>a. key_at (m_heap m) a < key"
  show "as = takeWhile ?P as @ dropWhile ?P as" by simp
  show "\<forall>a \<in> set (takeWhile ?P as). ?P a" by (auto dest: set_takeWhileD)
  have "sorted_wrt (<) (map (key_at (m_heap m)) as)" using assms by (simp add: linked_def)
  then show "\<forall>a \<in> set (dropWhile ?P as). key \<le> key_at (m_heap m) a"
    by (induction as) (auto simp: not_less intro: order.trans less_imp_le)
qed

lemma advance_pred:
  assumes "linked m (lt @ ge)" "i < max_level m"
    and "\<forall>a \<in> set lt. key_at (m_heap m) a < key" "\<forall>a \<in> set ge. key \<le> key_at (m_heap m) a"
  shows "advance (m_heap m) key i (pred_at (m_heap m) (m_head m) lt (Suc i))
    = Some (pred_at (m_heap m) (m_head m) lt i)"
proof -
  let ?h = "m_heap m" and ?f = "filter (\<lambda>a. i < height (m_heap m) a)"
  let ?c = "pred_at ?h (m_head m) lt (Suc i)"
  have sg: "seg ?h i (m_head m) (?f lt @ ?f ge)"
    using linked_seg [OF assms(1,2)] by simp
  obtain xs w where xw: "?f lt = xs @ w" "last (m_head m # xs) = ?c"
  proof (cases "filter (\<lambda>a. Suc i < height ?h a) lt = []")
    case True
    then show ?thesis by (intro that [of "[]" "?f lt"]) (auto simp: pred_at_def)
  next
    case False
    then have "?c \<in> set (filter (\<lambda>a. Suc i < height ?h a) lt)"
      using last_in_set [OF False] unfolding pred_at_def by (metis last_ConsR)
    then have "?c \<in> set (?f lt)" by auto
    then obtain xs w where "?f lt = xs @ ?c # w" by (meson split_list)
    then show ?thesis by (intro that [of "xs @ [?c]" w]) auto
  qed
  have "seg ?h i ?c (w @ ?f ge)"
    using sg seg_append [of ?h i "m_head m" xs "w @ ?f ge"] xw by simp
  moreover have "\<forall>b \<in> set (w @ ?f ge). b < length ?h"
    using linked_node(1) [OF assms(1)] arg_cong [OF xw(1), of set] by auto
  ultimately have "advance ?h key i ?c = Some (last (?c # takeWhile (\<lambda>b. key_at ?h b < key) (w @ ?f ge)))"
    by (rule advance_seg)
  also have "takeWhile (\<lambda>b. key_at ?h b < key) (w @ ?f ge) = w"
  proof -
    have "\<forall>b \<in> set w. key_at ?h b < key"
      using assms(3) arg_cong [OF xw(1), of set] by auto
    moreover have "\<forall>b \<in> set (?f ge). \<not> key_at ?h b < key"
      using assms(4) by (auto simp: not_less)
    then have "takeWhile (\<lambda>b. key_at ?h b < key) (?f ge) = []"
      by (cases "?f ge") (auto simp del: filter_eq_Cons_iff)
    ultimately show ?thesis by (simp add: takeWhile_append2)
  qed
  also have "last (?c # w) = pred_at ?h (m_head m) lt i"
    using xw by (auto simp: pred_at_def)
  finally show ?thesis .
qed

lemma pred_at_top:
  "linked m (lt @ ge) \<Longrightarrow> m_level m \<le> i \<Longrightarrow> pred_at (m_heap m) (m_head m) lt i = m_head m"
  using linked_node(3) by (auto simp: pred_at_def filter_empty_conv intro!: last_ConsL) fastforce

lemma descend_pred:
  assumes "linked m (lt @ ge)" "n \<le> max_level m"
    and "\<forall>a \<in> set lt. key_at (m_heap m) a < key" "\<forall>a \<in> set ge. key \<le> key_at (m_heap m) a"
  shows "descend (m_heap m) key n (pred_at (m_heap m) (m_head m) lt n)
    = Some (pred_at (m_heap m) (m_head m) lt 0)"
  using assms(2) by (induction n) (auto simp: advance_pred [OF assms(1) _ assms(3,4)])

lemma find_update_pred:
  assumes "linked m (lt @ ge)" "n \<le> max_level m" "length upd = max_level m"
    and "\<forall>a \<in> set lt. key_at (m_heap m) a < key" "\<forall>a \<in> set ge. key \<le> key_at (m_heap m) a"
  shows "\<exists>upd'. find_update (m_heap m) key n (pred_at (m_heap m) (m_head m) lt n) upd
      = Some (pred_at (m_heap m) (m_head m) lt 0, upd')
    \<and> length upd' = max_level m
    \<and> (\<forall>i < n. upd' ! i = Some (pred_at (m_heap m) (m_head m) lt i))
    \<and> (\<forall>i < max_level m. n \<le> i \<longrightarrow> upd' ! i = upd ! i)"
  using assms(2,3)
proof (induction n arbitrary: upd)
  case (Suc n)
  let ?p = "pred_at (m_heap m) (m_head m) lt"
  let ?u = "upd[n := Some (?p n)]"
  from Suc.IH [of ?u] Suc.prems obtain upd' where
    "find_update (m_heap m) key n (?p n) ?u = Some (?p 0, upd')" "length upd' = max_level m"
    "\<forall>i < n. upd' ! i = Some (?p i)" "\<forall>i < max_level m. n \<le> i \<longrightarrow> upd' ! i = ?u ! i"
    by auto
  moreover have "\<forall>i < Suc n. upd' ! i = Some (?p i)"
    using calculation(3,4) Suc.prems by (auto simp: less_Suc_eq)
  ultimately show ?case
    using Suc.prems advance_pred [OF assms(1) _ assms(4,5), of n]
    by (auto simp: set_slot_def)
qed simp

lemma linked_bottom: "linked m as \<Longrightarrow> seg (m_heap m) 0 (m_head m) as"
proof -
  assume l: "linked m as"
  then have "filter (\<lambda>a. 0 < height (m_heap m) a) as = as"
    using linked_node(2) by (simp add: filter_id_conv)
  moreover have "0 < max_level m" using linked_level [OF l] by linarith
  ultimately show ?thesis using linked_seg [OF l, of 0] by simp
qed

lemma fwd_pred_bottom:
  assumes "linked m (lt @ ge)"
  shows "fwd (m_heap m) (pred_at (m_heap m) (m_head m) lt 0) 0
    = Some (case ge of [] \<Rightarrow> None | a # _ \<Rightarrow> Some a)"
proof -
  have "filter (\<lambda>a. 0 < height (m_heap m) a) lt = lt"
    using linked_node(2) [OF assms] by (simp add: filter_id_conv)
  then have "seg (m_heap m) 0 (pred_at (m_heap m) (m_head m) lt 0) ge"
    using seg_append [OF linked_bottom [OF assms]] by (simp add: pred_at_def)
  then show ?thesis by (cases ge) auto
qed

abbreviation entries :: "Node list \<Rightarrow> nat list \<Rightarrow> (bytes \<times> bytes \<times> bool) list" where
  "entries h as \<equiv> map (\<lambda>a. node_entry (h ! a)) as"

lemma iterate_seg:
  assumes "seg h 0 a bs" "\<forall>b \<in> set bs. b < length h"
  shows "iterate h (Some a) = Some (map ((!) h) bs)"
  using assms
proof (induction bs arbitrary: a)
  case Nil
  then show ?case by (subst iterate.simps) (simp add: HasNext_def)
next
  case (Cons b bs)
  then show ?case by (subst iterate.simps) (simp add: HasNext_def Next_def)
qed

lemma contents_linked: "linked m as \<Longrightarrow> contents m = entries (m_heap m) as"
  using iterate_seg [OF linked_bottom, of m as]
  by (simp add: contents_def Iterator_def comp_def linked_def)

lemma linked_sorted: "linked m as \<Longrightarrow> sorted_keys (entries (m_heap m) as)"
  by (simp add: linked_def comp_def)

lemma map_of_split:
  assumes "\<forall>p \<in> set ls. fst p < k" and "\<forall>p \<in> set gs. k \<le> fst p" and "sorted_keys gs"
  shows "map_of (ls @ gs) k = (case gs of [] \<Rightarrow> None | (a, b) # _ \<Rightarrow> if a = k then Some b else None)"
proof -
  have "map_of ls k = None" using assms(1) by (auto simp: map_of_eq_None_iff)
  moreover have "map_of gs k = (case gs of [] \<Rightarrow> None | (a, b) # _ \<Rightarrow> if a = k then Some b else None)"
    using assms(2,3) by (cases gs) (force simp: map_of_eq_None_iff)+
  ultimately show ?thesis by (simp add: map_add_def)
qed

lemma Get_linked:
  assumes "linked m as"
  shows "Get m key =
    Some (case map_of (entries (m_heap m) as) key of None \<Rightarrow> ([], False, False) | Some (v, t) \<Rightarrow> (v, t, True))"
proof -
  obtain lt ge where sp: "as = lt @ ge" "\<forall>a \<in> set lt. key_at (m_heap m) a < key"
    "\<forall>a \<in> set ge. key \<le> key_at (m_heap m) a"
    using linked_split [OF assms] by blast
  have l: "linked m (lt @ ge)" using assms sp(1) by simp
  then have lvl: "m_level m \<le> max_level m" by (simp add: linked_def)
  have top: "pred_at (m_heap m) (m_head m) lt (m_level m) = m_head m"
    by (rule pred_at_top [OF l]) simp
  have look: "map_of (entries (m_heap m) as) key
      = (case entries (m_heap m) ge of [] \<Rightarrow> None | (a, b) # _ \<Rightarrow> if a = key then Some b else None)"
    using sp linked_sorted [OF assms] unfolding sp(1) map_append
    by (intro map_of_split) (auto simp: sorted_wrt_append)
  have valid: "\<forall>a \<in> set ge. a < length (m_heap m)" using l by (auto simp: linked_def)
  show ?thesis
    unfolding Get_def look
    using descend_pred [OF l lvl sp(2,3)] fwd_pred_bottom [OF l] valid
    by (cases ge) (auto simp: top)
qed

section \<open>Linking a node in\<close>

text \<open>\<open>same_nodes h h'\<close>: the heaps differ in pointers only.\<close>

definition same_nodes :: "Node list \<Rightarrow> Node list \<Rightarrow> bool" where
  "same_nodes h h' \<longleftrightarrow> length h' = length h
     \<and> (\<forall>a < length h. node_entry (h' ! a) = node_entry (h ! a) \<and> height h' a = height h a)"

lemma same_nodes_trans: "same_nodes h h' \<Longrightarrow> same_nodes h' h'' \<Longrightarrow> same_nodes h h''"
  by (auto simp: same_nodes_def)

lemma set_fwd_ok:
  assumes "a < length h" "i < height h a"
  obtains h' where "set_fwd h a i p = Some h'" "same_nodes h h'"
    "\<And>b j. fwd h' b j = (if b = a \<and> j = i then Some p else fwd h b j)"
proof
  let ?h = "h[a := (h ! a)\<lparr>n_forward := (n_forward (h ! a))[i := p]\<rparr>]"
  show "set_fwd h a i p = Some ?h" using assms by (simp add: set_fwd_def)
  show "same_nodes h ?h" using assms by (auto simp: same_nodes_def nth_list_update)
  show "fwd ?h b j = (if b = a \<and> j = i then Some p else fwd h b j)" for b j
    using assms by (auto simp: fwd_def deref_def nth_list_update)
qed

lemma splice_ok:
  assumes "distinct is" "n < length h"
    and "\<forall>i \<in> set is. i < length upd \<and> upd ! i = Some (p i) \<and> p i < length h \<and> p i \<noteq> n
      \<and> i < height h (p i) \<and> i < height h n"
  shows "\<exists>h'. splice n upd is h = Some h' \<and> same_nodes h h'
    \<and> (\<forall>b j. fwd h' b j = (if j \<notin> set is then fwd h b j else if b = n then fwd h (p j) j
         else if b = p j then Some (Some n) else fwd h b j))"
  using assms
proof (induction "is" arbitrary: h)
  case Nil
  then show ?case by (simp add: same_nodes_def)
next
  case (Cons i "is")
  then have i: "i < length upd" "upd ! i = Some (p i)" "p i < length h" "p i \<noteq> n"
    "i < height h (p i)" "i < height h n" "i \<notin> set is" by auto
  then obtain q where q: "fwd h (p i) i = Some q" by (auto simp: fwd_def)
  obtain h1 where h1: "set_fwd h n i q = Some h1" "same_nodes h h1"
    "\<And>b j. fwd h1 b j = (if b = n \<and> j = i then Some q else fwd h b j)"
    using set_fwd_ok [OF Cons.prems(2) i(6)] by blast
  have "p i < length h1" "i < height h1 (p i)" using h1(2) i by (auto simp: same_nodes_def)
  then obtain h2 where h2: "set_fwd h1 (p i) i (Some n) = Some h2" "same_nodes h1 h2"
    "\<And>b j. fwd h2 b j = (if b = p i \<and> j = i then Some (Some n) else fwd h1 b j)"
    using set_fwd_ok by blast
  have s: "same_nodes h h2" using h1(2) h2(2) by (rule same_nodes_trans)
  then have "\<exists>h'. splice n upd is h2 = Some h' \<and> same_nodes h2 h'
    \<and> (\<forall>b j. fwd h' b j = (if j \<notin> set is then fwd h2 b j else if b = n then fwd h2 (p j) j
         else if b = p j then Some (Some n) else fwd h2 b j))"
    using Cons.prems by (intro Cons.IH) (auto simp: same_nodes_def)
  then obtain h' where h': "splice n upd is h2 = Some h'" "same_nodes h2 h'"
    "\<And>b j. fwd h' b j = (if j \<notin> set is then fwd h2 b j else if b = n then fwd h2 (p j) j
         else if b = p j then Some (Some n) else fwd h2 b j)"
    by blast
  have "splice n upd (i # is) h = Some h'" using i q h1(1) h2(1) h'(1) by simp
  moreover have "same_nodes h h'" using s h'(2) by (rule same_nodes_trans)
  moreover have "\<forall>b j. fwd h' b j = (if j \<notin> set (i # is) then fwd h b j
       else if b = n then fwd h (p j) j else if b = p j then Some (Some n) else fwd h b j)"
    using i q h1(3) h2(3) h'(3) by auto
  ultimately show ?case by blast
qed

lemma fill_slots_ok:
  assumes "\<forall>i \<in> set is. i < length upd"
  shows "\<exists>upd'. fill_slots upd is a = Some upd' \<and> length upd' = length upd
    \<and> (\<forall>i < length upd. upd' ! i = (if i \<in> set is then Some a else upd ! i))"
  using assms
proof (induction "is" arbitrary: upd)
  case (Cons i "is")
  from Cons.IH [of "upd[i := Some a]"] Cons.prems obtain upd' where
    "fill_slots (upd[i := Some a]) is a = Some upd'" "length upd' = length upd"
    "\<forall>j < length upd. upd' ! j = (if j \<in> set is then Some a else upd[i := Some a] ! j)" by auto
  with Cons.prems show ?case by (auto simp: set_slot_def nth_list_update)
qed simp

lemma randomLevel_bounds:
  assumes "lvl \<le> maxl" "randomLevel rnd p maxl lvl = (l, rnd')"
  shows "lvl \<le> l \<and> l \<le> maxl"
  using assms
proof (induction rnd p maxl lvl rule: randomLevel.induct)
  case (1 rnd p maxl lvl)
  then show ?case
    by (cases "rnd 0 < p \<and> lvl < maxl") (auto simp: randomLevel.simps [of rnd p maxl lvl])
qed

lemma pred_at_in: "pred_at h start lt i \<in> insert start (set lt)"
proof -
  have "last (start # filter (\<lambda>a. i < height h a) lt) \<in> set (start # filter (\<lambda>a. i < height h a) lt)"
    by (rule last_in_set) simp
  then show ?thesis by (auto simp: pred_at_def)
qed

lemma pred_at_height:
  assumes "linked m (lt @ ge)" "i < max_level m"
  shows "i < height (m_heap m) (pred_at (m_heap m) (m_head m) lt i)"
proof (cases "filter (\<lambda>a. i < height (m_heap m) a) lt = []")
  case True
  then show ?thesis using assms by (simp add: pred_at_def linked_def)
next
  case False
  from last_in_set [OF this] show ?thesis by (simp add: pred_at_def False)
qed

lemma filter_height_cong:
  assumes "\<forall>a \<in> set as. height h' a = height h a"
  shows "filter (\<lambda>a. i < height h' a) as = filter (\<lambda>a. i < height h a) as"
  using assms by (intro filter_cong) auto

text \<open>
  The heap \<open>h'\<close> after the new node was allocated at the end of the heap and linked in at the
  levels below its height, every one behind its predecessor there.
\<close>

definition spliced :: "MemTable \<Rightarrow> nat list \<Rightarrow> Node \<Rightarrow> Node list \<Rightarrow> bool" where
  "spliced m lt nd h' \<longleftrightarrow>
     same_nodes (m_heap m @ [nd]) h'
     \<and> (\<forall>b j. fwd h' b j =
          (if length (n_forward nd) \<le> j then fwd (m_heap m @ [nd]) b j
           else if b = length (m_heap m) then fwd (m_heap m) (pred_at (m_heap m) (m_head m) lt j) j
           else if b = pred_at (m_heap m) (m_head m) lt j then Some (Some (length (m_heap m)))
           else fwd (m_heap m) b j))"

lemma spliced_node:
  assumes "spliced m lt nd h'" "a < length (m_heap m)"
  shows "node_entry (h' ! a) = node_entry (m_heap m ! a)" "height h' a = height (m_heap m) a"
  using assms by (auto simp: spliced_def same_nodes_def nth_append)

lemma spliced_new:
  assumes "spliced m lt nd h'"
  shows "node_entry (h' ! length (m_heap m)) = node_entry nd"
    "height h' (length (m_heap m)) = length (n_forward nd)"
    "length h' = Suc (length (m_heap m))"
  using assms by (auto simp: spliced_def same_nodes_def nth_append)

lemma fwd_snoc: "a < length h \<Longrightarrow> fwd (h @ [nd]) a i = fwd h a i"
  by (simp add: fwd_def deref_def nth_append)

lemma spliced_seg:
  assumes l: "linked m (lt @ ge)" and s: "spliced m lt nd h'" and i: "i < max_level m"
  shows "seg h' i (m_head m) (filter (\<lambda>a. i < height h' a) (lt @ length (m_heap m) # ge))"
proof -
  let ?n = "length (m_heap m)" and ?f = "filter (\<lambda>a. i < height (m_heap m) a)"
  have dom: "\<forall>a \<in> set (m_head m # lt @ ge). a < ?n" using l by (auto simp: linked_def)
  have f: "filter (\<lambda>a. i < height h' a) lt = ?f lt" "filter (\<lambda>a. i < height h' a) ge = ?f ge"
    using dom spliced_node(2) [OF s] by (auto intro!: filter_height_cong)
  have sg: "seg (m_heap m) i (m_head m) (?f lt @ ?f ge)" using linked_seg [OF l i] by simp
  show ?thesis
  proof (cases "i < length (n_forward nd)")
    case True
    have "seg h' i (m_head m) (?f lt @ ?n # ?f ge)"
    proof (rule seg_insert [OF sg])
      show "distinct (m_head m # ?f lt @ ?f ge)" using l by (auto simp: linked_def)
      show "?n \<notin> set (m_head m # ?f lt @ ?f ge)" using dom by auto
      show "fwd h' b i = (if b = ?n then fwd (m_heap m) (last (m_head m # ?f lt)) i
        else if b = last (m_head m # ?f lt) then Some (Some ?n) else fwd (m_heap m) b i)" for b
        using s True by (simp add: spliced_def pred_at_def)
    qed
    then show ?thesis using True f spliced_new(2) [OF s] by simp
  next
    case False
    have "seg h' i (m_head m) (?f lt @ ?f ge) = seg (m_heap m) i (m_head m) (?f lt @ ?f ge)"
      using False s dom by (intro seg_cong) (auto simp: spliced_def fwd_snoc)
    then show ?thesis using False f spliced_new(2) [OF s] sg by simp
  qed
qed

lemma spliced_entries:
  assumes "linked m (lt @ ge)" "spliced m lt nd h'"
  shows "entries h' (lt @ length (m_heap m) # ge)
    = entries (m_heap m) lt @ node_entry nd # entries (m_heap m) ge"
  using linked_node(1) [OF assms(1)] spliced_node(1) [OF assms(2)] spliced_new(1) [OF assms(2)] by auto

lemma node_size_entry: "node_entry nd = node_entry nd' \<Longrightarrow> node_size nd = node_size nd'"
  by (simp add: node_size_def)

lemma spliced_linked:
  assumes l: "linked m (lt @ ge)" and s: "spliced m lt nd h'"
    and lt: "\<forall>a \<in> set lt. key_at (m_heap m) a < n_Key nd"
    and ge: "\<forall>a \<in> set ge. n_Key nd < key_at (m_heap m) a"
    and h: "1 \<le> length (n_forward nd)" "length (n_forward nd) \<le> max_level m"
  shows "linked (m\<lparr>m_heap := h', m_level := max (m_level m) (length (n_forward nd)),
      m_sizeBytes := m_sizeBytes m + node_size nd, m_rnd := rnd'\<rparr>) (lt @ length (m_heap m) # ge)"
proof -
  let ?n = "length (m_heap m)"
  have dom: "\<forall>a \<in> set (m_head m # lt @ ge). a < ?n" using l by (auto simp: linked_def)
  note old = spliced_node [OF s] and new = spliced_new [OF s]
  have keys: "map (key_at h') (lt @ ?n # ge)
      = map (key_at (m_heap m)) lt @ n_Key nd # map (key_at (m_heap m)) ge"
    using dom old(1) new(1) by auto
  have sizes: "map (\<lambda>a. node_size (h' ! a)) (lt @ ?n # ge)
      = map (\<lambda>a. node_size (m_heap m ! a)) lt @ node_size nd # map (\<lambda>a. node_size (m_heap m ! a)) ge"
    using dom old(1) new(1) by (auto intro!: node_size_entry)
  have "sorted_wrt (<) (map (key_at h') (lt @ ?n # ge))"
    unfolding keys using l lt ge by (auto simp: linked_def sorted_wrt_append sorted_wrt_map)
  moreover have "m_sizeBytes m + node_size nd = sum_list (map (\<lambda>a. node_size (h' ! a)) (lt @ ?n # ge))"
    unfolding sizes using l by (simp add: linked_def)
  moreover have "\<forall>a \<in> set (lt @ ?n # ge). a < length h' \<and> 1 \<le> height h' a
      \<and> height h' a \<le> max (m_level m) (length (n_forward nd))"
    using linked_node [OF l] old(2) new(2,3) h by (fastforce simp: Suc_le_eq)
  moreover have "height h' (m_head m) = max_level m" using l old(2) by (simp add: linked_def)
  moreover have "m_head m < length h'" "m_head m \<notin> set (lt @ ?n # ge)" "distinct (lt @ ?n # ge)"
    using l dom new(3) by (auto simp: linked_def)
  moreover have "1 \<le> m_level m" "m_level m \<le> max_level m" using l by (simp_all add: linked_def)
  ultimately show ?thesis
    using spliced_seg [OF l s] h by (simp add: linked_def)
qed

lemma insert_new_ok:
  assumes l: "linked m (lt @ ge)"
    and lt: "\<forall>a \<in> set lt. key_at (m_heap m) a < key" and ge: "\<forall>a \<in> set ge. key < key_at (m_heap m) a"
    and upd: "length upd = max_level m"
      "\<forall>i < m_level m. upd ! i = Some (pred_at (m_heap m) (m_head m) lt i)"
  shows "\<exists>m' as. insert_new m upd key value tomb = Some m' \<and> linked m' as \<and> m_opts m' = m_opts m
    \<and> entries (m_heap m') as = entries (m_heap m) lt @ (key, value, tomb) # entries (m_heap m) ge"
proof -
  let ?n = "length (m_heap m)" and ?p = "pred_at (m_heap m) (m_head m) lt"
  obtain lvl rnd' where lvl: "randomLevel (m_rnd m) (P (m_opts m)) (max_level m) 1 = (lvl, rnd')"
    by (cases "randomLevel (m_rnd m) (P (m_opts m)) (max_level m) 1") auto
  have b: "1 \<le> lvl" "lvl \<le> max_level m"
    using randomLevel_bounds [OF _ lvl] linked_level [OF l] by auto
  let ?nd = "\<lparr>n_Key = key, n_Value = value, n_Tombstone = tomb, n_forward = replicate lvl None\<rparr>"
  let ?h = "m_heap m @ [?nd]"
  obtain upd' where u: "fill_slots upd [m_level m..<lvl] (m_head m) = Some upd'"
    "length upd' = max_level m"
    "\<forall>i < max_level m. upd' ! i = (if i \<in> set [m_level m..<lvl] then Some (m_head m) else upd ! i)"
    using fill_slots_ok [of "[m_level m..<lvl]" upd "m_head m"] upd(1) b by auto
  have slot: "upd' ! i = Some (?p i)" if "i < lvl" for i
    using that u(3) upd(2) b pred_at_top [OF l, of i] by auto
  have p: "?p i < ?n" "?p i \<noteq> ?n" for i
    using pred_at_in [of "m_heap m" "m_head m" lt i] l by (auto simp: linked_def)
  have "\<exists>h'. splice ?n upd' [0..<lvl] ?h = Some h' \<and> same_nodes ?h h'
    \<and> (\<forall>b j. fwd h' b j = (if j \<notin> set [0..<lvl] then fwd ?h b j else if b = ?n then fwd ?h (?p j) j
         else if b = ?p j then Some (Some ?n) else fwd ?h b j))"
    using slot u(2) b p pred_at_height [OF l] by (intro splice_ok) (auto simp: nth_append less_Suc_eq)
  then obtain h' where h': "splice ?n upd' [0..<lvl] ?h = Some h'" "same_nodes ?h h'"
    "\<And>b j. fwd h' b j = (if j \<notin> set [0..<lvl] then fwd ?h b j else if b = ?n then fwd ?h (?p j) j
         else if b = ?p j then Some (Some ?n) else fwd ?h b j)" by blast
  have out: "fwd ?h b j = fwd (m_heap m) b j" if "b \<noteq> ?n" for b j
    using that by (auto simp: fwd_def deref_def nth_append)
  have s: "spliced m lt ?nd h'"
    using h'(2,3) p by (auto simp: spliced_def out)
  let ?m = "m\<lparr>m_heap := h', m_level := max (m_level m) lvl,
      m_sizeBytes := m_sizeBytes m + node_size ?nd, m_rnd := rnd'\<rparr>"
  have "insert_new m upd key value tomb = Some ?m"
    using lvl u(1) h'(1) by (auto simp: insert_new_def node_size_def max_def)
  moreover have "linked ?m (lt @ ?n # ge)"
    using spliced_linked [OF l s, of rnd'] lt ge b by simp
  ultimately show ?thesis
    using spliced_entries [OF l s] by (intro exI [of _ ?m] exI [of _ "lt @ ?n # ge"]) simp
qed

lemma insert_existing_ok:
  assumes l: "linked m (lt @ cur # ge)" and k: "key_at (m_heap m) cur = key"
  shows "linked (insert_existing m cur (m_heap m ! cur) key value tomb) (lt @ cur # ge)"
    "entries (m_heap (insert_existing m cur (m_heap m ! cur) key value tomb)) (lt @ cur # ge)
     = entries (m_heap m) lt @ (key, value, tomb) # entries (m_heap m) ge"
proof -
  let ?m = "insert_existing m cur (m_heap m ! cur) key value tomb"
  have c: "cur < length (m_heap m)" "cur \<notin> set lt" "cur \<notin> set ge" using l by (auto simp: linked_def)
  have h: "m_heap ?m ! a = (if a = cur then (m_heap m ! cur)\<lparr>n_Value := value, n_Tombstone := tomb\<rparr>
      else m_heap m ! a)" for a
    using c by (simp add: insert_existing_def nth_list_update)
  have f: "fwd (m_heap ?m) a i = fwd (m_heap m) a i" for a i
    using c by (auto simp: insert_existing_def fwd_def deref_def nth_list_update)
  have sg: "seg (m_heap ?m) i a bs = seg (m_heap m) i a bs" for i a bs
    by (rule seg_cong) (rule f)
  have ht: "height (m_heap ?m) a = height (m_heap m) a" "key_at (m_heap ?m) a = key_at (m_heap m) a" for a
    by (simp_all add: h)
  have len: "length (m_heap ?m) = length (m_heap m)" "m_head ?m = m_head m" "m_level ?m = m_level m"
    "m_opts ?m = m_opts m"
    by (simp_all add: insert_existing_def)
  have sz: "map (\<lambda>a. node_size (m_heap ?m ! a)) (lt @ cur # ge)
    = map (\<lambda>a. node_size (m_heap m ! a)) lt @ int (length key + length value) # map (\<lambda>a. node_size (m_heap m ! a)) ge"
    using c k by (auto simp: h node_size_def)
  have "m_sizeBytes ?m = sum_list (map (\<lambda>a. node_size (m_heap ?m ! a)) (lt @ cur # ge))"
    unfolding sz using l k by (simp add: linked_def insert_existing_def node_size_def)
  then show "linked ?m (lt @ cur # ge)"
    using l by (simp only: linked_def ht sg len) blast
  show "entries (m_heap ?m) (lt @ cur # ge)
     = entries (m_heap m) lt @ (key, value, tomb) # entries (m_heap m) ge"
    using c k by (auto simp: h)
qed

text \<open>The two branches of \<open>insert\<close> behind the search for the predecessors.\<close>

lemma mem_insert_present:
  assumes l: "linked m (lt @ cur # ge)" and k: "key_at (m_heap m) cur = key" "\<forall>a \<in> set lt. key_at (m_heap m) a < key"
    and u: "find_update (m_heap m) key (m_level m) (m_head m) (replicate (max_level m) None)
      = Some (pred_at (m_heap m) (m_head m) lt 0, upd)"
  shows "\<exists>m' as'. mem_insert m key value tomb = Some (m', IsFull m') \<and> linked m' as' \<and> m_opts m' = m_opts m
    \<and> entries (m_heap m') as' = assoc_put key (value, tomb) (entries (m_heap m) (lt @ cur # ge))"
proof -
  let ?m = "insert_existing m cur (m_heap m ! cur) key value tomb"
  have "mem_insert m key value tomb = Some (?m, IsFull ?m)"
    using u fwd_pred_bottom [OF l] k linked_node(1) [OF l, of cur] by (simp add: mem_insert_def IsFull_def)
  moreover have "entries (m_heap m) lt @ (key, value, tomb) # entries (m_heap m) ge
      = assoc_put key (value, tomb) (entries (m_heap m) (lt @ cur # ge))"
    using k by (simp add: assoc_put_present)
  moreover have "m_opts ?m = m_opts m" by (simp add: insert_existing_def)
  ultimately show ?thesis
    using insert_existing_ok [OF l k(1), of "value" tomb]
    by (intro exI [of _ ?m] exI [of _ "lt @ cur # ge"]) simp
qed

lemma mem_insert_ok:
  assumes "linked m as"
  shows "\<exists>m' as'. mem_insert m key value tomb = Some (m', IsFull m') \<and> linked m' as'
    \<and> m_opts m' = m_opts m
    \<and> entries (m_heap m') as' = assoc_put key (value, tomb) (entries (m_heap m) as)"
proof -
  obtain lt ge where sp: "as = lt @ ge" "\<forall>a \<in> set lt. key_at (m_heap m) a < key"
    "\<forall>a \<in> set ge. key \<le> key_at (m_heap m) a"
    using linked_split [OF assms] by blast
  let ?p = "pred_at (m_heap m) (m_head m) lt"
  have l: "linked m (lt @ ge)" using assms sp(1) by simp
  have srt: "sorted_keys (entries (m_heap m) lt @ entries (m_heap m) ge)"
    using linked_sorted [OF l] by simp
  have lvl: "m_level m \<le> max_level m" using linked_level [OF l] by simp
  obtain upd where upd: "find_update (m_heap m) key (m_level m) (m_head m) (replicate (max_level m) None)
      = Some (?p 0, upd)"
    "length upd = max_level m" "\<forall>i < m_level m. upd ! i = Some (?p i)"
    using find_update_pred [OF l lvl _ sp(2,3), of "replicate (max_level m) None"]
    by (auto simp: pred_at_top [OF l])
  show ?thesis
  proof (cases "\<exists>cur ge'. ge = cur # ge' \<and> key_at (m_heap m) cur = key")
    case True
    then obtain cur ge' where "ge = cur # ge'" "key_at (m_heap m) cur = key" by blast
    then show ?thesis using mem_insert_present [of m lt cur ge' key upd "value" tomb] l sp(1,2) upd(1) by simp
  next
    case False
    have ge: "\<forall>a \<in> set ge. key < key_at (m_heap m) a"
    proof (cases ge)
      case (Cons c ge')
      then have "key < key_at (m_heap m) c" using False sp(3) by (auto simp: order_less_le)
      then show ?thesis using srt Cons by (auto simp: sorted_wrt_append)
    qed simp
    obtain m' as' where m': "insert_new m upd key value tomb = Some m'" "linked m' as'"
      "m_opts m' = m_opts m"
      "entries (m_heap m') as' = entries (m_heap m) lt @ (key, value, tomb) # entries (m_heap m) ge"
      using insert_new_ok [OF l sp(2) ge upd(2,3)] by blast
    have "mem_insert m key value tomb = Some (m', IsFull m')"
      using upd(1) fwd_pred_bottom [OF l] m'(1) False linked_node(1) [OF l]
      by (cases ge) (auto simp: mem_insert_def IsFull_def)
    moreover have "entries (m_heap m') as' = assoc_put key (value, tomb) (entries (m_heap m) as)"
      using srt sp(1,2) ge m'(4) by (simp add: assoc_put_absent)
    ultimately show ?thesis using m'(2,3) by blast
  qed
qed

lemma NewMemTable_linked: "linked (NewMemTable opts rnd) []"
  by (auto simp: linked_def NewMemTable_def Let_def fwd_def deref_def)

section \<open>The MemTable as a store\<close>

lemma mem_insert_inv:
  assumes "mem_inv m"
  shows "\<exists>m'. mem_insert m key value tomb = Some (m', IsFull m') \<and> mem_inv m' \<and> m_opts m' = m_opts m
    \<and> contents m' = assoc_put key (value, tomb) (contents m)"
proof -
  obtain as where l: "linked m as" using assms by (auto simp: mem_inv_def)
  obtain m' as' where m': "mem_insert m key value tomb = Some (m', IsFull m')" "linked m' as'"
    "m_opts m' = m_opts m" "entries (m_heap m') as' = assoc_put key (value, tomb) (entries (m_heap m) as)"
    using mem_insert_ok [OF l] by blast
  then have "contents m' = assoc_put key (value, tomb) (contents m)"
    by (simp only: contents_linked [OF l] contents_linked [OF m'(2)])
  with m' show ?thesis unfolding mem_inv_def by blast
qed

lemma Get_inv:
  "mem_inv m \<Longrightarrow>
   Get m key = Some (case mem_view m key of None \<Rightarrow> ([], False, False) | Some (v, t) \<Rightarrow> (v, t, True))"
  by (auto simp: mem_inv_def mem_view_def Get_linked contents_linked)

lemma NewMemTable_inv: "mem_inv (NewMemTable opts rnd)" "contents (NewMemTable opts rnd) = []"
  using NewMemTable_linked contents_linked [OF NewMemTable_linked] by (auto simp: mem_inv_def)

lemma NewMemTable_view [simp]: "mem_view (NewMemTable opts rnd) = Map.empty"
  by (simp add: mem_view_def NewMemTable_inv(2))

text \<open>The insertion and the lookup as the operations of the store interface.\<close>

definition mem_ins :: "MemTable \<Rightarrow> bytes \<Rightarrow> bytes \<times> bool \<Rightarrow> MemTable option" where
  "mem_ins m key vt = map_option fst (mem_insert m key (fst vt) (snd vt))"

definition mem_look :: "MemTable \<Rightarrow> bytes \<Rightarrow> (bytes \<times> bool) option option" where
  "mem_look m key = map_option (\<lambda>(v, t, found). if found then Some (v, t) else None) (Get m key)"

interpretation mem: kv_store mem_inv mem_view "\<lambda>_ _. True" mem_ins mem_look
proof
  show "\<exists>m'. mem_ins m key vt = Some m' \<and> mem_inv m' \<and> mem_view m' = (mem_view m)(key \<mapsto> vt)"
    if "mem_inv m" for m key vt
    using mem_insert_inv [OF that, of key "fst vt" "snd vt"]
    by (auto simp: mem_ins_def mem_view_def map_of_assoc_put)
  show "mem_look m key = Some (mem_view m key)" if "mem_inv m" for m key
    using Get_inv [OF that, of key] by (auto simp: mem_look_def split: option.splits)
qed

text \<open>A client's sequence of calls: \<open>(key, Some v)\<close> is \<open>Put\<close>, \<open>(key, None)\<close> is \<open>Delete\<close>.\<close>

definition put_or_delete :: "MemTable \<Rightarrow> bytes \<Rightarrow> bytes option \<Rightarrow> MemTable option" where
  "put_or_delete m key v =
     map_option fst (case v of Some w \<Rightarrow> Put m key w | None \<Rightarrow> Delete m key)"

abbreviation op_cell :: "bytes option \<Rightarrow> bytes \<times> bool" where
  "op_cell v \<equiv> (case v of Some w \<Rightarrow> (w, False) | None \<Rightarrow> ([], True))"

lemma put_or_delete_eq: "put_or_delete m key v = mem_ins m key (op_cell v)"
  by (simp add: put_or_delete_def mem_ins_def Put_def Delete_def split: option.splits)

lemma put_or_delete_inv:
  assumes "mem_inv m"
  obtains m' where "put_or_delete m key v = Some m'" "mem_inv m'"
    "contents m' = assoc_put key (op_cell v) (contents m)"
  using mem_insert_inv [OF assms, of key "fst (op_cell v)" "snd (op_cell v)"]
  by (auto simp: put_or_delete_eq mem_ins_def)

lemma calls_eq:
  "insert_all put_or_delete m ops = insert_all mem_ins m (map (map_prod id op_cell) ops)"
  by (induction put_or_delete m ops rule: insert_all.induct)
    (auto simp: put_or_delete_eq split: option.splits)

section \<open>Properties\<close>

text \<open>
  C9: inserting into a well-formed skip list never dereferences nil, never indexes a forward
  array out of range and returns; the result is a well-formed skip list whose sorted entries are
  the old ones with the key set to the new value and tombstone; the returned flag says whether the
  threshold is reached.
\<close>

theorem insert_refines_sorted_map:
  assumes "mem_inv m"
  shows "\<exists>m'. mem_insert m key value tomb = Some (m', IsFull m') \<and> mem_inv m' \<and> m_opts m' = m_opts m
    \<and> contents m' = assoc_put key (value, tomb) (contents m)"
  using assms by (rule mem_insert_inv)

theorem insert_refines_sorted_map_witness:
  "\<exists>m'. mem_insert (NewMemTable DefaultMemTableOptions (\<lambda>_. 0)) [1] [2] False = Some (m', IsFull m')
    \<and> mem_inv m' \<and> contents m' = [([1], [2], False)]"
  using insert_refines_sorted_map [OF NewMemTable_inv(1), of DefaultMemTableOptions "\<lambda>_. 0" "[1]" "[2]" False]
  by (auto simp: NewMemTable_inv(2))

text \<open>
  C4: from a new table, whatever the options, the random numbers and the sequence of Put and
  Delete calls, all calls return and \<open>Get\<close> returns what the last call on the key wrote: the value,
  or a tombstone after a Delete, or not found when the key was never written.
\<close>

theorem memtable_behaves_as_map:
  "\<exists>m. insert_all put_or_delete (NewMemTable opts rnd) ops = Some m \<and> mem_inv m
    \<and> (\<forall>key. Get m key = Some (case map_of (rev ops) key of
          None \<Rightarrow> ([], False, False)
        | Some (Some v) \<Rightarrow> (v, False, True)
        | Some None \<Rightarrow> ([], True, True)))"
proof -
  let ?cells = "map (map_prod id op_cell) ops"
  obtain m where m: "insert_all mem_ins (NewMemTable opts rnd) ?cells = Some m" "mem_inv m"
    "mem_view m = mem_view (NewMemTable opts rnd) ++ map_of (rev ?cells)"
    using mem.insert_all_ok [OF NewMemTable_inv(1), of ?cells] by auto
  have v: "mem_view m key = map_option op_cell (map_of (rev ops) key)" for key
    using m(3) fun_cong [OF map_of_map [of op_cell "rev ops"], of key]
    by (simp add: rev_map map_prod_def id_def)
  have "Get m key = Some (case map_of (rev ops) key of None \<Rightarrow> ([], False, False)
      | Some (Some w) \<Rightarrow> (w, False, True) | Some None \<Rightarrow> ([], True, True))" for key
    unfolding Get_inv [OF m(2)] v by (simp split: option.splits)
  with m(1,2) show ?thesis unfolding calls_eq by blast
qed

text \<open>
  C10: an iteration over a well-formed table returns, and yields the nodes in strictly ascending
  key order, exactly one for every key \<open>Get\<close> finds; \<open>SizeBytes\<close> is the sum of the lengths of their
  keys and values.
\<close>

theorem iteration_is_sorted_and_complete:
  assumes "mem_inv m"
  shows "\<exists>nds. iterate (m_heap m) (Iterator m) = Some nds \<and> sorted_wrt (<) (map n_Key nds)
    \<and> (\<forall>key v t. Get m key = Some (v, t, True) \<longleftrightarrow> (\<exists>nd \<in> set nds. node_entry nd = (key, v, t)))
    \<and> SizeBytes m = sum_list (map (\<lambda>nd. int (length (n_Key nd) + length (n_Value nd))) nds)"
proof -
  obtain as where l: "linked m as" using assms by (auto simp: mem_inv_def)
  let ?nds = "map ((!) (m_heap m)) as"
  have it: "iterate (m_heap m) (Iterator m) = Some ?nds"
    using iterate_seg [OF linked_bottom [OF l]] linked_node(1) [OF l] by (simp add: Iterator_def)
  have sorted: "sorted_keys (contents m)"
    using linked_sorted [OF l] contents_linked [OF l] by simp
  then have d: "distinct (map fst (contents m))" by (simp add: strict_sorted_iff)
  have "Get m key = Some (v, t, True) \<longleftrightarrow> (key, v, t) \<in> set (contents m)" for key v t
    unfolding map_of_eq_Some_iff [OF d, symmetric] Get_inv [OF assms]
    by (auto simp: mem_view_def split: option.splits)
  moreover have "(key, v, t) \<in> set (contents m) \<longleftrightarrow> (\<exists>nd \<in> set ?nds. node_entry nd = (key, v, t))" for key v t
    by (auto simp: contents_linked [OF l])
  ultimately have "\<forall>key v t. Get m key = Some (v, t, True) \<longleftrightarrow> (\<exists>nd \<in> set ?nds. node_entry nd = (key, v, t))"
    by simp
  moreover have "sorted_wrt (<) (map n_Key ?nds)" using l by (simp add: linked_def comp_def)
  moreover have "SizeBytes m = sum_list (map (\<lambda>nd. int (length (n_Key nd) + length (n_Value nd))) ?nds)"
    using l by (simp add: linked_def comp_def SizeBytes_def node_size_def)
  ultimately show ?thesis using it by (intro exI [of _ ?nds] conjI)
qed

theorem iteration_is_sorted_and_complete_witness:
  "\<exists>m nds. insert_all put_or_delete (NewMemTable DefaultMemTableOptions (\<lambda>_. 0))
        [([2], Some [5]), ([1], None), ([2], Some [6, 7])] = Some m
    \<and> iterate (m_heap m) (Iterator m) = Some nds
    \<and> map node_entry nds = [([1], [], True), ([2], [6, 7], False)]"
proof -
  let ?m = "NewMemTable DefaultMemTableOptions (\<lambda>_. 0)"
  obtain m1 where m1: "put_or_delete ?m [2] (Some [5]) = Some m1" "mem_inv m1"
    "contents m1 = assoc_put [2] (op_cell (Some [5])) (contents ?m)"
    by (rule put_or_delete_inv [OF NewMemTable_inv(1)])
  obtain m2 where m2: "put_or_delete m1 [1] None = Some m2" "mem_inv m2"
    "contents m2 = assoc_put [1] (op_cell None) (contents m1)"
    by (rule put_or_delete_inv [OF m1(2)])
  obtain m3 where m3: "put_or_delete m2 [2] (Some [6, 7]) = Some m3" "mem_inv m3"
    "contents m3 = assoc_put [2] (op_cell (Some [6, 7])) (contents m2)"
    by (rule put_or_delete_inv [OF m2(2)])
  have c: "contents m3 = [([1], [], True), ([2], [6, 7], False)]"
    by (simp add: m3(3) m2(3) m1(3) NewMemTable_inv(2))
  obtain nds where "iterate (m_heap m3) (Iterator m3) = Some nds"
    using iteration_is_sorted_and_complete [OF m3(2)] by blast
  moreover from this c have "map node_entry nds = [([1], [], True), ([2], [6, 7], False)]"
    by (simp add: contents_def)
  ultimately show ?thesis
    using m1(1) m2(1) m3(1) by (intro exI [of _ m3] exI [of _ nds]) simp
qed

end
