(* ===== verification/Lumafly.thy ===== *)
theory Lumafly
  imports KV_Prelude Complex_Main
begin

text \<open>
  The Lumafly Bloom filter, \<open>cpp/src/lumafly_bloom.cpp\<close>, which the storage package calls through
  cgo. \<open>size_t\<close> is a 64-bit word, and memory is little-endian, as on the machines the server is
  built for. A null pointer is \<open>None\<close>. A division by zero and an access outside \<open>bit_array\<close> are
  the result \<open>None\<close> of an operation. The two sizes that \<open>lumafly_create\<close> computes in \<open>double\<close>
  arithmetic are parameters, so that what is shown holds however the machine rounds.
\<close>

section \<open>The hash\<close>

definition murmur_mix :: "u32 \<Rightarrow> u32" where
  "murmur_mix k =
     (let k1 = k * 0xcc9e2d51;
          k2 = push_bit 15 k1 OR drop_bit (32 - 15) k1
      in k2 * 0x1b873593)"

definition murmur_block :: "u32 \<Rightarrow> u32 \<Rightarrow> u32" where
  "murmur_block h1 k1 =
     (let h2 = h1 XOR murmur_mix k1;
          h3 = push_bit 13 h2 OR drop_bit (32 - 13) h2
      in h3 * 5 + 0xe6546b64)"

text \<open>A block of four bytes read as a \<open>uint32_t\<close>, and the loop over the blocks.\<close>

definition le32 :: "byte \<Rightarrow> byte \<Rightarrow> byte \<Rightarrow> byte \<Rightarrow> u32" where
  "le32 a b c d =
     ucast a OR push_bit 8 (ucast b) OR push_bit 16 (ucast c) OR push_bit 24 (ucast d)"

fun murmur_blocks :: "u32 \<Rightarrow> bytes \<Rightarrow> u32 \<times> bytes" where
  "murmur_blocks h1 (a # b # c # d # rest) = murmur_blocks (murmur_block h1 (le32 a b c d)) rest"
| "murmur_blocks h1 tail = (h1, tail)"

text \<open>The \<open>switch\<close> on the length of the tail; its cases fall through.\<close>

fun murmur_tail :: "u32 \<Rightarrow> bytes \<Rightarrow> u32" where
  "murmur_tail h1 [] = h1"
| "murmur_tail h1 [a] = h1 XOR murmur_mix (ucast a)"
| "murmur_tail h1 [a, b] = h1 XOR murmur_mix (push_bit 8 (ucast b) XOR ucast a)"
| "murmur_tail h1 (a # b # c # _) =
     h1 XOR murmur_mix (push_bit 16 (ucast c) XOR push_bit 8 (ucast b) XOR ucast a)"

definition murmurhash3_32 :: "bytes \<Rightarrow> u32 \<Rightarrow> u32" where
  "murmurhash3_32 key seed =
     (let (h1, tail) = murmur_blocks seed key;
          h2 = murmur_tail h1 tail;
          h3 = h2 XOR of_nat (length key);
          h4 = h3 XOR drop_bit 16 h3;
          h5 = h4 * 0x85ebca6b;
          h6 = h5 XOR drop_bit 13 h5;
          h7 = h6 * 0xc2b2ae35
      in h7 XOR drop_bit 16 h7)"

section \<open>The filter\<close>

record LumaflyBloom =
  num_bits :: u64
  num_hashes :: u64
  bit_array :: bytes

text \<open>
  \<open>ceil_m n p\<close> is \<open>static_cast<size_t>(std::ceil(m))\<close> for \<open>n\<close> entries and the rate \<open>p\<close>, and
  \<open>ceil_k b n\<close> is \<open>static_cast<size_t>(std::ceil(k))\<close> for \<open>b\<close> bits.
\<close>

record double_math =
  ceil_m :: "u64 \<Rightarrow> rat \<Rightarrow> u64"
  ceil_k :: "u64 \<Rightarrow> u64 \<Rightarrow> u64"

definition lumafly_create :: "double_math \<Rightarrow> u64 \<Rightarrow> rat \<Rightarrow> LumaflyBloom" where
  "lumafly_create dm expected_entries fp_rate =
     (let n = (if expected_entries = 0 then 1 else expected_entries);
          p = (if fp_rate \<le> 0 \<or> 1 \<le> fp_rate then 1 / 1000 else fp_rate);
          bits = ceil_m dm n p;
          bits' = (if bits < 64 then 64 else bits);
          hashes = ceil_k dm bits' n;
          hashes' = (if hashes < 1 then 1 else hashes);
          num_bytes = (bits' + 7) div 8
      in \<lparr>num_bits = bits', num_hashes = hashes', bit_array = replicate (unat num_bytes) 0\<rparr>)"

text \<open>\<open>combined_hash % bf->num_bits\<close>: the 32-bit hash is widened before the division.\<close>

definition bit_idx :: "LumaflyBloom \<Rightarrow> u32 \<Rightarrow> u32 \<Rightarrow> nat \<Rightarrow> nat option" where
  "bit_idx bf h1 h2 i =
     (if num_bits bf = 0 then None
      else Some (unat ((ucast (h1 + of_nat i * h2) :: u64) mod num_bits bf)))"

definition bit_mask :: "nat \<Rightarrow> byte" where
  "bit_mask b = push_bit (b mod 8) 1"

fun set_bits :: "u32 \<Rightarrow> u32 \<Rightarrow> nat list \<Rightarrow> LumaflyBloom \<Rightarrow> LumaflyBloom option" where
  "set_bits h1 h2 [] bf = Some bf"
| "set_bits h1 h2 (i # is) bf =
     (case bit_idx bf h1 h2 i of
        None \<Rightarrow> None
      | Some b \<Rightarrow>
          if b div 8 < length (bit_array bf) then
            set_bits h1 h2 is
              (bf\<lparr>bit_array := (bit_array bf)[b div 8 := bit_array bf ! (b div 8) OR bit_mask b]\<rparr>)
          else None)"

text \<open>The outer \<open>None\<close> is a trap; the inner one is the null filter, left alone.\<close>

definition lumafly_add :: "LumaflyBloom option \<Rightarrow> bytes option \<Rightarrow> LumaflyBloom option option" where
  "lumafly_add filt key =
     (case (filt, key) of
        (Some bf, Some k) \<Rightarrow>
          let h1 = murmurhash3_32 k 0x9747b28c; h2 = murmurhash3_32 k h1
          in map_option Some (set_bits h1 h2 [0..<unat (num_hashes bf)] bf)
      | _ \<Rightarrow> Some filt)"

fun test_bits :: "u32 \<Rightarrow> u32 \<Rightarrow> nat list \<Rightarrow> LumaflyBloom \<Rightarrow> bool option" where
  "test_bits h1 h2 [] bf = Some True"
| "test_bits h1 h2 (i # is) bf =
     (case bit_idx bf h1 h2 i of
        None \<Rightarrow> None
      | Some b \<Rightarrow>
          if b div 8 < length (bit_array bf) then
            (if bit_array bf ! (b div 8) AND bit_mask b = 0 then Some False
             else test_bits h1 h2 is bf)
          else None)"

definition lumafly_contains :: "LumaflyBloom option \<Rightarrow> bytes option \<Rightarrow> bool option" where
  "lumafly_contains filt key =
     (case (filt, key) of
        (Some bf, Some k) \<Rightarrow>
          let h1 = murmurhash3_32 k 0x9747b28c; h2 = murmurhash3_32 k h1
          in test_bits h1 h2 [0..<unat (num_hashes bf)] bf
      | _ \<Rightarrow> Some False)"

section \<open>The serialized form\<close>

definition lumafly_get_serialized_size :: "LumaflyBloom option \<Rightarrow> u64" where
  "lumafly_get_serialized_size filt =
     (case filt of None \<Rightarrow> 0 | Some bf \<Rightarrow> 8 * 2 + of_nat (length (bit_array bf)))"

text \<open>
  \<open>lumafly_serialize\<close> returns the number of bytes it wrote and the buffer afterwards. \<open>memcpy\<close>
  copies a 64-bit word least significant byte first.
\<close>

definition lumafly_serialize :: "LumaflyBloom option \<Rightarrow> bytes option \<Rightarrow> u64 \<times> bytes option" where
  "lumafly_serialize filt buf =
     (case (filt, buf) of
        (Some bf, Some b) \<Rightarrow>
          let req_size = lumafly_get_serialized_size filt in
          if of_nat (length b) < req_size then (0, buf)
          else (req_size, Some (put_le64 (num_bits bf) @ put_le64 (num_hashes bf) @ bit_array bf
                                @ drop (unat req_size) b))
      | _ \<Rightarrow> (0, buf))"

definition lumafly_deserialize :: "bytes option \<Rightarrow> LumaflyBloom option" where
  "lumafly_deserialize buf =
     (case buf of
        None \<Rightarrow> None
      | Some b \<Rightarrow>
          if length b < 8 * 2 then None
          else let bits = get_le64 (take 8 b);
                   hashes = get_le64 (take 8 (drop 8 b));
                   num_bytes = (bits + 7) div 8
               in if of_nat (length b) < 8 * 2 + num_bytes then None
                  else Some \<lparr>num_bits = bits, num_hashes = hashes,
                            bit_array = take (unat num_bytes) (drop 16 b)\<rparr>)"

section \<open>The bits that are set\<close>

definition bit_on :: "LumaflyBloom \<Rightarrow> nat \<Rightarrow> bool" where
  "bit_on bf b \<longleftrightarrow> b div 8 < length (bit_array bf) \<and> bit_array bf ! (b div 8) AND bit_mask b \<noteq> 0"

text \<open>A filter whose array has room for all its bits.\<close>

definition bloom_ok :: "LumaflyBloom \<Rightarrow> bool" where
  "bloom_ok bf \<longleftrightarrow> num_bits bf \<noteq> 0 \<and> length (bit_array bf) = (unat (num_bits bf) + 7) div 8"

lemma bit_idx_ok:
  assumes "bloom_ok bf"
  shows "\<exists>b. bit_idx bf h1 h2 i = Some b \<and> b div 8 < length (bit_array bf)"
proof -
  have n: "0 < unat (num_bits bf)" using assms by (simp add: bloom_ok_def unat_gt_0)
  then have "unat ((ucast (h1 + of_nat i * h2) :: u64) mod num_bits bf) < unat (num_bits bf)"
    by (simp add: unat_mod_distrib)
  then have "unat ((ucast (h1 + of_nat i * h2) :: u64) mod num_bits bf) div 8 < length (bit_array bf)"
    using assms by (simp add: bloom_ok_def div_less_iff_less_mult)
  then show ?thesis using assms by (simp add: bit_idx_def bloom_ok_def)
qed

lemma bit_mask_nonzero: "bit_mask b \<noteq> 0"
proof -
  have "bit (bit_mask b) (b mod 8)" by (simp add: bit_mask_def bit_simps)
  then show ?thesis by auto
qed

lemma and_or_mask: "(x OR m) AND m = (m :: byte)"
  by (rule bit_word_eqI) (auto simp: bit_simps)

lemma and_or_mono: "x AND m \<noteq> 0 \<Longrightarrow> (x OR y) AND m \<noteq> (0 :: byte)"
  by (metis bit.conj_disj_distrib2 or_eq_0_iff)

lemma set_bit_on:
  fixes bf :: LumaflyBloom
  assumes "b div 8 < length (bit_array bf)"
  defines "bf' \<equiv> bf\<lparr>bit_array := (bit_array bf)[b div 8 := bit_array bf ! (b div 8) OR bit_mask b]\<rparr>"
  shows "bit_on bf' b" "bit_on bf c \<Longrightarrow> bit_on bf' c"
  using assms
  by (auto simp: bit_on_def and_or_mask bit_mask_nonzero nth_list_update and_or_mono)

text \<open>Two filters that differ in their bits only, the second with more of them.\<close>

definition grows :: "LumaflyBloom \<Rightarrow> LumaflyBloom \<Rightarrow> bool" where
  "grows bf bf' \<longleftrightarrow> num_bits bf' = num_bits bf \<and> num_hashes bf' = num_hashes bf
     \<and> length (bit_array bf') = length (bit_array bf) \<and> (\<forall>b. bit_on bf b \<longrightarrow> bit_on bf' b)"

lemma grows_refl [simp]: "grows bf bf"
  by (simp add: grows_def)

lemma grows_trans: "grows a b \<Longrightarrow> grows b c \<Longrightarrow> grows a c"
  by (auto simp: grows_def)

lemma grows_ok: "grows bf bf' \<Longrightarrow> bloom_ok bf \<Longrightarrow> bloom_ok bf'"
  by (simp add: grows_def bloom_ok_def)

lemma grows_idx: "grows bf bf' \<Longrightarrow> bit_idx bf' h1 h2 i = bit_idx bf h1 h2 i"
  by (simp add: grows_def bit_idx_def)

lemma set_bits_ok:
  assumes "bloom_ok bf"
  shows "\<exists>bf'. set_bits h1 h2 is bf = Some bf' \<and> grows bf bf'
    \<and> (\<forall>i \<in> set is. bit_on bf' (the (bit_idx bf h1 h2 i)))"
  using assms
proof (induction "is" arbitrary: bf)
  case (Cons i "is")
  obtain b where b: "bit_idx bf h1 h2 i = Some b" "b div 8 < length (bit_array bf)"
    using bit_idx_ok [OF Cons.prems] by blast
  let ?bf = "bf\<lparr>bit_array := (bit_array bf)[b div 8 := bit_array bf ! (b div 8) OR bit_mask b]\<rparr>"
  have g: "grows bf ?bf" using set_bit_on(2) [OF b(2)] by (simp add: grows_def)
  obtain bf' where bf': "set_bits h1 h2 is ?bf = Some bf'" "grows ?bf bf'"
    "\<forall>i \<in> set is. bit_on bf' (the (bit_idx ?bf h1 h2 i))"
    using Cons.IH [OF grows_ok [OF g Cons.prems]] by blast
  have "bit_on bf' b" using set_bit_on(1) [OF b(2)] bf'(2) by (simp add: grows_def)
  then show ?case
    using b bf' grows_trans [OF g bf'(2)] grows_idx [OF g] by (intro exI [of _ bf']) simp
qed simp

lemma test_bits_ok:
  assumes "bloom_ok bf"
  shows "test_bits h1 h2 is bf = Some (\<forall>i \<in> set is. bit_on bf (the (bit_idx bf h1 h2 i)))"
proof (induction "is")
  case (Cons i "is")
  obtain b where "bit_idx bf h1 h2 i = Some b" "b div 8 < length (bit_array bf)"
    using bit_idx_ok [OF assms] by blast
  then show ?case using Cons by (auto simp: bit_on_def)
qed simp

section \<open>The filter as a set\<close>

definition bloom_add :: "LumaflyBloom \<Rightarrow> bytes \<Rightarrow> LumaflyBloom option" where
  "bloom_add bf key = (case lumafly_add (Some bf) (Some key) of Some r \<Rightarrow> r | None \<Rightarrow> None)"

abbreviation bloom_has :: "LumaflyBloom \<Rightarrow> bytes \<Rightarrow> bool option" where
  "bloom_has bf key \<equiv> lumafly_contains (Some bf) (Some key)"

definition bloom_bytes :: "LumaflyBloom \<Rightarrow> bytes" where
  "bloom_bytes bf = put_le64 (num_bits bf) @ put_le64 (num_hashes bf) @ bit_array bf"

abbreviation bloom_of :: "bytes \<Rightarrow> LumaflyBloom option" where
  "bloom_of b \<equiv> lumafly_deserialize (Some b)"

text \<open>A filter that fits into memory: its byte count does not wrap around.\<close>

definition bloom_fits :: "LumaflyBloom \<Rightarrow> bool" where
  "bloom_fits bf \<longleftrightarrow> bloom_ok bf \<and> unat (num_bits bf) < 2 ^ 63"

lemma bloom_bytes_length [simp]: "length (bloom_bytes bf) = 16 + length (bit_array bf)"
  by (simp add: bloom_bytes_def)

lemma num_bytes_eq:
  fixes n :: u64
  assumes "unat n < 2 ^ 63"
  shows "unat ((n + 7) div 8) = (unat n + 7) div 8"
proof -
  have "unat (n + 7) = unat n + 7" using assms by (subst unat_add_lem [THEN iffD1]) auto
  then show ?thesis by (simp add: unat_div)
qed

lemma deserialize_bytes:
  assumes "bloom_fits bf"
  shows "bloom_of (bloom_bytes bf) = Some bf"
proof -
  have len: "length (bit_array bf) = (unat (num_bits bf) + 7) div 8" "unat (num_bits bf) < 2 ^ 63"
    using assms by (simp_all add: bloom_fits_def bloom_ok_def)
  have nb: "unat ((num_bits bf + 7) div 8) = length (bit_array bf)"
    using num_bytes_eq [OF len(2)] len(1) by simp
  moreover have "of_nat (unat ((num_bits bf + 7) div 8)) = (num_bits bf + 7) div 8" by simp
  ultimately have w: "(num_bits bf + 7) div 8 = of_nat (length (bit_array bf))" by simp
  show ?thesis
    by (simp add: lumafly_deserialize_def Let_def bloom_bytes_def nb [unfolded w] w)
qed

lemma bloom_add_ok:
  assumes "bloom_ok bf"
  shows "\<exists>bf'. bloom_add bf key = Some bf' \<and> grows bf bf' \<and> bloom_has bf' key = Some True"
proof -
  let ?h1 = "murmurhash3_32 key 0x9747b28c"
  let ?h2 = "murmurhash3_32 key ?h1"
  obtain bf' where bf': "set_bits ?h1 ?h2 [0..<unat (num_hashes bf)] bf = Some bf'" "grows bf bf'"
    "\<forall>i \<in> set [0..<unat (num_hashes bf)]. bit_on bf' (the (bit_idx bf ?h1 ?h2 i))"
    using set_bits_ok [OF assms] by blast
  have "bloom_has bf' key = Some True"
    using bf' test_bits_ok [OF grows_ok [OF bf'(2) assms]] grows_idx [OF bf'(2)]
    by (simp add: lumafly_contains_def Let_def grows_def)
  then show ?thesis using bf' by (simp add: bloom_add_def lumafly_add_def Let_def)
qed

lemma bloom_has_mono:
  assumes "bloom_ok bf" "grows bf bf'" "bloom_has bf key = Some True"
  shows "bloom_has bf' key = Some True"
  using assms(3) test_bits_ok [OF assms(1)] test_bits_ok [OF grows_ok [OF assms(2,1)]]
    grows_idx [OF assms(2)] assms(2)
  by (auto simp: lumafly_contains_def Let_def grows_def)

interpretation bloom: membership_filter bloom_fits bloom_add bloom_has bloom_bytes bloom_of
proof
  fix bf key
  assume f: "bloom_fits bf"
  then have ok: "bloom_ok bf" by (simp add: bloom_fits_def)
  obtain bf' where "bloom_add bf key = Some bf'" "grows bf bf'" "bloom_has bf' key = Some True"
    using bloom_add_ok [OF ok] by blast
  then show "\<exists>f'. bloom_add bf key = Some f' \<and> bloom_fits f' \<and> bloom_has f' key = Some True
      \<and> (\<forall>k'. bloom_has bf k' = Some True \<longrightarrow> bloom_has f' k' = Some True)
      \<and> length (bloom_bytes f') = length (bloom_bytes bf)"
    using bloom_has_mono [OF ok] grows_ok [OF _ ok] f
    by (intro exI [of _ bf']) (auto simp: bloom_fits_def grows_def)
  show "bloom_has bf key \<noteq> None"
    using test_bits_ok [OF ok] by (simp add: lumafly_contains_def Let_def)
  show "bloom_of (bloom_bytes bf) = Some bf" by (rule deserialize_bytes [OF f])
qed

lemma serialize_eq:
  assumes "bloom_fits bf"
  shows "lumafly_get_serialized_size (Some bf) = of_nat (length (bloom_bytes bf))"
    "unat (lumafly_get_serialized_size (Some bf)) = length (bloom_bytes bf)"
    "length buf = length (bloom_bytes bf) \<Longrightarrow>
     lumafly_serialize (Some bf) (Some buf) = (of_nat (length (bloom_bytes bf)), Some (bloom_bytes bf))"
proof -
  have len: "16 + length (bit_array bf) < 2 ^ 64"
    using assms by (simp add: bloom_fits_def bloom_ok_def) linarith
  show sz: "lumafly_get_serialized_size (Some bf) = of_nat (length (bloom_bytes bf))"
    by (simp add: lumafly_get_serialized_size_def)
  show un: "unat (lumafly_get_serialized_size (Some bf)) = length (bloom_bytes bf)"
    unfolding sz using len by (simp add: unat_of_nat_u64 del: of_nat_add)
  show "lumafly_serialize (Some bf) (Some buf) = (of_nat (length (bloom_bytes bf)), Some (bloom_bytes bf))"
    if "length buf = length (bloom_bytes bf)"
    using that un by (simp add: lumafly_serialize_def sz bloom_bytes_def)
qed

lemma create_fits:
  assumes "unat (ceil_m dm (if n = 0 then 1 else n) (if p \<le> 0 \<or> 1 \<le> p then 1 / 1000 else p)) < 2 ^ 63"
  shows "bloom_fits (lumafly_create dm n p)"
proof -
  let ?b = "ceil_m dm (if n = 0 then 1 else n) (if p \<le> 0 \<or> 1 \<le> p then 1 / 1000 else p)"
  let ?b' = "if ?b < 64 then 64 else ?b"
  have "unat ?b' < 2 ^ 63" "?b' \<noteq> 0" using assms by auto
  then show ?thesis
    using num_bytes_eq [of ?b'] by (simp add: lumafly_create_def Let_def bloom_fits_def bloom_ok_def)
qed

section \<open>Properties\<close>

text \<open>
  C11: a filter made by \<open>lumafly_create\<close>, filled with any keys, serialized into a buffer of the
  announced size and read back, answers yes for every one of the keys, and answers every query
  without a trap.
\<close>

theorem bloom_no_false_negatives:
  assumes "unat (ceil_m dm (if n = 0 then 1 else n) (if p \<le> 0 \<or> 1 \<le> p then 1 / 1000 else p)) < 2 ^ 63"
  shows "\<exists>bf buf g. add_all bloom_add (lumafly_create dm n p) ks = Some bf
    \<and> lumafly_serialize (Some bf) (Some (replicate (unat (lumafly_get_serialized_size (Some bf))) 0))
        = (lumafly_get_serialized_size (Some bf), Some buf)
    \<and> lumafly_deserialize (Some buf) = Some g
    \<and> (\<forall>k. lumafly_contains (Some g) (Some k) \<noteq> None)
    \<and> (\<forall>k \<in> set ks. lumafly_contains (Some g) (Some k) = Some True)"
proof -
  obtain bf where bf: "add_all bloom_add (lumafly_create dm n p) ks = Some bf" "bloom_fits bf"
    using bloom.add_all_ok [OF create_fits [OF assms]] by blast
  obtain g where "bloom_of (bloom_bytes bf) = Some g" "\<forall>k. bloom_has g k \<noteq> None"
    "\<forall>k \<in> set ks. bloom_has g k = Some True"
    using bloom.no_false_negatives [OF create_fits [OF assms] bf(1)] by blast
  then show ?thesis
    using bf(1) serialize_eq(1,2) [OF bf(2)]
      serialize_eq(3) [OF bf(2), of "replicate (length (bloom_bytes bf)) 0"]
    by (intro exI [of _ bf] exI [of _ "bloom_bytes bf"] exI [of _ g]) simp
qed

theorem bloom_no_false_negatives_witness:
  "\<exists>bf buf g.
      add_all bloom_add (lumafly_create \<lparr>ceil_m = \<lambda>_ _. 39, ceil_k = \<lambda>_ _. 23\<rparr> 2 (1 / 10000)) [[1, 2], []] = Some bf
    \<and> lumafly_serialize (Some bf) (Some (replicate (unat (lumafly_get_serialized_size (Some bf))) 0))
        = (lumafly_get_serialized_size (Some bf), Some buf)
    \<and> lumafly_deserialize (Some buf) = Some g
    \<and> lumafly_contains (Some g) (Some [1, 2]) = Some True \<and> lumafly_contains (Some g) (Some []) = Some True"
  using bloom_no_false_negatives [of "\<lparr>ceil_m = \<lambda>_ _. 39, ceil_k = \<lambda>_ _. 23\<rparr>" 2 "1 / 10000" "[[1, 2], []]"]
  by auto

text \<open>
  \<open>lumafly_deserialize\<close> does not check the bit count it reads. A filter block that claims zero
  bits and at least one hash is accepted, and then every query divides by zero.
\<close>

theorem zero_bits_filter_traps:
  assumes "h \<noteq> 0"
  shows "\<exists>bf. lumafly_deserialize (Some (put_le64 0 @ put_le64 h)) = Some bf
    \<and> (\<forall>k. lumafly_contains (Some bf) (Some k) = None)"
proof -
  have "[0..<unat h] = 0 # [1..<unat h]" using assms by (simp add: upt_conv_Cons unat_gt_0)
  then show ?thesis
    by (simp add: lumafly_deserialize_def Let_def lumafly_contains_def bit_idx_def)
qed

theorem zero_bits_filter_traps_witness:
  "\<exists>bf. lumafly_deserialize (Some ([0, 0, 0, 0, 0, 0, 0, 0, 23, 0, 0, 0, 0, 0, 0, 0])) = Some bf
    \<and> lumafly_contains (Some bf) (Some [107]) = None"
proof -
  have "[0, 0, 0, 0, 0, 0, 0, 0, 23, 0, 0, 0, 0, 0, 0, 0] = put_le64 0 @ put_le64 23"
    by (simp add: put_le64_def PutUint64_def)
  then show ?thesis using zero_bits_filter_traps [of 23] by auto
qed

end
