(* ===== verification/Deepnest.thy ===== *)
theory Deepnest
  imports Bench Soul Lumafly
begin

text \<open>
  The Deepnest SSTable, \<open>pkg/storage/sstable.go\<close>: a file of a data block of sorted records, a
  sparse index, the serialized Bloom filter and a footer of 32 bytes. The file system is a map
  from names to contents; a reader holds the contents its file had when it was opened, which is
  what it reads as long as nobody writes the same name again. What the operating system answers
  is an argument (\<open>sst_env\<close>). \<open>Panic\<close> is a run-time panic or a trap in the filter.
\<close>

section \<open>Data\<close>

record IndexEntry =
  ie_Key :: bytes
  ie_Offset :: u64

record Footer =
  IndexOffset :: u64
  IndexLen :: u64
  FilterOffset :: u64
  FilterLen :: u64

record SSTableOptions =
  SparseInterval :: int
  FPRate :: rat

definition DefaultSSTableOptions :: SSTableOptions where
  "DefaultSSTableOptions = \<lparr>SparseInterval = 8, FPRate = 1 / 10000\<rparr>"

record SSTableReader =
  r_file :: "bytes option"
  r_filename :: string
  r_footer :: Footer
  r_index :: "IndexEntry list"
  r_bloomFilter :: "LumaflyBloom option"

text \<open>\<open>ErrCrc\<close> is \<open>ErrSSTableCorrupted\<close> wrapped together with the two checksums.\<close>

datatype sst_error = ErrSSTableCorrupted | ErrCrc u32 u32 | ErrFile | ErrFilter

type_synonym fs = "string \<Rightarrow> bytes option"

text \<open>
  Whether the calls to create, fsync, open and stat the file succeed, how many bytes the disk
  takes for it, where reading fails, the longest slice \<open>make\<close> can allocate, and the
  \<open>double\<close> arithmetic of the filter.
\<close>

record sst_env =
  e_create :: bool
  e_cap :: "nat option"
  e_sync :: bool
  e_open :: bool
  e_stat :: bool
  e_bad :: "int \<Rightarrow> nat \<Rightarrow> bool"
  e_mem :: nat
  e_math :: double_math

definition fwrite :: "nat option \<Rightarrow> bytes \<Rightarrow> bytes \<Rightarrow> bytes \<times> bool" where
  "fwrite cap file buf =
     (case cap of
        None \<Rightarrow> (file @ buf, True)
      | Some c \<Rightarrow> if length file + length buf \<le> c then (file @ buf, True)
                 else (take c (file @ buf), False))"

section \<open>Building\<close>

text \<open>
  The record of a node. \<open>recordLen\<close> is an \<open>int\<close>, but the key length in the slice expressions is
  cut to 32 bits: \<open>None\<close> is the panic of \<open>recBuf[13:13+keyLen]\<close> when that sum wraps around.
\<close>

definition node_record :: "Node \<Rightarrow> bytes option" where
  "node_record node =
     (let keyLen = of_nat (length (n_Key node)) :: u32;
          valLen = of_nat (length (n_Value node)) :: u32;
          body = PutUint32 keyLen @ PutUint32 valLen @ [if n_Tombstone node then 1 else 0]
            @ take (unat keyLen) (n_Key node) @ n_Value node
            @ replicate (length (n_Key node) - unat keyLen) 0
      in if 13 + keyLen < 13 then None
         else Some (PutUint32 (ChecksumIEEE body) @ body))"

record build_state =
  b_file :: bytes
  b_filter :: LumaflyBloom
  b_index :: "IndexEntry list"
  b_offset :: u64
  b_count :: int

text \<open>The loop over the nodes; an error carries the file as it was left.\<close>

fun write_nodes ::
  "nat option \<Rightarrow> int \<Rightarrow> Node list \<Rightarrow> build_state \<Rightarrow> (bytes \<times> sst_error, build_state) outcome" where
  "write_nodes cap interval [] b = Ok b"
| "write_nodes cap interval (node # nodes) b =
     (case lumafly_add (Some (b_filter b)) (Some (n_Key node)) of
        Some (Some filt) \<Rightarrow>
          let index = (if b_count b mod interval = 0
                       then b_index b @ [\<lparr>ie_Key = n_Key node, ie_Offset = b_offset b\<rparr>]
                       else b_index b)
          in (case node_record node of
                None \<Rightarrow> Panic
              | Some recBuf \<Rightarrow>
                  (case fwrite cap (b_file b) recBuf of
                     (file, False) \<Rightarrow> Err (file, ErrFile)
                   | (file, True) \<Rightarrow>
                       write_nodes cap interval nodes
                         \<lparr>b_file = file, b_filter = filt, b_index = index,
                          b_offset = b_offset b + of_nat (length recBuf), b_count = b_count b + 1\<rparr>))
      | _ \<Rightarrow> Panic)"

definition index_bytes :: "IndexEntry \<Rightarrow> bytes" where
  "index_bytes ie = PutUint32 (of_nat (length (ie_Key ie))) @ ie_Key ie @ PutUint64 (ie_Offset ie)"

definition footer_bytes :: "Footer \<Rightarrow> bytes" where
  "footer_bytes f = PutUint64 (IndexOffset f) @ PutUint64 (IndexLen f)
     @ PutUint64 (FilterOffset f) @ PutUint64 (FilterLen f)"

text \<open>The index block, the filter block and the footer, written behind the data.\<close>

definition write_trailer :: "nat option \<Rightarrow> build_state \<Rightarrow> (bytes \<times> sst_error, bytes) outcome" where
  "write_trailer cap b =
     (let indexBuf = concat (map index_bytes (b_index b)) in
      case fwrite cap (b_file b) indexBuf of
        (f1, False) \<Rightarrow> Err (f1, ErrFile)
      | (f1, True) \<Rightarrow>
          let indexLen = of_nat (length indexBuf);
              filterOffset = b_offset b + indexLen;
              serSize = lumafly_get_serialized_size (Some (b_filter b));
              filterBuf = replicate (unat serSize) 0
          in if filterBuf = [] then Panic
             else (case lumafly_serialize (Some (b_filter b)) (Some filterBuf) of
                     (writtenSer, buf) \<Rightarrow>
                       if writtenSer = 0 then Err (f1, ErrFilter)
                       else (case fwrite cap f1 (the buf) of
                               (f2, False) \<Rightarrow> Err (f2, ErrFile)
                             | (f2, True) \<Rightarrow>
                                 (case fwrite cap f2 (footer_bytes
                                         \<lparr>IndexOffset = b_offset b, IndexLen = indexLen,
                                          FilterOffset = filterOffset,
                                          FilterLen = of_nat (length (the buf))\<rparr>) of
                                    (f3, False) \<Rightarrow> Err (f3, ErrFile)
                                  | (f3, True) \<Rightarrow> Ok f3))))"

section \<open>Opening\<close>

datatype read_error = ReadEOF | ReadFailed

text \<open>\<open>(*os.File).ReadAt\<close>: the buffer, zero where nothing was read, and the error.\<close>

definition ReadAt :: "sst_env \<Rightarrow> bytes \<Rightarrow> int \<Rightarrow> nat \<Rightarrow> bytes \<times> read_error option" where
  "ReadAt env file off len =
     (if off < 0 then (replicate len 0, Some ReadFailed)
      else if len = 0 then ([], None)
      else if e_bad env off len then (replicate len 0, Some ReadFailed)
      else let got = take len (drop (nat off) file)
           in (got @ replicate (len - length got) 0,
               if length got < len then Some ReadEOF else None))"

definition footer_of :: "bytes \<Rightarrow> Footer" where
  "footer_of footerBuf =
     \<lparr>IndexOffset = Uint64 (take 8 footerBuf), IndexLen = Uint64 (take 8 (drop 8 footerBuf)),
      FilterOffset = Uint64 (take 8 (drop 16 footerBuf)),
      FilterLen = Uint64 (take 8 (drop 24 footerBuf))\<rparr>"

text \<open>The loop over the index block: a length that is cut off ends it without an error.\<close>

function parse_index :: "bytes \<Rightarrow> IndexEntry list \<Rightarrow> IndexEntry list option" where
  "parse_index bs index =
     (case readFull 4 bs of
        None \<Rightarrow> Some index
      | Some (l, bs1) \<Rightarrow>
          (case readFull (unat (Uint32 l)) bs1 of
             None \<Rightarrow> None
           | Some (keyBuf, bs2) \<Rightarrow>
               (case readFull 8 bs2 of
                  None \<Rightarrow> None
                | Some (off, bs3) \<Rightarrow>
                    parse_index bs3 (index @ [\<lparr>ie_Key = keyBuf, ie_Offset = Uint64 off\<rparr>]))))"
  by pat_completeness auto
termination
  by (relation "measure (\<lambda>(bs, _). length bs)") (auto dest!: readFull_SomeD)

declare parse_index.simps [simp del]

definition OpenSSTable :: "sst_env \<Rightarrow> fs \<Rightarrow> string \<Rightarrow> (sst_error, SSTableReader) outcome" where
  "OpenSSTable env fs filename =
     (case (if e_open env then fs filename else None) of
        None \<Rightarrow> Err ErrFile
      | Some file \<Rightarrow>
          if \<not> e_stat env then Err ErrFile
          else if length file < 32 then Err ErrSSTableCorrupted
          else (case ReadAt env file (int (length file) - 32) 32 of
            (_, Some _) \<Rightarrow> Err ErrFile
          | (footerBuf, None) \<Rightarrow>
              let footer = footer_of footerBuf in
              if e_mem env < unat (IndexLen footer) then Panic
              else (case ReadAt env file (sint (IndexOffset footer)) (unat (IndexLen footer)) of
                (_, Some _) \<Rightarrow> Err ErrFile
              | (indexBuf, None) \<Rightarrow>
                  (case parse_index indexBuf [] of
                    None \<Rightarrow> Err ErrSSTableCorrupted
                  | Some index \<Rightarrow>
                      if e_mem env < unat (FilterLen footer) then Panic
                      else (case ReadAt env file (sint (FilterOffset footer)) (unat (FilterLen footer)) of
                        (_, Some _) \<Rightarrow> Err ErrFile
                      | (filterBuf, None) \<Rightarrow>
                          if filterBuf = [] then Panic
                          else (case lumafly_deserialize (Some filterBuf) of
                            None \<Rightarrow> Err ErrFilter
                          | Some filt \<Rightarrow>
                              Ok \<lparr>r_file = Some file, r_filename = filename, r_footer = footer,
                                  r_index = index, r_bloomFilter = Some filt\<rparr>))))))"

definition BuildSSTable ::
  "sst_env \<Rightarrow> fs \<Rightarrow> string \<Rightarrow> Node list \<Rightarrow> nat option \<Rightarrow> int \<Rightarrow> SSTableOptions
     \<Rightarrow> (fs \<times> sst_error, fs \<times> SSTableReader) outcome" where
  "BuildSSTable env fs filename heap iter expectedEntries opts =
     (let opts1 = (if SparseInterval opts \<le> 0 then opts\<lparr>SparseInterval := 8\<rparr> else opts);
          opts2 = (if FPRate opts1 \<le> 0 then opts1\<lparr>FPRate := 1 / 10000\<rparr> else opts1)
      in if \<not> e_create env then Err (fs, ErrFile)
         else let cFilter = lumafly_create (e_math env) (of_int expectedEntries) (FPRate opts2) in
           (case iterate heap iter of
              None \<Rightarrow> Panic
            | Some nodes \<Rightarrow>
                (case write_nodes (e_cap env) (SparseInterval opts2) nodes
                        \<lparr>b_file = [], b_filter = cFilter, b_index = [], b_offset = 0, b_count = 0\<rparr> of
                   Panic \<Rightarrow> Panic
                 | Err (file, e) \<Rightarrow> Err (fs(filename \<mapsto> file), e)
                 | Ok b \<Rightarrow>
                     (case write_trailer (e_cap env) b of
                        Panic \<Rightarrow> Panic
                      | Err (file, e) \<Rightarrow> Err (fs(filename \<mapsto> file), e)
                      | Ok file \<Rightarrow>
                          let fs' = fs(filename \<mapsto> file) in
                          if \<not> e_sync env then Err (fs', ErrFile)
                          else (case OpenSSTable env fs' filename of
                                  Panic \<Rightarrow> Panic
                                | Err e \<Rightarrow> Err (fs', e)
                                | Ok r \<Rightarrow> Ok (fs', r))))))"

section \<open>Looking up\<close>

text \<open>\<open>sort.Search\<close>: binary search for the first index in \<open>[i, j)\<close> where \<open>f\<close> holds.\<close>

function Search :: "(nat \<Rightarrow> bool) \<Rightarrow> nat \<Rightarrow> nat \<Rightarrow> nat" where
  "Search f i j =
     (if i < j then
        let h = (i + j) div 2 in if \<not> f h then Search f (h + 1) j else Search f i h
      else i)"
  by pat_completeness auto
termination
  by (relation "measure (\<lambda>(_, i, j). j - i)") auto

declare Search.simps [simp del]

text \<open>One turn of the scan on the bytes that are left.\<close>

definition scan_record :: "bytes \<Rightarrow> (sst_error, bytes \<times> bytes \<times> bool) scan" where
  "scan_record bs =
     (case readFull 13 bs of
        None \<Rightarrow> End
      | Some (headerBuf, bs1) \<Rightarrow>
          let expectedCRC = Uint32 (take 4 headerBuf);
              keyLen = Uint32 (take 4 (drop 4 headerBuf));
              valLen = Uint32 (take 4 (drop 8 headerBuf));
              tombstone = (headerBuf ! 12 = 1);
              bodyLen = keyLen + valLen
          in (case readFull (unat bodyLen) bs1 of
                None \<Rightarrow> End
              | Some (bodyBuf, bs2) \<Rightarrow>
                  if 9 + bodyLen < 9 then Crash
                  else let actualCRC = ChecksumIEEE (drop 4 headerBuf @ bodyBuf) in
                    if expectedCRC \<noteq> actualCRC then Bad (ErrCrc expectedCRC actualCRC)
                    else if bodyLen < keyLen then Crash
                    else Got (take (unat keyLen) bodyBuf, drop (unat keyLen) bodyBuf, tombstone) bs2))"

lemma scan_record_shrinks: "scan_record bs = Got e rest \<Longrightarrow> length rest < length bs"
  by (auto simp: scan_record_def Let_def split: option.splits if_splits dest!: readFull_SomeD)

function scan_loop :: "bytes \<Rightarrow> bytes \<Rightarrow> (sst_error, bytes \<times> bool \<times> bool) outcome" where
  "scan_loop bs key =
     (if bs = [] then Ok ([], False, False)
      else case scan_record bs of
        End \<Rightarrow> Ok ([], False, False)
      | Bad e \<Rightarrow> Err e
      | Crash \<Rightarrow> Panic
      | Got (currKey, currVal, tombstone) rest \<Rightarrow>
          if currKey = key then Ok (currVal, tombstone, True)
          else if bytes_Compare currKey key > 0 then Ok ([], False, False)
          else scan_loop rest key)"
  by pat_completeness auto
termination
  by (relation "measure (\<lambda>(bs, _). length bs)") (auto dest: scan_record_shrinks)

declare scan_loop.simps [simp del]

definition sst_Get :: "sst_env \<Rightarrow> SSTableReader \<Rightarrow> bytes \<Rightarrow> (sst_error, bytes \<times> bool \<times> bool) outcome" where
  "sst_Get env r key =
     (case lumafly_contains (r_bloomFilter r) (Some key) of
        None \<Rightarrow> Panic
      | Some False \<Rightarrow> Ok ([], False, False)
      | Some True \<Rightarrow>
          if r_index r = [] then Ok ([], False, False)
          else let n = length (r_index r);
                   idx = Search (\<lambda>i. bytes_Compare (ie_Key (r_index r ! i)) key > 0) 0 n;
                   startOffset = (if 0 < idx then ie_Offset (r_index r ! (idx - 1)) else 0);
                   endOffset = (if idx < n then ie_Offset (r_index r ! idx) else IndexOffset (r_footer r));
                   scanLen = sint (endOffset - startOffset)
               in if scanLen < 0 \<or> int (e_mem env) < scanLen then Panic
                  else (case r_file r of
                          None \<Rightarrow> Err ErrFile
                        | Some file \<Rightarrow>
                            (case ReadAt env file (sint startOffset) (nat scanLen) of
                               (_, Some ReadFailed) \<Rightarrow> Err ErrFile
                             | (dataBuf, _) \<Rightarrow> scan_loop dataBuf key)))"

text \<open>\<open>Close\<close>: the flag says whether closing the file succeeds.\<close>

definition sst_Close :: "bool \<Rightarrow> SSTableReader \<Rightarrow> SSTableReader \<times> sst_error option" where
  "sst_Close close_ok r =
     (let r1 = r\<lparr>r_bloomFilter := None\<rparr> in
      case r_file r1 of
        None \<Rightarrow> (r1, None)
      | Some _ \<Rightarrow> (r1\<lparr>r_file := None\<rparr>, if close_ok then None else Some ErrFile))"

section \<open>The data block\<close>

text \<open>The entries \<open>(key, value, tombstone)\<close> of a table and the records they are stored as.\<close>

abbreviation entry_record :: "bytes \<times> bytes \<times> bool \<Rightarrow> bytes" where
  "entry_record e \<equiv> record_bytes (fst e) (fst (snd e)) (snd (snd e))"

definition data_block :: "(bytes \<times> bytes \<times> bool) list \<Rightarrow> bytes" where
  "data_block es = concat (map entry_record es)"

abbreviation entry_small :: "bytes \<times> bytes \<times> bool \<Rightarrow> bool" where
  "entry_small e \<equiv> small (fst e) (fst (snd e))"

text \<open>What a lookup reports for an entry of a map.\<close>

definition lookup_result :: "(bytes \<times> bool) option \<Rightarrow> bytes \<times> bool \<times> bool" where
  "lookup_result e = (case e of None \<Rightarrow> ([], False, False) | Some (v, t) \<Rightarrow> (v, t, True))"

lemma data_block_simps [simp]:
  "data_block [] = []" "data_block (e # es) = entry_record e @ data_block es"
  "data_block (es @ fs) = data_block es @ data_block fs"
  by (simp_all add: data_block_def)

lemma data_block_concat: "data_block (concat gs) = concat (map data_block gs)"
  by (induction gs) simp_all

lemma scan_record_eq:
  "scan_record bs =
     (case read_record False bs of
        End \<Rightarrow> End
      | Crash \<Rightarrow> Crash
      | Bad e \<Rightarrow> Bad (case e of ErrCRCMismatch a b \<Rightarrow> ErrCrc a b | _ \<Rightarrow> ErrFile)
      | Got e rest \<Rightarrow> Got (le_Key e, le_Value e, le_Tombstone e) rest)"
  unfolding scan_record_def read_record_def Let_def by (simp split: option.splits prod.splits)

lemma scan_record_ok:
  "small k v \<Longrightarrow> scan_record (record_bytes k v t @ rest) = Got (k, v, t) rest"
  using wal.dec_enc [of "entry_of k v t" rest] by (simp add: scan_record_eq)

lemma scan_loop_ok:
  assumes "\<forall>e \<in> set es. entry_small e" "sorted_keys es"
  shows "scan_loop (data_block es) key = Ok (lookup_result (map_of es key))"
  using assms
proof (induction es)
  case Nil
  then show ?case by (simp add: scan_loop.simps lookup_result_def)
next
  case (Cons e es)
  obtain k v t where e: "e = (k, v, t)" by (cases e)
  have ne: "record_bytes k v t @ data_block es \<noteq> []" by (simp add: record_bytes_def PutUint32_def)
  have later: "map_of es key = None" if "key < k"
    using Cons.prems(2) that e by (auto simp: map_of_eq_None_iff)
  show ?case
    using Cons e ne later
    by (subst scan_loop.simps) (auto simp: scan_record_ok lookup_result_def not_less)
qed

lemma node_record_ok:
  "entry_small (node_entry nd) \<Longrightarrow> node_record nd = Some (entry_record (node_entry nd))"
  using small_lengths [of "n_Key nd" "n_Value nd"]
  by (auto simp: node_record_def Let_def record_bytes_def payload_def word_less_nat_alt)

section \<open>The sparse index\<close>

fun sparse :: "int \<Rightarrow> int \<Rightarrow> nat \<Rightarrow> (bytes \<times> bytes \<times> bool) list \<Rightarrow> (bytes \<times> nat) list" where
  "sparse interval c off [] = []"
| "sparse interval c off (e # es) =
     (if c mod interval = 0 then [(fst e, off)] else [])
       @ sparse interval (c + 1) (off + length (entry_record e)) es"

text \<open>The index of a data block that is cut into groups, one entry for each.\<close>

fun group_index :: "nat \<Rightarrow> (bytes \<times> bytes \<times> bool) list list \<Rightarrow> (bytes \<times> nat) list" where
  "group_index off [] = []"
| "group_index off (g # gs) = (fst (hd g), off) # group_index (off + length (data_block g)) gs"

lemma sparse_groups:
  "\<exists>g gs. es = g @ concat gs \<and> (\<forall>h \<in> set gs. h \<noteq> [])
    \<and> sparse interval c off es = group_index (off + length (data_block g)) gs
    \<and> (c mod interval = 0 \<longrightarrow> g = [])"
proof (induction es arbitrary: c off)
  case Nil
  then show ?case by (intro exI [of _ "[]"]) simp
next
  case (Cons e es)
  obtain g gs where gs: "es = g @ concat gs" "\<forall>h \<in> set gs. h \<noteq> []"
    "sparse interval (c + 1) (off + length (entry_record e)) es
      = group_index (off + length (entry_record e) + length (data_block g)) gs"
    using Cons.IH [of "c + 1" "off + length (entry_record e)"] by blast
  show ?case
  proof (cases "c mod interval = 0")
    case True
    then show ?thesis
      using gs by (intro exI [of _ "[]"] exI [of _ "(e # g) # gs"]) (simp add: add.assoc)
  next
    case False
    then show ?thesis
      using gs by (intro exI [of _ "e # g"] exI [of _ gs]) (simp add: add.assoc)
  qed
qed

lemma length_group_index [simp]: "length (group_index off gs) = length gs"
  by (induction off gs rule: group_index.induct) simp_all

lemma group_index_nth:
  "i < length gs \<Longrightarrow>
   group_index off gs ! i = (fst (hd (gs ! i)), off + length (data_block (concat (take i gs))))"
proof (induction off gs arbitrary: i rule: group_index.induct)
  case (2 off g gs)
  then show ?case by (cases i) auto
qed simp

lemma sparse_offsets: "(k, o') \<in> set (sparse interval c off es) \<Longrightarrow> o' \<le> off + length (data_block es) \<and> k \<in> fst ` set es"
  by (induction interval c off es rule: sparse.induct) (force split: if_splits)+

section \<open>Binary search\<close>

definition splits_at :: "(nat \<Rightarrow> bool) \<Rightarrow> nat \<Rightarrow> nat \<Rightarrow> nat \<Rightarrow> bool" where
  "splits_at f i j r \<longleftrightarrow> i \<le> r \<and> r \<le> j \<and> (\<forall>h. i \<le> h \<and> h < r \<longrightarrow> \<not> f h) \<and> (\<forall>h. r \<le> h \<and> h < j \<longrightarrow> f h)"

lemma splits_at_left:
  assumes "splits_at f i h r" "h \<le> j" "\<And>b. h \<le> b \<Longrightarrow> b < j \<Longrightarrow> f b"
  shows "splits_at f i j r"
  using assms unfolding splits_at_def by (meson le_trans not_le)

lemma splits_at_right:
  assumes "splits_at f (Suc h) j r" "i \<le> h" "\<And>b. i \<le> b \<Longrightarrow> b \<le> h \<Longrightarrow> \<not> f b"
  shows "splits_at f i j r"
  using assms unfolding splits_at_def by (meson Suc_leD le_trans not_less_eq_eq)

text \<open>On a predicate that is upward closed, the search finds where it begins to hold.\<close>

lemma Search_ok:
  assumes "i \<le> j" "\<And>a b. i \<le> a \<Longrightarrow> a \<le> b \<Longrightarrow> b < j \<Longrightarrow> f a \<Longrightarrow> f b"
  shows "splits_at f i j (Search f i j)"
  using assms
proof (induction f i j rule: Search.induct)
  case (1 f i j)
  let ?h = "(i + j) div 2"
  show ?case
  proof (cases "i < j")
    case True
    then have h: "i \<le> ?h" "?h < j" by auto
    show ?thesis
    proof (cases "f ?h")
      case f: True
      have "splits_at f i ?h (Search f i ?h)"
      proof (rule 1(2) [OF True refl])
        show "f b" if "i \<le> a" "a \<le> b" "b < ?h" "f a" for a b
          using that h 1(4) [of a b] by simp
      qed (use f h in auto)
      then have "splits_at f i j (Search f i ?h)"
        by (rule splits_at_left) (use h f in \<open>auto intro: 1(4) [of ?h]\<close>)
      then show ?thesis using True f by (simp add: Search.simps [of f i j] Let_def)
    next
      case f: False
      have "splits_at f (?h + 1) j (Search f (?h + 1) j)"
      proof (rule 1(1) [OF True refl])
        show "f b" if "?h + 1 \<le> a" "a \<le> b" "b < j" "f a" for a b
          using that h 1(4) [of a b] by simp
      qed (use f h in auto)
      then have "splits_at f i j (Search f (?h + 1) j)"
        unfolding Suc_eq_plus1 [symmetric]
        by (rule splits_at_right) (use h f in \<open>auto dest: 1(4) [of _ ?h]\<close>)
      then show ?thesis using True f by (simp add: Search.simps [of f i j] Let_def)
    qed
  next
    case False
    then show ?thesis using 1(3) by (auto simp: Search.simps splits_at_def)
  qed
qed

section \<open>Looking up a key in a well-formed table\<close>

abbreviation index_entry :: "bytes \<times> nat \<Rightarrow> IndexEntry" where
  "index_entry e \<equiv> \<lparr>ie_Key = fst e, ie_Offset = of_nat (snd e)\<rparr>"

text \<open>
  A reader of a table with the sorted entries \<open>concat gs\<close>: the index has an entry for each of the
  groups \<open>gs\<close> the data block is cut into, and the filter knows all keys. \<open>reader_on\<close> says this
  of the metadata only; in \<open>reader_ok\<close> the file begins with the data block.
\<close>

definition reader_on ::
  "sst_env \<Rightarrow> SSTableReader \<Rightarrow> (bytes \<times> bytes \<times> bool) list list \<Rightarrow> bytes \<Rightarrow> bool" where
  "reader_on env r gs F \<longleftrightarrow>
     (\<forall>g \<in> set gs. g \<noteq> []) \<and> sorted_keys (concat gs) \<and> (\<forall>e \<in> set (concat gs). entry_small e)
     \<and> r_file r = Some F \<and> length (data_block (concat gs)) \<le> length F
     \<and> r_index r = map index_entry (group_index 0 gs)
     \<and> IndexOffset (r_footer r) = of_nat (length (data_block (concat gs)))
     \<and> length (data_block (concat gs)) < 2 ^ 63 \<and> length (data_block (concat gs)) \<le> e_mem env
     \<and> (\<forall>off len. \<not> e_bad env off len)
     \<and> (\<exists>filt. r_bloomFilter r = Some filt \<and> (\<forall>key. bloom_has filt key \<noteq> None)
           \<and> (\<forall>e \<in> set (concat gs). bloom_has filt (fst e) = Some True))"

definition reader_ok ::
  "sst_env \<Rightarrow> SSTableReader \<Rightarrow> (bytes \<times> bytes \<times> bool) list list \<Rightarrow> bool" where
  "reader_ok env r gs \<longleftrightarrow> (\<exists>trailer. reader_on env r gs (data_block (concat gs) @ trailer))"

lemma sint_of_nat_u64: "n < 2 ^ 63 \<Longrightarrow> sint (of_nat n :: u64) = int n"
  by (simp add: signed_of_nat signed_take_bit_int_eq_self)

lemma group_head_sorted:
  assumes "sorted_keys (concat gs)" "\<forall>g \<in> set gs. g \<noteq> []" "a < b" "b < length gs"
  shows "fst (hd (gs ! a)) < fst (hd (gs ! b))"
  using assms
proof (induction gs arbitrary: a b)
  case (Cons g gs)
  then obtain b' where b: "b = Suc b'" "b' < length gs" by (cases b) auto
  show ?case
  proof (cases a)
    case 0
    have "hd (gs ! b') \<in> set (concat gs)" using Cons.prems(2) b by (auto intro!: bexI [of _ "gs ! b'"])
    then show ?thesis
      using Cons.prems(1,2) 0 b by (auto simp: sorted_wrt_append dest!: hd_in_set)
  next
    case (Suc a')
    then show ?thesis using Cons b by (auto simp: sorted_wrt_append)
  qed
qed simp

lemma map_of_absent: "(\<And>e. e \<in> set es \<Longrightarrow> fst e \<noteq> key) \<Longrightarrow> map_of es key = None"
  by (auto simp: map_of_eq_None_iff)

lemma sorted_keys_before:
  "sorted_keys (es @ fs) \<Longrightarrow> e \<in> set es \<Longrightarrow> f \<in> set fs \<Longrightarrow> fst e < fst f"
  by (simp add: sorted_wrt_append)

lemma sorted_keys_from_hd: "sorted_keys es \<Longrightarrow> e \<in> set es \<Longrightarrow> fst (hd es) \<le> fst e"
  by (cases es) auto

lemma map_of_before:
  assumes "sorted_keys es" "es \<noteq> [] \<Longrightarrow> key < fst (hd es)"
  shows "map_of es key = None"
proof (rule map_of_absent)
  fix e
  assume e: "e \<in> set es"
  have "es \<noteq> []" using e by auto
  then have "key < fst (hd es)" by (rule assms(2))
  also have "\<dots> \<le> fst e" by (rule sorted_keys_from_hd [OF assms(1) e])
  finally show "fst e \<noteq> key" by simp
qed

text \<open>Only the group before the one where the search ends can hold the key.\<close>

lemma map_of_group:
  assumes "sorted_keys (concat (pre @ g # post))" "\<forall>h \<in> set (pre @ g # post). h \<noteq> []"
    and "fst (hd g) \<le> key" "post \<noteq> [] \<Longrightarrow> key < fst (hd (hd post))"
  shows "map_of (concat (pre @ g # post)) key = map_of g key"
proof -
  have srt: "sorted_keys (concat pre @ g @ concat post)" using assms(1) by simp
  have g: "hd g \<in> set (g @ concat post)" using assms(2) by simp
  have "map_of (concat pre) key = None"
  proof (rule map_of_absent)
    show "fst e \<noteq> key" if "e \<in> set (concat pre)" for e
      using sorted_keys_before [OF srt that g] assms(3) by auto
  qed
  moreover have "map_of (concat post) key = None"
  proof (rule map_of_before)
    show "sorted_keys (concat post)" using srt by (simp add: sorted_wrt_append)
    show "key < fst (hd (concat post))" if ne: "concat post \<noteq> []"
    proof -
      obtain p ps where p: "post = p # ps" using ne by (cases post) auto
      then have "hd (concat post) = hd (hd post)" using assms(2) by (cases p) auto
      then show ?thesis using assms(4) p by simp
    qed
  qed
  ultimately show ?thesis by (simp add: map_add_def split: option.splits)
qed


lemma ReadAt_middle:
  assumes "\<forall>off len. \<not> e_bad env off len"
  shows "ReadAt env (A @ B @ C) (int (length A)) (length B) = (B, None)"
  using assms by (simp add: ReadAt_def Let_def)

lemma scan_range:
  assumes "\<forall>off len. \<not> e_bad env off len" "length (A @ B) < 2 ^ 63" "length (A @ B) \<le> e_mem env"
    and "startOffset = of_nat (length A)" "endOffset = of_nat (length (A @ B))"
  shows "\<not> sint (endOffset - startOffset :: u64) < 0" "\<not> int (e_mem env) < sint (endOffset - startOffset :: u64)"
    "ReadAt env (A @ B @ C) (sint startOffset) (nat (sint (endOffset - startOffset))) = (B, None)"
proof -
  have "endOffset - startOffset = of_nat (length B)" using assms(4,5) by simp
  moreover have "length B < 2 ^ 63" "length A < 2 ^ 63" using assms(2) by simp_all
  ultimately have l: "sint (endOffset - startOffset) = int (length B)" "sint startOffset = int (length A)"
    using assms(4) by (simp_all only: sint_of_nat_u64)
  show "\<not> sint (endOffset - startOffset) < 0" "\<not> int (e_mem env) < sint (endOffset - startOffset)"
    using l(1) assms(3) by simp_all
  show "ReadAt env (A @ B @ C) (sint startOffset) (nat (sint (endOffset - startOffset))) = (B, None)"
    using ReadAt_middle [OF assms(1)] by (simp add: l)
qed

text \<open>The range that a search for the key selects: the group before the end of the search.\<close>

lemma search_groups:
  assumes "\<forall>g \<in> set gs. g \<noteq> []" "sorted_keys (concat gs)"
  obtains idx where
    "Search (\<lambda>i. bytes_Compare (ie_Key (map index_entry (group_index 0 gs) ! i)) key > 0) 0 (length gs) = idx"
    "idx \<le> length gs"
    "idx < length gs \<longrightarrow> key < fst (hd (gs ! idx))" "0 < idx \<longrightarrow> fst (hd (gs ! (idx - 1))) \<le> key"
proof -
  let ?f = "\<lambda>i. bytes_Compare (ie_Key (map index_entry (group_index 0 gs) ! i)) key > 0"
  have f: "?f i \<longleftrightarrow> key < fst (hd (gs ! i))" if "i < length gs" for i
    using that by (simp add: group_index_nth)
  have "splits_at ?f 0 (length gs) (Search ?f 0 (length gs))"
  proof (rule Search_ok)
    fix a b
    assume ab: "a \<le> b" "b < length gs" "?f a"
    show "?f b"
    proof (cases "a = b")
      case False
      then have "fst (hd (gs ! a)) < fst (hd (gs ! b))"
        using group_head_sorted [OF assms(2,1)] ab by simp
      then show ?thesis using ab f [of a] f [of b] by simp
    qed (use ab in simp)
  qed simp
  then have r: "Search ?f 0 (length gs) \<le> length gs"
    "\<And>h. h < Search ?f 0 (length gs) \<Longrightarrow> \<not> ?f h"
    "\<And>h. Search ?f 0 (length gs) \<le> h \<Longrightarrow> h < length gs \<Longrightarrow> ?f h"
    unfolding splits_at_def by blast+
  show ?thesis
  proof (rule that [of "Search ?f 0 (length gs)"])
    show "Search ?f 0 (length gs) < length gs \<longrightarrow> key < fst (hd (gs ! Search ?f 0 (length gs)))"
      using r(3) [OF order_refl] f by blast
    show "0 < Search ?f 0 (length gs) \<longrightarrow> fst (hd (gs ! (Search ?f 0 (length gs) - 1))) \<le> key"
    proof
      assume "0 < Search ?f 0 (length gs)"
      then have "Search ?f 0 (length gs) - 1 < Search ?f 0 (length gs)"
        "Search ?f 0 (length gs) - 1 < length gs" using r(1) by linarith+
      from r(2) [OF this(1)] f [OF this(2)] show "fst (hd (gs ! (Search ?f 0 (length gs) - 1))) \<le> key"
        by (simp only: not_less)
    qed
  qed (use r(1) in blast)+
qed

lemma hd_concat: "gs \<noteq> [] \<Longrightarrow> hd gs \<noteq> [] \<Longrightarrow> hd (concat gs) = hd (hd gs)"
  by (cases gs) auto

lemma map_of_range:
  assumes ne: "\<forall>g \<in> set gs. g \<noteq> []" and srt: "sorted_keys (concat gs)" and i: "i \<le> length gs"
    and above: "i < length gs \<Longrightarrow> key < fst (hd (gs ! i))"
    and below: "0 < i \<Longrightarrow> fst (hd (gs ! (i - 1))) \<le> key"
  shows "map_of (concat (drop (i - 1) (take i gs))) key = map_of (concat gs) key"
proof (cases i)
  case 0
  have "map_of (concat gs) key = None"
  proof (rule map_of_before [OF srt])
    assume "concat gs \<noteq> []"
    then have "gs \<noteq> []" by auto
    moreover from this have "hd gs \<noteq> []" using ne by simp
    ultimately show "key < fst (hd (concat gs))"
      using above 0 by (simp add: hd_concat hd_conv_nth)
  qed
  then show ?thesis using 0 by simp
next
  case (Suc j)
  then have j: "j < length gs" using i by simp
  let ?pre = "take j gs" and ?post = "drop (Suc j) gs"
  have gs: "?pre @ gs ! j # ?post = gs" using id_take_nth_drop [OF j] by simp
  have "map_of (concat (?pre @ gs ! j # ?post)) key = map_of (gs ! j) key"
  proof (rule map_of_group)
    show "key < fst (hd (hd ?post))" if "?post \<noteq> []"
      using above Suc that by (simp add: hd_drop_conv_nth)
  qed (use ne srt below Suc in \<open>simp_all add: gs\<close>)
  then show ?thesis using Suc j by (simp add: gs take_Suc_conv_app_nth)
qed

lemma range_blocks:
  assumes "i \<le> length gs"
  shows "concat gs = concat (take (i - 1) gs) @ concat (drop (i - 1) (take i gs)) @ concat (drop i gs)"
    "concat (take i gs) = concat (take (i - 1) gs) @ concat (drop (i - 1) (take i gs))"
proof -
  have t: "take i gs = take (i - 1) gs @ drop (i - 1) (take i gs)"
    using append_take_drop_id [of "i - 1" "take i gs"] by (simp add: min_def split: if_splits)
  then show "concat (take i gs) = concat (take (i - 1) gs) @ concat (drop (i - 1) (take i gs))"
    by (metis concat_append)
  then show "concat gs = concat (take (i - 1) gs) @ concat (drop (i - 1) (take i gs)) @ concat (drop i gs)"
    by (metis append.assoc append_take_drop_id concat_append)
qed

lemma sst_Get_read:
  assumes "lumafly_contains (r_bloomFilter r) (Some key) = Some True" "r_index r \<noteq> []"
    and "Search (\<lambda>i. bytes_Compare (ie_Key (r_index r ! i)) key > 0) 0 (length (r_index r)) = i"
    and s: "(if 0 < i then ie_Offset (r_index r ! (i - 1)) else 0) = start"
    and e: "(if i < length (r_index r) then ie_Offset (r_index r ! i) else IndexOffset (r_footer r)) = fin"
    and len: "\<not> sint (fin - start) < 0" "\<not> int (e_mem env) < sint (fin - start)"
    and "r_file r = Some file'" "ReadAt env file' (sint start) (nat (sint (fin - start))) = (B, None)"
  shows "sst_Get env r key = scan_loop B key"
  unfolding sst_Get_def Let_def assms(1,3) s e using assms(2,8,9) len by simp

text \<open>A lookup past the filter reads the group the key belongs to and scans it.\<close>

lemma sst_Get_scan:
  assumes r: "reader_on env r gs F" and gs: "gs \<noteq> []"
    and has: "lumafly_contains (r_bloomFilter r) (Some key) = Some True"
  shows "\<exists>i. i \<le> length gs \<and> (i < length gs \<longrightarrow> key < fst (hd (gs ! i)))
    \<and> (0 < i \<longrightarrow> fst (hd (gs ! (i - 1))) \<le> key)
    \<and> sst_Get env r key = scan_loop (take (length (data_block (concat (drop (i - 1) (take i gs)))))
        (drop (length (data_block (concat (take (i - 1) gs)))) F)) key"
proof -
  have ne: "\<forall>g \<in> set gs. g \<noteq> []" and srt: "sorted_keys (concat gs)"
    and idx: "r_index r = map index_entry (group_index 0 gs)"
    and io: "IndexOffset (r_footer r) = of_nat (length (data_block (concat gs)))"
    and len: "length (data_block (concat gs)) < 2 ^ 63" "length (data_block (concat gs)) \<le> e_mem env"
      "length (data_block (concat gs)) \<le> length F"
    and good: "\<forall>off len. \<not> e_bad env off len" and fl: "r_file r = Some F"
    using r unfolding reader_on_def by blast+
  obtain i where i: "Search (\<lambda>i. bytes_Compare (ie_Key (map index_entry (group_index 0 gs) ! i)) key > 0)
      0 (length gs) = i"
    "i \<le> length gs" "i < length gs \<longrightarrow> key < fst (hd (gs ! i))" "0 < i \<longrightarrow> fst (hd (gs ! (i - 1))) \<le> key"
    by (rule search_groups [OF ne srt, of key])
  let ?a = "length (data_block (concat (take (i - 1) gs)))"
  let ?b = "length (data_block (concat (drop (i - 1) (take i gs))))"
  let ?A = "take ?a F" and ?B = "take ?b (drop ?a F)" and ?C = "drop ?b (drop ?a F)"
  have ab: "?a + ?b = length (data_block (concat (take i gs)))"
    by (subst range_blocks(2) [OF i(2)]) simp
  have le: "?a + ?b \<le> length (data_block (concat gs))"
    by (subst range_blocks(1) [OF i(2)]) simp
  have abl: "length ?A = ?a" "length (?A @ ?B) = ?a + ?b" using le len(3) by simp_all
  have abc: "r_file r = Some (?A @ ?B @ ?C)" by (simp only: fl append_take_drop_id)
  have s: "(if 0 < i then ie_Offset (r_index r ! (i - 1)) else 0) = of_nat (length ?A)"
    unfolding abl using i(2) by (auto simp: idx group_index_nth)
  have e: "(if i < length gs then ie_Offset (r_index r ! i) else IndexOffset (r_footer r))
      = of_nat (length (?A @ ?B))"
    unfolding abl ab using i(2) by (auto simp: idx io group_index_nth)
  have bound: "length (?A @ ?B) < 2 ^ 63" "length (?A @ ?B) \<le> e_mem env"
    unfolding abl using len le by linarith+
  have n: "length (r_index r) = length gs" by (simp add: idx)
  moreover from this have "r_index r \<noteq> []" using gs by auto
  ultimately have "sst_Get env r key = scan_loop ?B key"
    using i(1) s e scan_range(1,2) [OF good bound s e] abc scan_range(3) [OF good bound s e]
    by (intro sst_Get_read [OF has, of i]) (simp_all only: n idx [symmetric] if_cancel not_False_eq_True)
  then show ?thesis using i(2,3,4) by blast
qed

lemma sst_Get_ok:
  assumes "reader_ok env r gs"
  shows "sst_Get env r key = Ok (lookup_result (map_of (concat gs) key))"
proof -
  obtain trailer where r: "reader_on env r gs (data_block (concat gs) @ trailer)"
    using assms unfolding reader_ok_def by blast
  then have ne: "\<forall>g \<in> set gs. g \<noteq> []" and srt: "sorted_keys (concat gs)"
    and sm: "\<forall>e \<in> set (concat gs). entry_small e"
    and idx: "r_index r = map index_entry (group_index 0 gs)"
    unfolding reader_on_def by blast+
  obtain filt b where filt: "r_bloomFilter r = Some filt" "bloom_has filt key = Some b"
    "\<forall>e \<in> set (concat gs). bloom_has filt (fst e) = Some True"
    using r unfolding reader_on_def by blast
  show ?thesis
  proof (cases "b \<and> gs \<noteq> []")
    case False
    have "map_of (concat gs) key = None"
    proof (rule map_of_absent)
      show "fst e \<noteq> key" if "e \<in> set (concat gs)" for e
        using False filt(2) bspec [OF filt(3) that] that by (cases "gs = []") auto
    qed
    then show ?thesis
      using False filt(1,2) idx by (cases b) (auto simp: sst_Get_def lookup_result_def)
  next
    case True
    have gs: "gs \<noteq> []" and has: "lumafly_contains (r_bloomFilter r) (Some key) = Some True"
      using True filt by simp_all
    obtain i where i: "i \<le> length gs" "i < length gs \<Longrightarrow> key < fst (hd (gs ! i))"
      "0 < i \<Longrightarrow> fst (hd (gs ! (i - 1))) \<le> key"
      "sst_Get env r key = scan_loop (take (length (data_block (concat (drop (i - 1) (take i gs)))))
        (drop (length (data_block (concat (take (i - 1) gs)))) (data_block (concat gs) @ trailer))) key"
      using sst_Get_scan [OF r gs has] by blast
    have "data_block (concat gs) @ trailer = data_block (concat (take (i - 1) gs))
        @ data_block (concat (drop (i - 1) (take i gs))) @ data_block (concat (drop i gs)) @ trailer"
      by (subst range_blocks(1) [OF i(1)]) simp
    then have "sst_Get env r key = scan_loop (data_block (concat (drop (i - 1) (take i gs)))) key"
      unfolding i(4) by simp
    moreover have "sorted_keys (concat (drop (i - 1) (take i gs)))"
      using srt by (subst (asm) range_blocks(1) [OF i(1)]) (simp add: sorted_wrt_append)
    moreover have "\<forall>e \<in> set (concat (drop (i - 1) (take i gs))). entry_small e"
      using sm by (subst (asm) range_blocks(1) [OF i(1)]) simp
    ultimately show ?thesis
      by (simp only: scan_loop_ok map_of_range [OF ne srt i(1-3)])
  qed
qed

section \<open>Building a table\<close>

text \<open>What is asked of the operating system for a table of \<open>n\<close> bytes.\<close>

definition healthy :: "sst_env \<Rightarrow> nat \<Rightarrow> bool" where
  "healthy env n \<longleftrightarrow> e_create env \<and> e_sync env \<and> e_open env \<and> e_stat env
     \<and> (\<forall>off len. \<not> e_bad env off len) \<and> (\<forall>c. e_cap env = Some c \<longrightarrow> n \<le> c)
     \<and> n \<le> e_mem env \<and> n < 2 ^ 63"

text \<open>The bytes of the table with the given entries, index and filter.\<close>

definition table_footer :: "(bytes \<times> bytes \<times> bool) list \<Rightarrow> IndexEntry list \<Rightarrow> LumaflyBloom \<Rightarrow> Footer" where
  "table_footer es index filt =
     \<lparr>IndexOffset = of_nat (length (data_block es)),
      IndexLen = of_nat (length (concat (map index_bytes index))),
      FilterOffset = of_nat (length (data_block es) + length (concat (map index_bytes index))),
      FilterLen = of_nat (length (bloom_bytes filt))\<rparr>"

definition table_bytes :: "(bytes \<times> bytes \<times> bool) list \<Rightarrow> IndexEntry list \<Rightarrow> LumaflyBloom \<Rightarrow> bytes" where
  "table_bytes es index filt =
     data_block es @ concat (map index_bytes index) @ bloom_bytes filt
       @ footer_bytes (table_footer es index filt)"

definition table_index :: "int \<Rightarrow> (bytes \<times> bytes \<times> bool) list \<Rightarrow> IndexEntry list" where
  "table_index interval es = map index_entry (sparse interval 0 0 es)"

lemma fwrite_ok:
  "\<forall>c. cap = Some c \<longrightarrow> length buf + length out \<le> c \<Longrightarrow> fwrite cap buf out = (buf @ out, True)"
  by (auto simp: fwrite_def split: option.splits)

lemma write_nodes_ok:
  assumes "\<forall>nd \<in> set nodes. entry_small (node_entry nd)" "bloom_fits (b_filter b)"
    and "\<forall>c. cap = Some c \<longrightarrow> length (b_file b) + length (data_block (map node_entry nodes)) \<le> c"
    and "b_offset b = of_nat off"
  shows "\<exists>filt. add_all bloom_add (b_filter b) (map n_Key nodes) = Some filt
    \<and> write_nodes cap interval nodes b =
        Ok \<lparr>b_file = b_file b @ data_block (map node_entry nodes), b_filter = filt,
            b_index = b_index b @ map index_entry (sparse interval (b_count b) off (map node_entry nodes)),
            b_offset = of_nat (off + length (data_block (map node_entry nodes))),
            b_count = b_count b + int (length nodes)\<rparr>"
  using assms
proof (induction nodes arbitrary: b off)
  case Nil
  then show ?case by simp
next
  case (Cons nd nodes)
  let ?rec = "entry_record (node_entry nd)"
  obtain f where f: "bloom_add (b_filter b) (n_Key nd) = Some f" "bloom_fits f"
    using bloom.add_ok [OF Cons.prems(2)] by blast
  then have add: "lumafly_add (Some (b_filter b)) (Some (n_Key nd)) = Some (Some f)"
    by (auto simp: bloom_add_def split: option.splits)
  have rec: "node_record nd = Some ?rec" using Cons.prems(1) by (simp add: node_record_ok)
  have w: "fwrite cap (b_file b) ?rec = (b_file b @ ?rec, True)"
    using Cons.prems(3) by (intro fwrite_ok) auto
  let ?b = "\<lparr>b_file = b_file b @ ?rec, b_filter = f,
    b_index = (if b_count b mod interval = 0 then b_index b @ [\<lparr>ie_Key = n_Key nd, ie_Offset = b_offset b\<rparr>]
      else b_index b),
    b_offset = b_offset b + of_nat (length ?rec), b_count = b_count b + 1\<rparr>"
  have "\<forall>nd \<in> set nodes. entry_small (node_entry nd)" "bloom_fits (b_filter ?b)"
    "\<forall>c. cap = Some c \<longrightarrow> length (b_file ?b) + length (data_block (map node_entry nodes)) \<le> c"
    "b_offset ?b = of_nat (off + length ?rec)"
    using Cons.prems f(2) by auto
  from Cons.IH [OF this] obtain filt where filt: "add_all bloom_add f (map n_Key nodes) = Some filt"
    "write_nodes cap interval nodes ?b =
        Ok \<lparr>b_file = b_file ?b @ data_block (map node_entry nodes), b_filter = filt,
            b_index = b_index ?b @ map index_entry (sparse interval (b_count ?b) (off + length ?rec) (map node_entry nodes)),
            b_offset = of_nat (off + length ?rec + length (data_block (map node_entry nodes))),
            b_count = b_count ?b + int (length nodes)\<rparr>"
    unfolding build_state.simps by blast
  have "write_nodes cap interval (nd # nodes) b = write_nodes cap interval nodes ?b"
    using add rec w by (simp add: Let_def)
  then show ?case
    using f(1) filt Cons.prems(4) by (intro exI [of _ filt]) (simp add: add.assoc)
qed

lemma footer_of_bytes [simp]: "footer_of (footer_bytes f) = f"
  by (simp add: footer_of_def footer_bytes_def)

lemma length_footer_bytes [simp]: "length (footer_bytes f) = 32"
  by (simp add: footer_bytes_def)

lemma length_index_bytes [simp]: "length (index_bytes ie) = 12 + length (ie_Key ie)"
  by (simp add: index_bytes_def)

lemma parse_index_ok:
  "\<forall>ie \<in> set index. length (ie_Key ie) < 2 ^ 32 \<Longrightarrow>
   parse_index (concat (map index_bytes index)) acc = Some (acc @ index)"
proof (induction index arbitrary: acc)
  case Nil
  then show ?case by (simp add: parse_index.simps readFull_def)
next
  case (Cons ie index)
  have "unat (of_nat (length (ie_Key ie)) :: u32) = length (ie_Key ie)"
    using Cons.prems by (simp add: unat_of_nat_u32)
  moreover have "readFull 4 (PutUint32 l @ rest) = Some (PutUint32 l, rest)" for l rest
    using readFull_append [of "PutUint32 l" 4 rest] by simp
  moreover have "readFull 8 (PutUint64 l @ rest) = Some (PutUint64 l, rest)" for l rest
    using readFull_append [of "PutUint64 l" 8 rest] by simp
  ultimately show ?case
    using Cons by (subst parse_index.simps) (simp add: index_bytes_def [of ie] readFull_append)
qed

lemma write_trailer_ok:
  assumes "bloom_fits filt" "b_file b = data_block es" "b_filter b = filt" "b_index b = index"
    and "b_offset b = of_nat (length (data_block es))"
    and cap: "\<forall>c. cap = Some c \<longrightarrow> length (table_bytes es index filt) \<le> c"
  shows "write_trailer cap b = Ok (table_bytes es index filt)"
proof -
  let ?ix = "concat (map index_bytes index)"
  let ?f1 = "data_block es @ ?ix"
  let ?f2 = "?f1 @ bloom_bytes filt"
  note ser = serialize_eq(1,2) [OF assms(1)]
    serialize_eq(3) [OF assms(1), of "replicate (length (bloom_bytes filt)) 0"]
  have size: "length (table_bytes es index filt) = length ?f2 + 32"
    by (simp add: table_bytes_def)
  have w1: "fwrite cap (data_block es) ?ix = (?f1, True)"
    and w2: "fwrite cap ?f1 (bloom_bytes filt) = (?f2, True)"
    and w3: "fwrite cap ?f2 (footer_bytes f) = (?f2 @ footer_bytes f, True)" for f
    using cap size by (fastforce intro!: fwrite_ok)+
  have nz: "(of_nat (length (bloom_bytes filt)) :: u64) \<noteq> 0"
    using ser(1,2) by (metis add_is_0 bloom_bytes_length unat_0 zero_neq_numeral)
  have foot: "\<lparr>IndexOffset = b_offset b, IndexLen = of_nat (length ?ix),
      FilterOffset = b_offset b + of_nat (length ?ix), FilterLen = of_nat (length (bloom_bytes filt))\<rparr>
      = table_footer es index filt"
    by (simp add: table_footer_def assms(5))
  have "replicate (length (bloom_bytes filt)) (0 :: byte) \<noteq> []" by simp
  then show ?thesis
    unfolding write_trailer_def Let_def assms(2-4) w1 ser(2)
    using ser(3) nz foot w2 w3 by (simp add: ser(1) table_bytes_def del: bloom_bytes_length)
qed

lemma ReadAt_at:
  assumes "\<forall>off len. \<not> e_bad env off len" "whole = A @ B @ C" "off = int (length A)" "len = length B"
  shows "ReadAt env whole off len = (B, None)"
  unfolding assms(2-4) by (rule ReadAt_middle [OF assms(1)])

lemma OpenSSTable_ok:
  assumes h: "healthy env (length (table_bytes es index filt))" and filt: "bloom_fits filt"
    and keys: "\<forall>ie \<in> set index. length (ie_Key ie) < 2 ^ 32"
  shows "OpenSSTable env (fs(name \<mapsto> table_bytes es index filt)) name =
    Ok \<lparr>r_file = Some (table_bytes es index filt), r_filename = name,
        r_footer = table_footer es index filt, r_index = index, r_bloomFilter = Some filt\<rparr>"
proof -
  let ?t = "table_bytes es index filt" and ?ix = "concat (map index_bytes index)"
  let ?foot = "table_footer es index filt"
  have good: "\<forall>off len. \<not> e_bad env off len" using h by (simp add: healthy_def)
  have len: "length ?t = length (data_block es) + length ?ix + length (bloom_bytes filt) + 32"
    by (simp add: table_bytes_def)
  have small: "length (data_block es) < 2 ^ 63" "length ?ix < 2 ^ 63" "length (bloom_bytes filt) < 2 ^ 63"
    "length (data_block es) + length ?ix < 2 ^ 63" "length ?ix \<le> e_mem env"
    "length (bloom_bytes filt) \<le> e_mem env"
    using h len unfolding healthy_def by linarith+
  have foot: "unat (IndexLen ?foot) = length ?ix" "unat (FilterLen ?foot) = length (bloom_bytes filt)"
    "sint (IndexOffset ?foot) = int (length (data_block es))"
    "sint (FilterOffset ?foot) = int (length (data_block es @ ?ix))"
    using small sint_of_nat_u64 [OF small(1)] sint_of_nat_u64 [OF small(4)]
    by (simp_all add: table_footer_def unat_of_nat_u64 del: bloom_bytes_length of_nat_add)
  have r1: "ReadAt env ?t (int (length ?t) - 32) 32 = (footer_bytes ?foot, None)"
    by (rule ReadAt_at [OF good, of _ "data_block es @ ?ix @ bloom_bytes filt" _ "[]"])
      (simp_all add: table_bytes_def)
  have r2: "ReadAt env ?t (sint (IndexOffset ?foot)) (unat (IndexLen ?foot)) = (?ix, None)"
    by (rule ReadAt_at [OF good, of _ "data_block es" _ "bloom_bytes filt @ footer_bytes ?foot"])
      (simp_all add: table_bytes_def foot)
  have r3: "ReadAt env ?t (sint (FilterOffset ?foot)) (unat (FilterLen ?foot)) = (bloom_bytes filt, None)"
    by (rule ReadAt_at [OF good, of _ "data_block es @ ?ix" _ "footer_bytes ?foot"])
      (simp_all add: table_bytes_def foot del: bloom_bytes_length)
  have ne: "bloom_bytes filt \<noteq> []"
    using bloom_bytes_length [of filt] by (metis add_is_0 list.size(3) zero_neq_numeral)
  have "\<not> length ?t < 32" by (simp add: len)
  then show ?thesis
    using h small(5,6) ne
    by (simp add: OpenSSTable_def healthy_def r1 Let_def foot(1,2) r2 [unfolded foot(1)]
        parse_index_ok [OF keys, of "[]", simplified] r3 [unfolded foot(2)] deserialize_bytes [OF filt]
        del: bloom_bytes_length)
qed

text \<open>The options after the defaults were filled in, and the filter a table starts with.\<close>

definition interval_of :: "SSTableOptions \<Rightarrow> int" where
  "interval_of opts = (if SparseInterval opts \<le> 0 then 8 else SparseInterval opts)"

definition start_filter :: "sst_env \<Rightarrow> int \<Rightarrow> SSTableOptions \<Rightarrow> LumaflyBloom" where
  "start_filter env n opts =
     lumafly_create (e_math env) (of_int n) (if FPRate opts \<le> 0 then 1 / 10000 else FPRate opts)"

text \<open>The size of the table that is built from the entries.\<close>

definition table_size :: "sst_env \<Rightarrow> int \<Rightarrow> SSTableOptions \<Rightarrow> (bytes \<times> bytes \<times> bool) list \<Rightarrow> nat" where
  "table_size env n opts es =
     length (table_bytes es (table_index (interval_of opts) es) (start_filter env n opts))"

lemma table_bytes_length:
  "length (bloom_bytes f) = length (bloom_bytes g) \<Longrightarrow>
   length (table_bytes es index f) = length (table_bytes es index g)"
  by (simp add: table_bytes_def)

lemma table_index_keys:
  assumes "\<forall>e \<in> set es. entry_small e"
  shows "\<forall>ie \<in> set (table_index k es). length (ie_Key ie) < 2 ^ 32"
proof
  fix ie
  assume "ie \<in> set (table_index k es)"
  then obtain e where "e \<in> set es" "ie_Key ie = fst e"
    by (auto simp: table_index_def dest!: sparse_offsets)
  with assms show "length (ie_Key ie) < 2 ^ 32" by (force simp: small_def)
qed

lemma BuildSSTable_ok:
  assumes nodes: "iterate heap iter = Some nodes" and es: "es = map node_entry nodes"
    and sm: "\<forall>e \<in> set es. entry_small e" and f0: "bloom_fits (start_filter env n opts)"
    and h: "healthy env (table_size env n opts es)"
  shows "\<exists>filt. bloom_fits filt \<and> (\<forall>e \<in> set es. bloom_has filt (fst e) = Some True)
    \<and> length (table_bytes es (table_index (interval_of opts) es) filt) = table_size env n opts es
    \<and> BuildSSTable env fs name heap iter n opts =
        Ok (fs(name \<mapsto> table_bytes es (table_index (interval_of opts) es) filt),
            \<lparr>r_file = Some (table_bytes es (table_index (interval_of opts) es) filt), r_filename = name,
             r_footer = table_footer es (table_index (interval_of opts) es) filt,
             r_index = table_index (interval_of opts) es, r_bloomFilter = Some filt\<rparr>)"
proof -
  let ?k = "interval_of opts" and ?f0 = "start_filter env n opts"
  let ?ix = "table_index ?k es"
  let ?b0 = "\<lparr>b_file = [], b_filter = ?f0, b_index = [], b_offset = 0, b_count = 0\<rparr>"
  have small_nodes: "\<forall>nd \<in> set nodes. entry_small (node_entry nd)" using sm es by auto
  have cap: "\<forall>c. e_cap env = Some c \<longrightarrow> table_size env n opts es \<le> c" using h by (simp add: healthy_def)
  then have cap0: "\<forall>c. e_cap env = Some c \<longrightarrow> length (b_file ?b0) + length (data_block (map node_entry nodes)) \<le> c"
    unfolding es by (auto simp: table_size_def table_bytes_def)
  obtain filt where filt: "add_all bloom_add ?f0 (map n_Key nodes) = Some filt"
    and w: "write_nodes (e_cap env) ?k nodes ?b0 =
      Ok \<lparr>b_file = data_block es, b_filter = filt, b_index = ?ix,
          b_offset = of_nat (length (data_block es)), b_count = int (length nodes)\<rparr>"
    using write_nodes_ok [OF small_nodes, of ?b0 "e_cap env" 0 ?k] f0 cap0
    by (auto simp: es table_index_def)
  have ff: "bloom_fits filt" "\<forall>key \<in> set (map n_Key nodes). bloom_has filt key = Some True"
    "length (bloom_bytes filt) = length (bloom_bytes ?f0)"
    using bloom.add_all_ok [OF f0, of "map n_Key nodes"] filt by auto
  let ?t = "table_bytes es ?ix filt"
  have size: "length ?t = table_size env n opts es"
    unfolding table_size_def by (rule table_bytes_length [OF ff(3)])
  have tr: "write_trailer (e_cap env) \<lparr>b_file = data_block es, b_filter = filt, b_index = ?ix,
      b_offset = of_nat (length (data_block es)), b_count = int (length nodes)\<rparr> = Ok ?t"
    using cap size by (intro write_trailer_ok [OF ff(1)]) simp_all
  have op: "OpenSSTable env (fs(name \<mapsto> ?t)) name = Ok \<lparr>r_file = Some ?t, r_filename = name,
      r_footer = table_footer es ?ix filt, r_index = ?ix, r_bloomFilter = Some filt\<rparr>"
    using h size by (intro OpenSSTable_ok [OF _ ff(1) table_index_keys [OF sm]]) simp
  have "BuildSSTable env fs name heap iter n opts = Ok (fs(name \<mapsto> ?t), \<lparr>r_file = Some ?t,
      r_filename = name, r_footer = table_footer es ?ix filt, r_index = ?ix, r_bloomFilter = Some filt\<rparr>)"
    using h w tr op
    by (auto simp: BuildSSTable_def Let_def nodes healthy_def interval_of_def start_filter_def)
  moreover have "\<forall>e \<in> set es. bloom_has filt (fst e) = Some True" using ff(2) es by auto
  ultimately show ?thesis using ff(1) size by blast
qed

lemma built_reader_ok:
  assumes sm: "\<forall>e \<in> set es. entry_small e" and srt: "sorted_keys es"
    and filt: "bloom_fits filt" "\<forall>e \<in> set es. bloom_has filt (fst e) = Some True"
    and h: "healthy env (length (table_bytes es (table_index k es) filt))"
  shows "\<exists>gs. concat gs = es \<and> reader_ok env
    \<lparr>r_file = Some (table_bytes es (table_index k es) filt), r_filename = name,
     r_footer = table_footer es (table_index k es) filt, r_index = table_index k es,
     r_bloomFilter = Some filt\<rparr> gs"
proof -
  obtain gs where gs: "es = concat gs" "\<forall>g \<in> set gs. g \<noteq> []" "sparse k 0 0 es = group_index 0 gs"
    using sparse_groups [of es k 0 0] by auto
  have "length (data_block es) \<le> length (table_bytes es (table_index k es) filt)"
    by (simp add: table_bytes_def)
  then have "length (data_block es) < 2 ^ 63" "length (data_block es) \<le> e_mem env"
    using h unfolding healthy_def by linarith+
  moreover have "\<forall>off len. \<not> e_bad env off len" using h by (simp add: healthy_def)
  moreover have "table_bytes es (table_index k es) filt = data_block es
      @ concat (map index_bytes (table_index k es)) @ bloom_bytes filt
      @ footer_bytes (table_footer es (table_index k es) filt)"
    by (simp add: table_bytes_def)
  ultimately show ?thesis
    using gs sm srt filt(2) bloom.has_total [OF filt(1)]
    by (intro exI [of _ gs]) (auto simp: reader_ok_def reader_on_def table_index_def table_footer_def)
qed

section \<open>Bit rot\<close>

lemma scan_loop_skip:
  "\<forall>e \<in> set es. entry_small e \<and> fst e < key \<Longrightarrow> scan_loop (data_block es @ rest) key = scan_loop rest key"
proof (induction es)
  case (Cons e es)
  obtain k v t where e: "e = (k, v, t)" by (cases e)
  have "record_bytes k v t @ data_block es @ rest \<noteq> []" by (simp add: record_bytes_def PutUint32_def)
  with Cons e show ?case by (subst scan_loop.simps) (auto simp: scan_record_ok)
qed simp

lemma scan_loop_bad: "bs \<noteq> [] \<Longrightarrow> scan_record bs = Bad e \<Longrightarrow> scan_loop bs key = Err e"
  by (simp add: scan_loop.simps)

text \<open>The place of a key among sorted entries is unique.\<close>

lemma sorted_place:
  assumes "sorted_keys (es @ e # fs)" "es @ e # fs = es' @ e' # fs'" "fst e = fst e'"
  shows "es = es' \<and> e = e' \<and> fs = fs'"
proof -
  have d: "distinct (map fst (es @ e # fs))" using assms(1) by (simp only: strict_sorted_iff)
  have "e' \<in> set (es @ e # fs)" using assms(2) by simp
  moreover have "e \<in> set (es @ e # fs)" by simp
  ultimately have ee: "e = e'" using d assms(3) by (metis eq_key_imp_eq_value prod.collapse)
  have "e \<notin> set es" "e \<notin> set fs" using d by auto
  then show ?thesis using append_Cons_eq_iff [of e es fs es' fs'] assms(2) ee by blast
qed

lemma sst_Get_damaged:
  assumes r: "reader_on env r gs F" and es: "concat gs = es @ (key, v, t) # fs"
    and F: "F = data_block es @ damaged @ rest" "length damaged = length (record_bytes key v t)"
    and bad: "\<And>more. \<exists>c crc. scan_record (damaged @ more) = Bad (ErrCrc c crc)"
  shows "\<exists>c crc. sst_Get env r key = Err (ErrCrc c crc)"
proof -
  have ne: "\<forall>g \<in> set gs. g \<noteq> []" and srt: "sorted_keys (concat gs)"
    and sm: "\<forall>e \<in> set (concat gs). entry_small e"
    using r unfolding reader_on_def by blast+
  have gs: "gs \<noteq> []" using es by auto
  have "lumafly_contains (r_bloomFilter r) (Some key) = Some True"
    using r es unfolding reader_on_def by auto
  from sst_Get_scan [OF r gs this] obtain i where i: "i \<le> length gs"
    "i < length gs \<Longrightarrow> key < fst (hd (gs ! i))" "0 < i \<Longrightarrow> fst (hd (gs ! (i - 1))) \<le> key"
    "sst_Get env r key = scan_loop (take (length (data_block (concat (drop (i - 1) (take i gs)))))
      (drop (length (data_block (concat (take (i - 1) gs)))) F)) key"
    by blast
  let ?A = "concat (take (i - 1) gs)" and ?B = "concat (drop (i - 1) (take i gs))"
  have "map_of (concat gs) key \<noteq> None" by (simp add: es map_of_eq_None_iff)
  then have "map_of ?B key \<noteq> None" by (simp only: map_of_range [OF ne srt i(1-3)] not_False_eq_True)
  then obtain x where "(key, x) \<in> set ?B" by (metis map_of_SomeD not_Some_eq)
  then obtain p q where pq: "?B = p @ (key, x) # q" by (meson split_list)
  have "(?A @ p) @ (key, x) # q @ concat (drop i gs) = es @ (key, v, t) # fs"
    using range_blocks(1) [OF i(1)] es unfolding pq by simp
  moreover have "sorted_keys ((?A @ p) @ (key, x) # q @ concat (drop i gs))"
    using srt unfolding calculation es .
  ultimately have split: "?A @ p = es" "x = (v, t)" using sorted_place by (metis prod.inject fst_conv)+
  have before: "\<forall>e \<in> set p. entry_small e \<and> fst e < key"
  proof
    fix e
    assume "e \<in> set p"
    then have "e \<in> set es" using split(1) by auto
    then show "entry_small e \<and> fst e < key" using srt sm unfolding es by (auto simp: sorted_wrt_append)
  qed
  have "take (length (data_block ?B)) (drop (length (data_block ?A)) F)
      = data_block p @ damaged @ take (length (data_block q)) rest"
    unfolding F(1) pq split(1) [symmetric] using F(2) by (simp add: split(2))
  moreover have "damaged \<noteq> []" using F(2) by auto
  moreover obtain c crc where "scan_record (damaged @ take (length (data_block q)) rest) = Bad (ErrCrc c crc)"
    using bad by blast
  ultimately show ?thesis
    unfolding i(4) by (simp add: scan_loop_skip [OF before] scan_loop_bad)
qed

text \<open>An environment in which everything works, for the examples.\<close>

definition plain_env :: sst_env where
  "plain_env = \<lparr>e_create = True, e_cap = None, e_sync = True, e_open = True, e_stat = True,
     e_bad = (\<lambda>_ _. False), e_mem = 2 ^ 40, e_math = \<lparr>ceil_m = \<lambda>_ _. 39, ceil_k = \<lambda>_ _. 14\<rparr>\<rparr>"

lemma plain_filter:
  "bloom_fits (start_filter plain_env n opts)" "length (bit_array (start_filter plain_env n opts)) = 8"
  unfolding start_filter_def
  by (rule create_fits, simp add: plain_env_def) (simp add: lumafly_create_def plain_env_def Let_def)

lemma plain_healthy: "n \<le> 2 ^ 40 \<Longrightarrow> healthy plain_env n"
  by (simp add: healthy_def plain_env_def)

section \<open>The table of a MemTable\<close>

lemma build_from_memtable:
  assumes "mem_inv m" and sm: "\<forall>e \<in> set (contents m). entry_small e"
    and f0: "bloom_fits (start_filter env n opts)" and h: "healthy env (table_size env n opts (contents m))"
  shows "\<exists>file' r gs. BuildSSTable env fs name (m_heap m) (Iterator m) n opts = Ok (fs(name \<mapsto> file'), r)
    \<and> OpenSSTable env (fs(name \<mapsto> file')) name = Ok r
    \<and> r_filename r = name \<and> concat gs = contents m \<and> reader_ok env r gs"
proof -
  let ?es = "contents m" and ?k = "interval_of opts"
  obtain as where l: "linked m as" using assms(1) by (auto simp: mem_inv_def)
  have it: "iterate (m_heap m) (Iterator m) = Some (map ((!) (m_heap m)) as)"
    using iterate_seg [OF linked_bottom [OF l]] linked_node(1) [OF l] by (simp add: Iterator_def)
  have es: "?es = map node_entry (map ((!) (m_heap m)) as)" by (simp add: contents_def it)
  have srt: "sorted_keys ?es" using linked_sorted [OF l] contents_linked [OF l] by simp
  obtain filt where filt: "bloom_fits filt" "\<forall>e \<in> set ?es. bloom_has filt (fst e) = Some True"
    "length (table_bytes ?es (table_index ?k ?es) filt) = table_size env n opts ?es"
    and b: "BuildSSTable env fs name (m_heap m) (Iterator m) n opts =
        Ok (fs(name \<mapsto> table_bytes ?es (table_index ?k ?es) filt),
            \<lparr>r_file = Some (table_bytes ?es (table_index ?k ?es) filt), r_filename = name,
             r_footer = table_footer ?es (table_index ?k ?es) filt, r_index = table_index ?k ?es,
             r_bloomFilter = Some filt\<rparr>)" (is "_ = Ok (_, ?r)")
    using BuildSSTable_ok [OF it es sm f0 h] by blast
  have h': "healthy env (length (table_bytes ?es (table_index ?k ?es) filt))" using h filt(3) by simp
  obtain gs where "concat gs = ?es" "reader_ok env ?r gs"
    using built_reader_ok [OF sm srt filt(1,2) h'] by blast
  moreover have "OpenSSTable env (fs(name \<mapsto> table_bytes ?es (table_index ?k ?es) filt)) name = Ok ?r"
    by (rule OpenSSTable_ok [OF h' filt(1)]) (rule table_index_keys [OF sm])
  moreover have "r_filename ?r = name" by simp
  ultimately show ?thesis using b by blast
qed

section \<open>Properties\<close>

text \<open>
  C12: on a healthy disk, building a table from the iterator of a well-formed MemTable succeeds and
  touches no other file; opening the file again gives the same reader; and for every key, present
  or not, deleted or not, the reader's \<open>Get\<close> returns exactly what the MemTable's \<open>Get\<close> returns.
\<close>

theorem built_table_agrees_with_memtable:
  assumes "mem_inv m" and "\<forall>(k, v, t) \<in> set (contents m). 13 + length k + length v < 2 ^ 32"
    and "bloom_fits (start_filter env n opts)" and "healthy env (table_size env n opts (contents m))"
  shows "\<exists>fs' r. BuildSSTable env fs name (m_heap m) (Iterator m) n opts = Ok (fs', r)
    \<and> OpenSSTable env fs' name = Ok r \<and> (\<forall>other. other \<noteq> name \<longrightarrow> fs' other = fs other)
    \<and> (\<forall>key. \<exists>res. Get m key = Some res \<and> sst_Get env r key = Ok res)"
proof -
  have sm: "\<forall>e \<in> set (contents m). entry_small e" using assms(2) by (auto simp: small_def)
  obtain file' r gs where r: "BuildSSTable env fs name (m_heap m) (Iterator m) n opts = Ok (fs(name \<mapsto> file'), r)"
    "OpenSSTable env (fs(name \<mapsto> file')) name = Ok r" "concat gs = contents m" "reader_ok env r gs"
    using build_from_memtable [OF assms(1) sm assms(3,4)] by blast
  have "sst_Get env r key = Ok (lookup_result (map_of (contents m) key))" for key
    using sst_Get_ok [OF r(4)] r(3) by simp
  moreover have "Get m key = Some (lookup_result (map_of (contents m) key))" for key
    using Get_inv [OF assms(1)] by (simp add: mem_view_def lookup_result_def)
  ultimately have "\<forall>key. \<exists>res. Get m key = Some res \<and> sst_Get env r key = Ok res" by blast
  moreover have "\<forall>other. other \<noteq> name \<longrightarrow> (fs(name \<mapsto> file')) other = fs other" by simp
  ultimately show ?thesis using r(1,2) by blast
qed

theorem built_table_agrees_with_memtable_witness:
  "\<exists>m fs' r. insert_all put_or_delete (NewMemTable DefaultMemTableOptions (\<lambda>_. 0))
        [([2], Some [5]), ([1], None)] = Some m
    \<and> BuildSSTable plain_env Map.empty ''t.sst'' (m_heap m) (Iterator m) 2 DefaultSSTableOptions = Ok (fs', r)
    \<and> sst_Get plain_env r [1] = Ok ([], True, True) \<and> sst_Get plain_env r [2] = Ok ([5], False, True)
    \<and> sst_Get plain_env r [3] = Ok ([], False, False)"
proof -
  let ?m = "NewMemTable DefaultMemTableOptions (\<lambda>_. 0)"
  obtain m1 where m1: "put_or_delete ?m [2] (Some [5]) = Some m1" "mem_inv m1"
    "contents m1 = assoc_put [2] (op_cell (Some [5])) (contents ?m)"
    by (rule put_or_delete_inv [OF NewMemTable_inv(1)])
  obtain m where m: "put_or_delete m1 [1] None = Some m" "mem_inv m"
    "contents m = assoc_put [1] (op_cell None) (contents m1)"
    by (rule put_or_delete_inv [OF m1(2)])
  have c: "contents m = [([1], [], True), ([2], [5], False)]"
    by (simp add: m(3) m1(3) NewMemTable_inv(2))
  have "table_size plain_env 2 DefaultSSTableOptions (contents m) \<le> 2 ^ 40"
    unfolding c by (simp add: table_size_def table_bytes_def plain_filter(2) interval_of_def
        DefaultSSTableOptions_def table_index_def)
  from built_table_agrees_with_memtable [OF m(2) _ plain_filter(1) plain_healthy [OF this],
      of Map.empty "''t.sst''"]
  obtain fs' r where r: "BuildSSTable plain_env Map.empty ''t.sst'' (m_heap m) (Iterator m) 2
      DefaultSSTableOptions = Ok (fs', r)"
    "\<forall>key. \<exists>res. Get m key = Some res \<and> sst_Get plain_env r key = Ok res"
    by (auto simp: c)
  have g: "sst_Get plain_env r key = Ok (lookup_result (map_of (contents m) key))" for key
    using r(2) Get_inv [OF m(2)] by (metis lookup_result_def mem_view_def option.inject)
  show ?thesis
    using m1(1) m(1) r(1) g by (intro exI [of _ m] exI [of _ fs'] exI [of _ r]) (simp add: c lookup_result_def)
qed

text \<open>
  C30: bit rot in the record of a key is reported to whoever looks the key up. When up to four
  consecutive bytes of the flag, key and value of the record, or its stored checksum, have changed,
  \<open>Get\<close> returns the corruption error, never a value.
\<close>

theorem damaged_table_record_is_reported:
  assumes "reader_on env r gs F" and "concat gs = es @ (key, v, t) # fs"
    and "record_bytes key v t = head @ mid @ tail" and "F = data_block es @ (head @ mid' @ tail) @ rest"
    and "length mid' = length mid" "length mid \<le> 4" "mid' \<noteq> mid"
    and "12 \<le> length head \<or> (head = [] \<and> length mid = 4)"
  shows "\<exists>c crc. sst_Get env r key = Err (ErrCrc c crc)"
proof -
  have sm: "small key v" using assms(1,2) unfolding reader_on_def by auto
  have "\<exists>c crc. scan_record ((head @ mid' @ tail) @ more) = Bad (ErrCrc c crc)" for more
    using read_record_damaged [OF sm assms(3,5-8), of False more] by (auto simp: scan_record_eq)
  moreover have "length (head @ mid' @ tail) = length (record_bytes key v t)"
    unfolding assms(3) using assms(5) by simp
  ultimately show ?thesis
    using sst_Get_damaged [OF assms(1,2,4)] by blast
qed

theorem damaged_table_record_is_reported_witness:
  "\<exists>r c crc. r_index r = [\<lparr>ie_Key = [1], ie_Offset = 0\<rparr>]
    \<and> r_file r = Some (take 14 (record_bytes [1] [2] False) @ [3])
    \<and> sst_Get plain_env r [1] = Err (ErrCrc c crc)"
proof -
  let ?rec = "record_bytes [1] [2] False" and ?F = "take 14 (record_bytes [1] [2] False) @ [3]"
  obtain filt where f: "bloom_fits filt" "bloom_has filt [1] = Some True"
    using bloom.add_all_ok [OF plain_filter(1) [of 1 DefaultSSTableOptions], of "[[1]]"] by auto
  define r where "r = \<lparr>r_file = Some ?F, r_filename = ''t'',
    r_footer = \<lparr>IndexOffset = 15, IndexLen = 13, FilterOffset = 28, FilterLen = 24\<rparr>,
    r_index = [\<lparr>ie_Key = [1], ie_Offset = 0\<rparr>], r_bloomFilter = Some filt\<rparr>"
  have ro: "reader_on plain_env r [[([1], [2], False)]] ?F"
    using f(2) bloom.has_total [OF f(1)] by (auto simp: reader_on_def r_def plain_env_def small_def)
  have cut: "?rec = take 14 ?rec @ [2] @ []"
    by (simp add: record_bytes_def payload_def PutUint32_def)
  have "\<exists>c crc. sst_Get plain_env r [1] = Err (ErrCrc c crc)"
    by (rule damaged_table_record_is_reported [where es = "[]" and fs = "[]" and mid' = "[3]"
          and rest = "[]", OF ro _ cut]) simp_all
  then show ?thesis by (intro exI [of _ r]) (simp add: r_def)
qed

end
