(* ===== verification/Abyss.thy ===== *)
theory Abyss
  imports Deepnest
begin

text \<open>
  The Abyss compactor, \<open>pkg/storage/compaction.go\<close>: it merges Level 0 tables into one Level 1 table,
  drops the tombstones and deletes the old files. The Go map \<open>entryMap\<close> is the association list
  of its entries in the order of the keys.
\<close>

section \<open>Data\<close>

record CompactorOptions =
  L0Trigger :: int
  DestDir :: string

record CompactionEntry =
  ce_Key :: bytes
  ce_Value :: bytes
  ce_Tombstone :: bool

record Compactor =
  c_opts :: CompactorOptions

datatype compact_error = ErrNoTables | ErrBuild sst_error

definition DefaultCompactorOptions :: "string \<Rightarrow> CompactorOptions" where
  "DefaultCompactorOptions dir = \<lparr>L0Trigger = 4, DestDir = dir\<rparr>"

definition NewCompactor :: "CompactorOptions \<Rightarrow> Compactor" where
  "NewCompactor opts = \<lparr>c_opts = (if L0Trigger opts \<le> 0 then opts\<lparr>L0Trigger := 4\<rparr> else opts)\<rparr>"

section \<open>Compaction\<close>

text \<open>
  The loop over the index entries of one reader. A lookup that fails is skipped; \<open>None\<close> is a
  panic in the lookup.
\<close>

fun collect_index ::
  "sst_env \<Rightarrow> SSTableReader \<Rightarrow> IndexEntry list \<Rightarrow> (bytes \<times> CompactionEntry) list
     \<Rightarrow> (bytes \<times> CompactionEntry) list option" where
  "collect_index env reader [] entryMap = Some entryMap"
| "collect_index env reader (idxEntry # index) entryMap =
     (case sst_Get env reader (ie_Key idxEntry) of
        Panic \<Rightarrow> None
      | Err _ \<Rightarrow> collect_index env reader index entryMap
      | Ok (val, tombstone, found) \<Rightarrow>
          if found then
            collect_index env reader index
              (assoc_put (ie_Key idxEntry)
                 \<lparr>ce_Key = ie_Key idxEntry, ce_Value = val, ce_Tombstone = tombstone\<rparr> entryMap)
          else collect_index env reader index entryMap)"

fun collect_readers ::
  "sst_env \<Rightarrow> SSTableReader list \<Rightarrow> (bytes \<times> CompactionEntry) list
     \<Rightarrow> (bytes \<times> CompactionEntry) list option" where
  "collect_readers env [] entryMap = Some entryMap"
| "collect_readers env (reader # readers) entryMap =
     (case collect_index env reader (r_index reader) entryMap of
        None \<Rightarrow> None
      | Some entryMap' \<Rightarrow> collect_readers env readers entryMap')"

text \<open>The loop over the sorted keys that fills the temporary MemTable.\<close>

fun retain ::
  "(bytes \<times> CompactionEntry) list \<Rightarrow> bytes list \<Rightarrow> MemTable \<Rightarrow> int \<Rightarrow> (MemTable \<times> int) option" where
  "retain entryMap [] mem retainedCount = Some (mem, retainedCount)"
| "retain entryMap (kStr # keys) mem retainedCount =
     (case map_of entryMap kStr of
        None \<Rightarrow> None
      | Some entry \<Rightarrow>
          if ce_Tombstone entry then retain entryMap keys mem retainedCount
          else (case Put mem (ce_Key entry) (ce_Value entry) of
                  None \<Rightarrow> None
                | Some (mem', _) \<Rightarrow> retain entryMap keys mem' (retainedCount + 1)))"

text \<open>\<open>[]byte("__abyss_compaction_sentinel__")\<close> and \<open>[]byte("ok")\<close>.\<close>

definition sentinel_key :: bytes where
  "sentinel_key = ascii ''__abyss_compaction_sentinel__''"

definition sentinel_value :: bytes where
  "sentinel_value = ascii ''ok''"

text \<open>Closing the readers and removing their files; the errors of both are ignored.\<close>

fun drop_tables ::
  "(string \<Rightarrow> bool) \<Rightarrow> (string \<Rightarrow> bool) \<Rightarrow> SSTableReader list \<Rightarrow> fs \<Rightarrow> SSTableReader list \<times> fs" where
  "drop_tables close_ok remove_ok [] fs = ([], fs)"
| "drop_tables close_ok remove_ok (reader # readers) fs =
     (let fileName = r_filename reader;
          reader' = fst (sst_Close (close_ok fileName) reader);
          fs' = (if remove_ok fileName then fs(fileName := None) else fs);
          (rest, fs'') = drop_tables close_ok remove_ok readers fs'
      in (reader' # rest, fs''))"

text \<open>
  \<open>CompactL0ToL1\<close>. An error carries the file system as it was left; on success the result is
  the file system, the new reader and the old readers. \<open>rnd\<close> is the random source of the
  temporary MemTable.
\<close>

definition CompactL0ToL1 ::
  "sst_env \<Rightarrow> (string \<Rightarrow> bool) \<Rightarrow> (string \<Rightarrow> bool) \<Rightarrow> (nat \<Rightarrow> rat) \<Rightarrow> fs \<Rightarrow> SSTableReader list \<Rightarrow> string
     \<Rightarrow> SSTableOptions \<Rightarrow> (fs \<times> compact_error, fs \<times> SSTableReader \<times> SSTableReader list) outcome" where
  "CompactL0ToL1 env close_ok remove_ok rnd fs l0Readers destFile sstOpts =
     (if l0Readers = [] then Err (fs, ErrNoTables)
      else (case collect_readers env l0Readers [] of
        None \<Rightarrow> Panic
      | Some entryMap \<Rightarrow>
          let keys = sort (map fst entryMap) in
          (case retain entryMap keys (NewMemTable DefaultMemTableOptions rnd) 0 of
             None \<Rightarrow> Panic
           | Some (mem, retainedCount) \<Rightarrow>
               (case (if retainedCount = 0
                      then map_option (\<lambda>(mem', _). (mem', 1)) (Put mem sentinel_key sentinel_value)
                      else Some (mem, retainedCount)) of
                  None \<Rightarrow> Panic
                | Some (mem', count) \<Rightarrow>
                    (case BuildSSTable env fs destFile (m_heap mem') (Iterator mem') count sstOpts of
                       Panic \<Rightarrow> Panic
                     | Err (fs', e) \<Rightarrow> Err (fs', ErrBuild e)
                     | Ok (fs', l1Reader) \<Rightarrow>
                         let (closed, fs'') = drop_tables close_ok remove_ok l0Readers fs'
                         in Ok (fs'', l1Reader, closed))))))"

section \<open>What compaction retains\<close>

text \<open>
  The entries the sparse index of a table points to are the heads of its groups. Written over
  each other in the order of the tables, the later ones win.
\<close>

definition overlay :: "(bytes \<times> bytes \<times> bool) list \<Rightarrow> (bytes \<times> bytes \<times> bool) list \<Rightarrow> (bytes \<times> bytes \<times> bool) list" where
  "overlay es acc = fold (\<lambda>e. assoc_put (fst e) (snd e)) es acc"

definition overlay_all :: "(bytes \<times> bytes \<times> bool) list list \<Rightarrow> (bytes \<times> bytes \<times> bool) list" where
  "overlay_all ess = fold overlay ess []"

definition live :: "(bytes \<times> bytes \<times> bool) list \<Rightarrow> (bytes \<times> bytes \<times> bool) list" where
  "live es = filter (\<lambda>e. \<not> snd (snd e)) es"

definition level1 :: "(bytes \<times> bytes \<times> bool) list list \<Rightarrow> (bytes \<times> bytes \<times> bool) list" where
  "level1 ess = (let es = live (overlay_all ess) in
     if es = [] then [(sentinel_key, sentinel_value, False)] else es)"

abbreviation ce_of :: "bytes \<times> bytes \<times> bool \<Rightarrow> CompactionEntry" where
  "ce_of e \<equiv> \<lparr>ce_Key = fst e, ce_Value = fst (snd e), ce_Tombstone = snd (snd e)\<rparr>"

abbreviation ce_list :: "(bytes \<times> bytes \<times> bool) list \<Rightarrow> (bytes \<times> CompactionEntry) list" where
  "ce_list es \<equiv> map (\<lambda>e. (fst e, ce_of e)) es"

lemma overlay_simps [simp]: "overlay [] acc = acc" "overlay (e # es) acc = overlay es (assoc_put (fst e) (snd e) acc)"
  by (simp_all add: overlay_def)

lemma map_of_overlay: "map_of (overlay es acc) = map_of acc ++ map_of (rev es)"
  by (induction es arbitrary: acc) (auto simp: map_of_assoc_put map_add_def fun_eq_iff split: option.splits)

lemma sorted_overlay: "sorted_keys acc \<Longrightarrow> sorted_keys (overlay es acc)"
  by (induction es arbitrary: acc) (simp_all add: sorted_assoc_put del: sorted_wrt_map)

lemma sorted_fold_overlay: "sorted_keys acc \<Longrightarrow> sorted_keys (fold overlay ess acc)"
  by (induction ess arbitrary: acc) (simp_all add: sorted_overlay del: sorted_wrt_map)

lemma sorted_overlay_all: "sorted_keys (overlay_all ess)"
  unfolding overlay_all_def by (rule sorted_fold_overlay) simp

lemma sorted_live: "sorted_keys es \<Longrightarrow> sorted_keys (live es)"
  unfolding live_def by (induction es) auto

lemma overlay_append:
  "sorted_keys (acc @ es) \<Longrightarrow> overlay es acc = acc @ es"
proof (induction es arbitrary: acc)
  case (Cons e es)
  have "assoc_put (fst e) (snd e) (acc @ []) = acc @ (fst e, snd e) # []"
    using Cons.prems by (intro assoc_put_absent) (auto simp: sorted_wrt_append)
  with Cons show ?case by simp
qed simp

lemma assoc_put_ce:
  "assoc_put k (ce_of (k, v)) (ce_list acc) = ce_list (assoc_put k v acc)"
  by (induction acc) auto

lemma collect_index_ok:
  assumes r: "reader_ok env r gs" and "set es \<subseteq> set (concat gs)"
    and "map ie_Key index = map fst es"
  shows "collect_index env r index (ce_list acc) = Some (ce_list (overlay es acc))"
  using assms(2,3)
proof (induction index arbitrary: es acc)
  case (Cons ie index)
  then obtain k v t es' where es: "es = (k, v, t) # es'" "ie_Key ie = k" "map ie_Key index = map fst es'"
    by (cases es) auto
  have "sorted_keys (concat gs)" using r by (auto simp: reader_ok_def reader_on_def)
  then have "map_of (concat gs) k = Some (v, t)"
    using Cons.prems es by (simp add: strict_sorted_iff)
  then have "sst_Get env r k = Ok (v, t, True)"
    using sst_Get_ok [OF r] by (simp add: lookup_result_def)
  then show ?case
    using Cons.IH [of es'] Cons.prems es assoc_put_ce [of k "(v, t)"] by simp
qed simp

lemma group_heads:
  assumes "\<forall>g \<in> set gs. g \<noteq> []"
  shows "set (map hd gs) \<subseteq> set (concat gs)"
    "map ie_Key (map index_entry (group_index off gs)) = map fst (map hd gs)"
  using assms by (induction off gs rule: group_index.induct) auto

lemma collect_readers_ok:
  "list_all2 (reader_ok env) readers gss \<Longrightarrow>
   collect_readers env readers (ce_list acc) = Some (ce_list (fold overlay (map (map hd) gss) acc))"
proof (induction readers arbitrary: gss acc)
  case (Cons r readers)
  then obtain gs gss' where gss: "gss = gs # gss'" "reader_ok env r gs" "list_all2 (reader_ok env) readers gss'"
    by (auto simp: list_all2_Cons1)
  have "\<forall>g \<in> set gs. g \<noteq> []" "r_index r = map index_entry (group_index 0 gs)"
    using gss(2) by (auto simp: reader_ok_def reader_on_def)
  then have "collect_index env r (r_index r) (ce_list acc) = Some (ce_list (overlay (map hd gs) acc))"
    using group_heads by (intro collect_index_ok [OF gss(2)]) auto
  then show ?case using Cons.IH [OF gss(3)] gss(1) by simp
qed simp

lemma retain_ok:
  assumes "mem_inv m" "\<forall>e \<in> set es. map_of em (fst e) = Some (ce_of e)"
  shows "\<exists>m'. retain em (map fst es) m c = Some (m', c + int (length (live es))) \<and> mem_inv m'
    \<and> contents m' = overlay (live es) (contents m)"
  using assms
proof (induction es arbitrary: m c)
  case (Cons e es)
  show ?case
  proof (cases "snd (snd e)")
    case True
    with Cons show ?thesis by (simp add: live_def)
  next
    case False
    obtain m1 where m1: "Put m (fst e) (fst (snd e)) = Some (m1, IsFull m1)" "mem_inv m1"
      "contents m1 = assoc_put (fst e) (snd e) (contents m)"
      using mem_insert_inv [OF Cons.prems(1), of "fst e" "fst (snd e)" False] False
      by (metis Put_def prod.collapse)
    with Cons.IH [OF m1(2), of "c + 1"] Cons.prems(2) False show ?thesis
      by (auto simp: live_def)
  qed
qed (simp add: live_def)

lemma set_assoc_put: "set (assoc_put k v ps) \<subseteq> insert (k, v) (set ps)"
  by (induction k v ps rule: assoc_put.induct) auto

lemma set_overlay: "set (overlay es acc) \<subseteq> set es \<union> set acc"
proof (induction es arbitrary: acc)
  case (Cons e es)
  then show ?case using set_assoc_put [of "fst e" "snd e" acc] by fastforce
qed simp

lemma set_fold_overlay: "set (fold overlay ess acc) \<subseteq> (\<Union>es \<in> set ess. set es) \<union> set acc"
proof (induction ess arbitrary: acc)
  case (Cons es ess)
  then show ?case using set_overlay [of es acc] by fastforce
qed simp

lemma map_of_live:
  assumes "distinct (map fst es)"
  shows "map_of (live es) key = (case map_of es key of Some (v, False) \<Rightarrow> Some (v, False) | _ \<Rightarrow> None)"
  using assms
proof (induction es)
  case (Cons e es)
  have "map_of es (fst e) = None" using Cons.prems by (simp add: map_of_eq_None_iff)
  with Cons show ?case by (cases e) (auto simp: live_def split: option.splits)
qed (simp add: live_def)

lemma drop_tables_ok:
  "drop_tables close_ok remove_ok readers fs =
     (map (\<lambda>r. r\<lparr>r_file := None, r_bloomFilter := None\<rparr>) readers,
      \<lambda>name. if name \<in> r_filename ` set readers \<and> remove_ok name then None else fs name)"
proof (induction readers arbitrary: fs)
  case (Cons r readers)
  have "fst (sst_Close ok r) = r\<lparr>r_file := None, r_bloomFilter := None\<rparr>" for ok
    by (cases "r_file r"; cases r) (simp_all add: sst_Close_def)
  then show ?case using Cons by (auto simp: Let_def fun_eq_iff)
qed simp

text \<open>
  The whole compaction of well-formed tables: the temporary MemTable holds the retained entries,
  and the new table is built from it.
\<close>

lemma retain_all:
  "\<exists>m. retain (ce_list (overlay_all ess)) (sort (map fst (ce_list (overlay_all ess)))) (NewMemTable opts rnd) 0
      = Some (m, int (length (live (overlay_all ess)))) \<and> mem_inv m \<and> contents m = live (overlay_all ess)"
proof -
  let ?es = "overlay_all ess"
  have d: "distinct (map fst ?es)" "sorted (map fst ?es)"
    using sorted_overlay_all [of ess] by (simp_all only: strict_sorted_iff)
  have keys: "sort (map fst (ce_list ?es)) = map fst ?es"
    using d(2) by (simp add: sorted_sort_id comp_def)
  have "map fst (ce_list ?es) = map fst ?es" by simp
  with d(1) have "distinct (map fst (ce_list ?es))" by (simp only:)
  then have "\<forall>e \<in> set ?es. map_of (ce_list ?es) (fst e) = Some (ce_of e)"
    by (intro ballI map_of_is_SomeI) auto
  from retain_ok [OF NewMemTable_inv(1) this] obtain m where
    "retain (ce_list ?es) (map fst ?es) (NewMemTable opts rnd) 0 = Some (m, 0 + int (length (live ?es)))"
    "mem_inv m" "contents m = overlay (live ?es) (contents (NewMemTable opts rnd))" by blast
  moreover have "overlay (live ?es) [] = live ?es"
    using overlay_append [of "[]"] sorted_live [OF sorted_overlay_all] by simp
  ultimately show ?thesis unfolding keys by (simp add: NewMemTable_inv(2))
qed

lemma compact_ok:
  assumes "readers \<noteq> []" and col: "collect_readers env readers [] = Some (ce_list (overlay_all ess))"
    and sm: "\<forall>e \<in> set (level1 ess). entry_small e"
    and f0: "bloom_fits (start_filter env (int (length (level1 ess))) opts)"
    and h: "healthy env (table_size env (int (length (level1 ess))) opts (level1 ess))"
  shows "\<exists>file' r gs. CompactL0ToL1 env close_ok remove_ok rnd fs readers dest opts =
      Ok (\<lambda>name. if name \<in> r_filename ` set readers \<and> remove_ok name then None else (fs(dest \<mapsto> file')) name,
          r, map (\<lambda>r. r\<lparr>r_file := None, r_bloomFilter := None\<rparr>) readers)
    \<and> OpenSSTable env (fs(dest \<mapsto> file')) dest = Ok r \<and> reader_ok env r gs \<and> concat gs = level1 ess"
proof -
  let ?es = "overlay_all ess"
  obtain m where m: "retain (ce_list ?es) (sort (map fst (ce_list ?es))) (NewMemTable DefaultMemTableOptions rnd) 0
      = Some (m, int (length (live ?es)))" "mem_inv m" "contents m = live ?es"
    using retain_all by blast
  have "\<exists>m'. (if int (length (live ?es)) = 0
        then map_option (\<lambda>(m', _). (m', 1)) (Put m sentinel_key sentinel_value)
        else Some (m, int (length (live ?es)))) = Some (m', int (length (level1 ess)))
      \<and> mem_inv m' \<and> contents m' = level1 ess"
    using m(2,3) mem_insert_inv [OF m(2), of sentinel_key sentinel_value False]
    by (auto simp: level1_def Let_def Put_def)
  then obtain m' where m': "(if int (length (live ?es)) = 0
        then map_option (\<lambda>(m', _). (m', 1)) (Put m sentinel_key sentinel_value)
        else Some (m, int (length (live ?es)))) = Some (m', int (length (level1 ess)))"
      "mem_inv m'" "contents m' = level1 ess" by blast
  obtain file' r gs where
    "BuildSSTable env fs dest (m_heap m') (Iterator m') (int (length (level1 ess))) opts = Ok (fs(dest \<mapsto> file'), r)"
    "OpenSSTable env (fs(dest \<mapsto> file')) dest = Ok r" "concat gs = level1 ess" "reader_ok env r gs"
    using build_from_memtable [OF m'(2), of env "int (length (level1 ess))" opts fs dest] sm f0 h
    unfolding m'(3) by blast
  then show ?thesis
    using assms(1) unfolding CompactL0ToL1_def Let_def col option.case m(1) prod.case m'(1)
    by (intro exI [of _ file'] exI [of _ r] exI [of _ gs]) (simp add: drop_tables_ok)
qed

text \<open>What a lookup in the tables, newest last, would find: the map the compaction should keep.\<close>

definition newest :: "(bytes \<times> bytes \<times> bool) list list list \<Rightarrow> bytes \<Rightarrow> (bytes \<times> bool) option" where
  "newest gss = foldl (\<lambda>m gs. m ++ map_of (concat gs)) Map.empty gss"

definition unless_deleted :: "(bytes \<times> bool) option \<Rightarrow> (bytes \<times> bool) option" where
  "unless_deleted e = (case e of Some (v, False) \<Rightarrow> Some (v, False) | _ \<Rightarrow> None)"

lemma map_of_fold_overlay:
  assumes "\<forall>es \<in> set ess. distinct (map fst es)"
  shows "map_of (fold overlay ess acc) = foldl (\<lambda>m es. m ++ map_of es) (map_of acc) ess"
  using assms
proof (induction ess arbitrary: acc)
  case (Cons es ess)
  have "map_of (rev es) = map_of es"
    using Cons.prems by (subst map_of_inject_set) (simp_all add: rev_map [symmetric])
  with Cons show ?case by (simp add: map_of_overlay)
qed simp

lemma heads_small:
  assumes "list_all2 (reader_ok env) readers gss"
  shows "\<forall>e \<in> set (level1 (map (map hd) gss)). entry_small e"
proof
  fix e
  assume e: "e \<in> set (level1 (map (map hd) gss))"
  show "entry_small e"
  proof (cases "live (overlay_all (map (map hd) gss)) = []")
    case True
    with e show ?thesis
      by (simp add: level1_def small_def sentinel_key_def sentinel_value_def ascii_def)
  next
    case False
    with e have "e \<in> set (overlay_all (map (map hd) gss))" by (auto simp: level1_def Let_def live_def)
    then obtain gs where gs: "gs \<in> set gss" "e \<in> set (map hd gs)"
      using set_fold_overlay [of "map (map hd) gss" "[]"] by (auto simp: overlay_all_def)
    then obtain r where "reader_ok env r gs" using assms by (metis in_set_conv_nth list_all2_conv_all_nth)
    then have "\<forall>e \<in> set (concat gs). entry_small e" "\<forall>g \<in> set gs. g \<noteq> []"
      unfolding reader_ok_def reader_on_def by blast+
    then show ?thesis using group_heads(1) [of gs] gs(2) by blast
  qed
qed

lemma compact_readers_ok:
  assumes "readers \<noteq> []" "list_all2 (reader_ok env) readers gss"
    and "bloom_fits (start_filter env (int (length (level1 (map (map hd) gss)))) opts)"
    and "healthy env (table_size env (int (length (level1 (map (map hd) gss)))) opts (level1 (map (map hd) gss)))"
  shows "\<exists>file' r. CompactL0ToL1 env close_ok remove_ok rnd fs readers dest opts =
      Ok (\<lambda>name. if name \<in> r_filename ` set readers \<and> remove_ok name then None else (fs(dest \<mapsto> file')) name,
          r, map (\<lambda>r. r\<lparr>r_file := None, r_bloomFilter := None\<rparr>) readers)
    \<and> OpenSSTable env (fs(dest \<mapsto> file')) dest = Ok r
    \<and> (\<forall>key. sst_Get env r key = Ok (lookup_result (map_of (level1 (map (map hd) gss)) key)))"
proof -
  have "collect_readers env readers [] = Some (ce_list (overlay_all (map (map hd) gss)))"
    using collect_readers_ok [OF assms(2), of "[]"] by (simp add: overlay_all_def)
  from compact_ok [OF assms(1) this heads_small [OF assms(2)] assms(3,4), of close_ok remove_ok rnd fs dest]
  obtain file' r gs where c: "CompactL0ToL1 env close_ok remove_ok rnd fs readers dest opts =
      Ok (\<lambda>name. if name \<in> r_filename ` set readers \<and> remove_ok name then None else (fs(dest \<mapsto> file')) name,
          r, map (\<lambda>r. r\<lparr>r_file := None, r_bloomFilter := None\<rparr>) readers)"
    "OpenSSTable env (fs(dest \<mapsto> file')) dest = Ok r" "reader_ok env r gs"
    "concat gs = level1 (map (map hd) gss)"
    by blast
  have "\<forall>key. sst_Get env r key = Ok (lookup_result (map_of (level1 (map (map hd) gss)) key))"
    using sst_Get_ok [OF c(3)] by (simp only: c(4) simp_thms)
  with c(1,2) show ?thesis by blast
qed

lemma level1_lookup:
  assumes "key \<noteq> sentinel_key"
  shows "map_of (level1 ess) key = unless_deleted (map_of (overlay_all ess) key)"
proof -
  have d: "distinct (map fst (overlay_all ess))"
    using sorted_overlay_all [of ess] by (simp only: strict_sorted_iff)
  have l: "map_of (live (overlay_all ess)) key = unless_deleted (map_of (overlay_all ess) key)"
    unfolding unless_deleted_def by (rule map_of_live [OF d])
  show ?thesis
  proof (cases "live (overlay_all ess) = []")
    case True
    then show ?thesis using l assms by (simp add: level1_def)
  next
    case False
    then show ?thesis using l by (simp add: level1_def Let_def)
  qed
qed

text \<open>
  What the new table holds of the entries \<open>m\<close> that were collected: those that are not deleted, and when
  there are none, the sentinel.
\<close>

definition compacted :: "(bytes \<Rightarrow> (bytes \<times> bool) option) \<Rightarrow> bytes \<Rightarrow> (bytes \<times> bool) option" where
  "compacted m key =
     (if key = sentinel_key \<and> (\<forall>k. unless_deleted (m k) = None) then Some (sentinel_value, False)
      else unless_deleted (m key))"

lemma level1_compacted: "map_of (level1 ess) = compacted (map_of (overlay_all ess))"
proof
  fix key
  have d: "distinct (map fst (overlay_all ess))"
    using sorted_overlay_all [of ess] by (simp only: strict_sorted_iff)
  have l: "map_of (live (overlay_all ess)) k = unless_deleted (map_of (overlay_all ess) k)" for k
    unfolding unless_deleted_def by (rule map_of_live [OF d])
  have "live (overlay_all ess) = [] \<longleftrightarrow> (\<forall>k. unless_deleted (map_of (overlay_all ess) k) = None)"
    unfolding l [symmetric] by (cases "live (overlay_all ess)") (auto simp: fun_eq_iff intro: exI [of _ "fst (hd (live (overlay_all ess)))"])
  then show "map_of (level1 ess) key = compacted (map_of (overlay_all ess)) key"
    using l [of key] by (auto simp: level1_def Let_def compacted_def)
qed

text \<open>A reader of a small table, for the examples.\<close>

definition plain_reader ::
  "string \<Rightarrow> (bytes \<times> bytes \<times> bool) list list \<Rightarrow> LumaflyBloom \<Rightarrow> SSTableReader" where
  "plain_reader name gs filt =
     \<lparr>r_file = Some (data_block (concat gs)), r_filename = name,
      r_footer = \<lparr>IndexOffset = of_nat (length (data_block (concat gs))), IndexLen = 0,
                  FilterOffset = 0, FilterLen = 0\<rparr>,
      r_index = map index_entry (group_index 0 gs), r_bloomFilter = Some filt\<rparr>"

lemma plain_reader_ok:
  assumes "\<forall>g \<in> set gs. g \<noteq> []" "sorted_keys (concat gs)" "\<forall>e \<in> set (concat gs). entry_small e"
    and "length (data_block (concat gs)) \<le> 2 ^ 40"
  obtains filt where "reader_ok plain_env (plain_reader name gs filt) gs"
proof -
  obtain filt where "bloom_fits filt" "\<forall>k \<in> set (map fst (concat gs)). bloom_has filt k = Some True"
    using bloom.add_all_ok [OF plain_filter(1) [of 1 DefaultSSTableOptions], of "map fst (concat gs)"] by blast
  then have "reader_ok plain_env (plain_reader name gs filt) gs"
    using assms bloom.has_total
    unfolding reader_ok_def reader_on_def plain_reader_def plain_env_def
    by (intro exI [of _ "[]"]) auto
  then show ?thesis by (rule that)
qed

section \<open>Properties\<close>

text \<open>
  C31: compacting well-formed tables on a healthy disk succeeds; for every key, the new table answers
  with the newest entry among those the sparse indexes point to, unless that is a tombstone: deleted
  keys are absent. When no entry is left at all, the new table holds the sentinel key, which no table
  need have held. The old readers are closed and their files removed.
\<close>

theorem compaction_merges_indexed_entries:
  assumes "readers \<noteq> []" "list_all2 (reader_ok env) readers gss"
    and "bloom_fits (start_filter env (int (length (level1 (map (map hd) gss)))) opts)"
    and "healthy env (table_size env (int (length (level1 (map (map hd) gss)))) opts (level1 (map (map hd) gss)))"
  shows "\<exists>fs' r closed. CompactL0ToL1 env close_ok remove_ok rnd fs readers dest opts = Ok (fs', r, closed)
    \<and> (\<forall>key. sst_Get env r key = Ok (lookup_result (compacted (map_of (overlay_all (map (map hd) gss))) key)))
    \<and> (\<forall>reader \<in> set closed. r_file reader = None)
    \<and> (\<forall>reader \<in> set readers. remove_ok (r_filename reader) \<longrightarrow> fs' (r_filename reader) = None)"
  using compact_readers_ok [OF assms, of close_ok remove_ok rnd fs dest] by (auto simp: level1_compacted)

theorem compaction_merges_indexed_entries_witness:
  "\<exists>ra rb fs' r closed. sst_Get plain_env ra [1] = Ok ([5], False, True)
    \<and> sst_Get plain_env rb [1] = Ok ([], True, True)
    \<and> CompactL0ToL1 plain_env (\<lambda>_. True) (\<lambda>_. True) (\<lambda>_. 0) Map.empty [ra, rb] ''l1'' DefaultSSTableOptions
        = Ok (fs', r, closed)
    \<and> sst_Get plain_env r [1] = Ok ([], False, False) \<and> sst_Get plain_env r [3] = Ok ([7], False, True)"
proof -
  let ?ga = "[[([1], [5], False)]] :: (bytes \<times> bytes \<times> bool) list list"
  let ?gb = "[[([1], [], True)], [([3], [7], False)]] :: (bytes \<times> bytes \<times> bool) list list"
  obtain fa where a: "reader_ok plain_env (plain_reader ''a'' ?ga fa) ?ga"
    by (rule plain_reader_ok [of ?ga]) (simp_all add: small_def)
  obtain fb where b: "reader_ok plain_env (plain_reader ''b'' ?gb fb) ?gb"
    by (rule plain_reader_ok [of ?gb]) (simp_all add: small_def)
  have o: "overlay_all (map (map hd) [?ga, ?gb]) = [([1], [], True), ([3], [7], False)]"
    by (simp add: overlay_all_def)
  have l: "level1 (map (map hd) [?ga, ?gb]) = [([3], [7], False)]"
    unfolding level1_def o by (simp add: live_def)
  have sz: "table_size plain_env 1 DefaultSSTableOptions [([3], [7], False)] \<le> 2 ^ 40"
    by (simp add: table_size_def table_bytes_def plain_filter(2) interval_of_def DefaultSSTableOptions_def
        table_index_def)
  have k: "[1] \<noteq> sentinel_key" "[3] \<noteq> sentinel_key" by (simp_all add: sentinel_key_def ascii_def)
  let ?ra = "plain_reader ''a'' ?ga fa" and ?rb = "plain_reader ''b'' ?gb fb"
  have "\<exists>fs' r closed. CompactL0ToL1 plain_env (\<lambda>_. True) (\<lambda>_. True) (\<lambda>_. 0) Map.empty [?ra, ?rb] ''l1''
        DefaultSSTableOptions = Ok (fs', r, closed)
    \<and> (\<forall>key. sst_Get plain_env r key = Ok (lookup_result (compacted (map_of (overlay_all (map (map hd) [?ga, ?gb]))) key)))
    \<and> (\<forall>reader \<in> set closed. r_file reader = None)
    \<and> (\<forall>reader \<in> set [?ra, ?rb]. True \<longrightarrow> fs' (r_filename reader) = None)"
    by (rule compaction_merges_indexed_entries)
      (use a b plain_filter(1) plain_healthy [OF sz] in \<open>simp_all add: l del: list.map\<close>)
  then obtain fs' r closed where r: "CompactL0ToL1 plain_env (\<lambda>_. True) (\<lambda>_. True) (\<lambda>_. 0) Map.empty
      [?ra, ?rb] ''l1'' DefaultSSTableOptions = Ok (fs', r, closed)"
    "\<And>key. sst_Get plain_env r key = Ok (lookup_result (compacted (map_of (overlay_all (map (map hd) [?ga, ?gb]))) key))"
    by blast
  show ?thesis
    using r(1) r(2) [of "[1]"] r(2) [of "[3]"] k sst_Get_ok [OF a, of "[1]"] sst_Get_ok [OF b, of "[1]"]
    unfolding o
    by (intro exI [of _ ?ra] exI [of _ ?rb] exI [of _ fs'] exI [of _ r] exI [of _ closed])
      (simp add: lookup_result_def compacted_def unless_deleted_def)
qed

text \<open>
  C32: when every key of well-formed tables is indexed (\<open>SparseInterval = 1\<close>) and the disk is healthy,
  compaction is lossless: for every key, the new table answers as the tables together would, the
  later table winning, with deleted keys absent. The one exception is that when every key is deleted,
  the new table holds the sentinel key, as it cannot be empty.
\<close>

theorem compaction_lossless_with_full_index:
  assumes "readers \<noteq> []" "list_all2 (reader_ok env) readers gss"
    and "\<forall>gs \<in> set gss. \<forall>g \<in> set gs. length g = 1"
    and "bloom_fits (start_filter env (int (length (level1 (map (map hd) gss)))) opts)"
    and "healthy env (table_size env (int (length (level1 (map (map hd) gss)))) opts (level1 (map (map hd) gss)))"
  shows "\<exists>fs' r closed. CompactL0ToL1 env close_ok remove_ok rnd fs readers dest opts = Ok (fs', r, closed)
    \<and> (\<forall>key. sst_Get env r key = Ok (lookup_result (compacted (newest gss) key)))"
proof -
  have heads: "concat gs = map hd gs" if "gs \<in> set gss" for gs
  proof -
    have "\<forall>g \<in> set gs. length g = 1" using assms(3) that by blast
    then show ?thesis by (induction gs) (auto simp: length_Suc_conv)
  qed
  have "distinct (map fst (map hd gs))" if gs: "gs \<in> set gss" for gs
  proof -
    obtain r where "reader_ok env r gs" using assms(2) gs by (metis in_set_conv_nth list_all2_conv_all_nth)
    then have "sorted_keys (concat gs)" unfolding reader_ok_def reader_on_def by blast
    then show ?thesis unfolding heads [OF gs] by (simp only: strict_sorted_iff)
  qed
  then have "map_of (overlay_all (map (map hd) gss)) = foldl (\<lambda>m es. m ++ map_of es) Map.empty (map (map hd) gss)"
    unfolding overlay_all_def by (subst map_of_fold_overlay) auto
  also have "\<dots> = foldl (\<lambda>m gs. m ++ map_of (map hd gs)) Map.empty gss"
    by (simp only: foldl_map)
  also have "\<dots> = newest gss"
    unfolding newest_def by (rule foldl_cong) (simp_all add: heads)
  finally have "map_of (overlay_all (map (map hd) gss)) = newest gss" .
  then show ?thesis
    using compact_readers_ok [OF assms(1,2,4,5), of close_ok remove_ok rnd fs dest] level1_compacted
    by auto
qed

theorem compaction_lossless_with_full_index_witness:
  "\<exists>ra rb fs' r closed. sst_Get plain_env ra [1] = Ok ([5], False, True)
    \<and> sst_Get plain_env rb [1] = Ok ([6], False, True)
    \<and> CompactL0ToL1 plain_env (\<lambda>_. True) (\<lambda>_. True) (\<lambda>_. 0) Map.empty [ra, rb] ''l1'' DefaultSSTableOptions
        = Ok (fs', r, closed)
    \<and> sst_Get plain_env r [1] = Ok ([6], False, True)"
proof -
  let ?ga = "[[([1], [5], False)]] :: (bytes \<times> bytes \<times> bool) list list"
  let ?gb = "[[([1], [6], False)]] :: (bytes \<times> bytes \<times> bool) list list"
  obtain fa where a: "reader_ok plain_env (plain_reader ''a'' ?ga fa) ?ga"
    by (rule plain_reader_ok [of ?ga]) (simp_all add: small_def)
  obtain fb where b: "reader_ok plain_env (plain_reader ''b'' ?gb fb) ?gb"
    by (rule plain_reader_ok [of ?gb]) (simp_all add: small_def)
  have l: "level1 (map (map hd) [?ga, ?gb]) = [([1], [6], False)]"
    by (simp add: level1_def overlay_all_def live_def)
  have sz: "table_size plain_env 1 DefaultSSTableOptions [([1], [6], False)] \<le> 2 ^ 40"
    by (simp add: table_size_def table_bytes_def plain_filter(2) interval_of_def DefaultSSTableOptions_def
        table_index_def)
  let ?ra = "plain_reader ''a'' ?ga fa" and ?rb = "plain_reader ''b'' ?gb fb"
  have "\<exists>fs' r closed. CompactL0ToL1 plain_env (\<lambda>_. True) (\<lambda>_. True) (\<lambda>_. 0) Map.empty [?ra, ?rb] ''l1''
        DefaultSSTableOptions = Ok (fs', r, closed)
    \<and> (\<forall>key. sst_Get plain_env r key = Ok (lookup_result (compacted (newest [?ga, ?gb]) key)))"
    by (rule compaction_lossless_with_full_index)
      (use a b plain_filter(1) plain_healthy [OF sz] in
        \<open>simp_all add: l sentinel_key_def ascii_def del: list.map\<close>)
  moreover have "compacted (newest [?ga, ?gb]) [1] = Some ([6], False)"
    by (simp add: newest_def compacted_def unless_deleted_def sentinel_key_def ascii_def)
  ultimately show ?thesis
    using sst_Get_ok [OF a, of "[1]"] sst_Get_ok [OF b, of "[1]"]
    by (intro exI [of _ ?ra] exI [of _ ?rb]) (auto simp: lookup_result_def)
qed

text \<open>
  C33: a key that a table holds but no sparse index points to is lost: after the compaction it is
  not found any more, and the file that held it is removed. The compactor looks up the index keys
  instead of scanning the data blocks.
\<close>

theorem compaction_loses_unindexed_keys:
  assumes "list_all2 (reader_ok env) readers gss"
    and "reader \<in> set readers" "sst_Get env reader key = Ok (v, False, True)"
    and "\<forall>r \<in> set readers. \<forall>ie \<in> set (r_index r). ie_Key ie \<noteq> key" "key \<noteq> sentinel_key"
    and "bloom_fits (start_filter env (int (length (level1 (map (map hd) gss)))) opts)"
    and "healthy env (table_size env (int (length (level1 (map (map hd) gss)))) opts (level1 (map (map hd) gss)))"
  shows "\<exists>fs' r closed. CompactL0ToL1 env close_ok (\<lambda>_. True) rnd fs readers dest opts = Ok (fs', r, closed)
    \<and> sst_Get env r key = Ok ([], False, False) \<and> fs' (r_filename reader) = None"
proof -
  have ne: "readers \<noteq> []" using assms(2) by auto
  have "fst e \<noteq> key" if e: "e \<in> set (overlay_all (map (map hd) gss))" for e
  proof -
    obtain gs where gs: "gs \<in> set gss" "e \<in> set (map hd gs)"
      using e set_fold_overlay [of "map (map hd) gss" "[]"] by (auto simp: overlay_all_def)
    then obtain r where r: "reader_ok env r gs" "r \<in> set readers"
      using assms(1) by (metis in_set_conv_nth list_all2_conv_all_nth)
    then have "r_index r = map index_entry (group_index 0 gs)" "\<forall>g \<in> set gs. g \<noteq> []"
      unfolding reader_ok_def reader_on_def by blast+
    then have "fst e \<in> set (map ie_Key (r_index r))" using group_heads(2) [of gs 0] gs(2) by auto
    then show ?thesis using assms(4) r(2) by fastforce
  qed
  then have "map_of (overlay_all (map (map hd) gss)) key = None" by (rule map_of_absent)
  then have "map_of (level1 (map (map hd) gss)) key = None"
    using level1_lookup [OF assms(5)] by (simp add: unless_deleted_def)
  then show ?thesis
    using compact_readers_ok [OF ne assms(1,6,7), of close_ok "\<lambda>_. True" rnd fs dest] assms(2)
    by (auto simp: lookup_result_def)
qed

theorem compaction_loses_unindexed_keys_witness:
  "\<exists>reader fs' r closed. sst_Get plain_env reader [2] = Ok ([6], False, True)
    \<and> CompactL0ToL1 plain_env (\<lambda>_. True) (\<lambda>_. True) (\<lambda>_. 0) Map.empty [reader] ''l1'' DefaultSSTableOptions
        = Ok (fs', r, closed)
    \<and> sst_Get plain_env r [2] = Ok ([], False, False) \<and> fs' (r_filename reader) = None"
proof -
  let ?gs = "[[([1], [5], False), ([2], [6], False)]] :: (bytes \<times> bytes \<times> bool) list list"
  obtain filt where a: "reader_ok plain_env (plain_reader ''a'' ?gs filt) ?gs"
    by (rule plain_reader_ok [of ?gs]) (simp_all add: small_def)
  have l: "level1 (map (map hd) [?gs]) = [([1], [5], False)]"
    by (simp add: level1_def overlay_all_def live_def)
  have sz: "table_size plain_env 1 DefaultSSTableOptions [([1], [5], False)] \<le> 2 ^ 40"
    by (simp add: table_size_def table_bytes_def plain_filter(2) interval_of_def DefaultSSTableOptions_def
        table_index_def)
  let ?r = "plain_reader ''a'' ?gs filt"
  have g: "sst_Get plain_env ?r [2] = Ok ([6], False, True)"
    using sst_Get_ok [OF a, of "[2]"] by (simp add: lookup_result_def)
  have "\<exists>fs' r closed. CompactL0ToL1 plain_env (\<lambda>_. True) (\<lambda>_. True) (\<lambda>_. 0) Map.empty [?r] ''l1''
        DefaultSSTableOptions = Ok (fs', r, closed)
    \<and> sst_Get plain_env r [2] = Ok ([], False, False) \<and> fs' (r_filename ?r) = None"
    by (rule compaction_loses_unindexed_keys [OF _ _ g, where gss = "[?gs]"])
      (use a plain_filter(1) plain_healthy [OF sz] in
        \<open>simp_all add: l sentinel_key_def ascii_def plain_reader_def del: list.map\<close>)
  then show ?thesis using g by blast
qed

text \<open>
  A lookup that fails is skipped. When every indexed record of the tables is unreadable,
  compaction still reports success: the new table holds the sentinel key only, and the old files
  are removed.
\<close>

theorem compaction_discards_unreadable_records:
  assumes "readers \<noteq> []" "\<forall>r \<in> set readers. \<forall>ie \<in> set (r_index r). \<exists>e. sst_Get env r (ie_Key ie) = Err e"
    and "bloom_fits (start_filter env 1 opts)"
    and "healthy env (table_size env 1 opts [(sentinel_key, sentinel_value, False)])"
  shows "\<exists>fs' r closed. CompactL0ToL1 env close_ok (\<lambda>_. True) rnd fs readers dest opts = Ok (fs', r, closed)
    \<and> (\<forall>key. key \<noteq> sentinel_key \<longrightarrow> sst_Get env r key = Ok ([], False, False))
    \<and> sst_Get env r sentinel_key = Ok (sentinel_value, False, True)
    \<and> (\<forall>reader \<in> set readers. fs' (r_filename reader) = None)"
proof -
  have skip: "collect_index env r index em = Some em"
    if "\<forall>ie \<in> set index. \<exists>e. sst_Get env r (ie_Key ie) = Err e" for r index em
    using that by (induction index) auto
  have "collect_readers env readers em = Some em" for em
    using assms(2) by (induction readers) (auto simp: skip)
  then have c: "collect_readers env readers [] = Some (ce_list (overlay_all []))"
    by (simp add: overlay_all_def)
  have l1: "level1 [] = [(sentinel_key, sentinel_value, False)]"
    by (simp add: level1_def overlay_all_def live_def)
  have sm: "\<forall>e \<in> set (level1 []). entry_small e"
    by (simp add: l1 small_def sentinel_key_def sentinel_value_def ascii_def)
  obtain file' r gs where "CompactL0ToL1 env close_ok (\<lambda>_. True) rnd fs readers dest opts =
      Ok (\<lambda>name. if name \<in> r_filename ` set readers \<and> True then None else (fs(dest \<mapsto> file')) name,
          r, map (\<lambda>r. r\<lparr>r_file := None, r_bloomFilter := None\<rparr>) readers)"
    "reader_ok env r gs" "concat gs = level1 []"
    using compact_ok [OF assms(1) c sm, of opts close_ok "\<lambda>_. True" rnd fs dest] assms(3,4)
    by (auto simp: l1)
  moreover from sst_Get_ok [OF this(2)] this(3)
  have "sst_Get env r key = Ok (lookup_result (map_of (level1 []) key))" for key by simp
  ultimately show ?thesis by (auto simp: l1 lookup_result_def)
qed

theorem compaction_discards_unreadable_records_witness:
  "\<exists>reader fs' r closed. r_file reader = Some (take 14 (record_bytes [1] [2] False) @ [3])
    \<and> CompactL0ToL1 plain_env (\<lambda>_. True) (\<lambda>_. True) (\<lambda>_. 0) Map.empty [reader] ''l1'' DefaultSSTableOptions
        = Ok (fs', r, closed)
    \<and> sst_Get plain_env r [1] = Ok ([], False, False) \<and> fs' (r_filename reader) = None"
proof -
  let ?gs = "[[([1], [2], False)]] :: (bytes \<times> bytes \<times> bool) list list"
  let ?F = "take 14 (record_bytes [1] [2] False) @ [3]"
  have cut: "record_bytes [1] [2] False = take 14 (record_bytes [1] [2] False) @ [2] @ []"
    by (simp add: record_bytes_def payload_def PutUint32_def)
  obtain filt where "reader_ok plain_env (plain_reader ''a'' ?gs filt) ?gs"
    by (rule plain_reader_ok [of ?gs]) (simp_all add: small_def)
  then have on: "reader_on plain_env ((plain_reader ''a'' ?gs filt)\<lparr>r_file := Some ?F\<rparr>) ?gs ?F"
    (is "reader_on _ ?r _ _")
    by (auto simp: reader_ok_def reader_on_def)
  have bad: "\<exists>c crc. scan_record (?F @ more) = Bad (ErrCrc c crc)" for more
    using read_record_damaged [OF _ cut, of "[3]" False more] by (auto simp: scan_record_eq small_def)
  have "\<exists>c crc. sst_Get plain_env ?r [1] = Err (ErrCrc c crc)"
    by (rule sst_Get_damaged [OF on _ _ _ bad, where es = "[]" and fs = "[]" and rest = "[]" and v = "[2]"
          and t = False]) simp_all
  then have unreadable: "\<forall>r \<in> set [?r]. \<forall>ie \<in> set (r_index r). \<exists>e. sst_Get plain_env r (ie_Key ie) = Err e"
    by (auto simp: plain_reader_def)
  have sz: "table_size plain_env 1 DefaultSSTableOptions [(sentinel_key, sentinel_value, False)] \<le> 2 ^ 40"
    by (simp add: table_size_def table_bytes_def plain_filter(2) interval_of_def DefaultSSTableOptions_def
        table_index_def sentinel_key_def sentinel_value_def ascii_def)
  have k: "[1] \<noteq> sentinel_key" by (simp add: sentinel_key_def ascii_def)
  show ?thesis
    using compaction_discards_unreadable_records [OF _ unreadable plain_filter(1) plain_healthy [OF sz],
        of "\<lambda>_. True" "\<lambda>_. 0" Map.empty "''l1''"] k
    by (intro exI [of _ ?r]) auto
qed

end
