(* ===== verification/Radiance.thy ===== *)
theory Radiance
  imports KV_Prelude
begin

text \<open>
  A node of the Radiance consensus group, \<open>pkg/consensus/raft_node.go\<close> and
  \<open>pkg/consensus/raft_types.go\<close>. Every critical section under the node's mutex is one function:
  the RPC handlers, the bodies of the two timer loops, and what a goroutine does with the reply to
  its RPC. The goroutines a section starts are the RPCs it returns. Terms and log indexes start at
  0 and are only counted up, taken from lengths or clamped at 0, so they are natural numbers.
  Election deadlines are left out here, a timeout may fire at any time; \<open>Radiance_Timer\<close> adds them.
  The apply channel is the list of the messages sent on it. \<open>None\<close> is the panic of an index out of range.
\<close>

section \<open>Data\<close>

datatype Role = Follower | Candidate | Leader

definition Role_String :: "Role \<Rightarrow> string" where
  "Role_String r = (case r of Follower \<Rightarrow> ''Follower'' | Candidate \<Rightarrow> ''Candidate'' | Leader \<Rightarrow> ''Leader'')"

record RaftLogEntry =
  rl_Index :: nat
  rl_Term :: nat
  rl_Key :: bytes
  rl_Value :: bytes
  rl_Tombstone :: bool

record RequestVoteArgs =
  rv_Term :: nat
  rv_CandidateID :: int
  rv_LastLogIndex :: nat
  rv_LastLogTerm :: nat

record RequestVoteReply =
  vr_Term :: nat
  vr_VoteGranted :: bool

record AppendEntriesArgs =
  ae_Term :: nat
  ae_LeaderID :: int
  ae_PrevLogIndex :: nat
  ae_PrevLogTerm :: nat
  ae_Entries :: "RaftLogEntry list"
  ae_LeaderCommit :: nat

record AppendEntriesReply =
  ar_Term :: nat
  ar_Success :: bool

record ApplyMsg =
  am_CommandValid :: bool
  am_CommandIndex :: nat
  am_CommandTerm :: nat
  am_Key :: bytes
  am_Value :: bytes
  am_Tombstone :: bool

text \<open>
  \<open>rn_votesReceived t\<close> is the counter that the goroutines of the node's election in term \<open>t\<close>
  share. A missing key of the Go maps \<open>nextIndex\<close> and \<open>matchIndex\<close> reads as 0.
\<close>

record RaftNode =
  rn_id :: int
  rn_peers :: "int list"
  rn_currentTerm :: nat
  rn_votedFor :: int
  rn_log :: "RaftLogEntry list"
  rn_commitIndex :: nat
  rn_lastApplied :: nat
  rn_role :: Role
  rn_nextIndex :: "int \<Rightarrow> nat"
  rn_matchIndex :: "int \<Rightarrow> nat"
  rn_applyCh :: "ApplyMsg list option"
  rn_killed :: bool
  rn_votesReceived :: "nat \<Rightarrow> nat"

text \<open>The RPCs a goroutine is started for: the peer and the arguments.\<close>

datatype rpc = VoteCall int RequestVoteArgs | AppendCall int AppendEntriesArgs

definition dummy_entry :: RaftLogEntry where
  "dummy_entry = \<lparr>rl_Index = 0, rl_Term = 0, rl_Key = [], rl_Value = [], rl_Tombstone = False\<rparr>"

definition NewRaftNode :: "int \<Rightarrow> int list \<Rightarrow> ApplyMsg list option \<Rightarrow> RaftNode" where
  "NewRaftNode i ps applyCh =
     \<lparr>rn_id = i, rn_peers = ps, rn_currentTerm = 0, rn_votedFor = -1, rn_log = [dummy_entry],
      rn_commitIndex = 0, rn_lastApplied = 0, rn_role = Follower, rn_nextIndex = (\<lambda>_. 0),
      rn_matchIndex = (\<lambda>_. 0), rn_applyCh = applyCh, rn_killed = False, rn_votesReceived = (\<lambda>_. 0)\<rparr>"

definition majorityNeeded :: "RaftNode \<Rightarrow> nat" where
  "majorityNeeded r = (length (rn_peers r) + 1) div 2 + 1"

section \<open>Applying\<close>

definition apply_msg :: "RaftLogEntry \<Rightarrow> ApplyMsg" where
  "apply_msg e = \<lparr>am_CommandValid = True, am_CommandIndex = rl_Index e, am_CommandTerm = rl_Term e,
     am_Key = rl_Key e, am_Value = rl_Value e, am_Tombstone = rl_Tombstone e\<rparr>"

function applyLogs :: "RaftNode \<Rightarrow> RaftNode option" where
  "applyLogs r =
     (if rn_lastApplied r < rn_commitIndex r then
        let r1 = r\<lparr>rn_lastApplied := rn_lastApplied r + 1\<rparr> in
        if rn_lastApplied r1 < length (rn_log r1) then
          let entry = rn_log r1 ! rn_lastApplied r1 in
          (case rn_applyCh r1 of
             None \<Rightarrow> applyLogs r1
           | Some ch \<Rightarrow>
               if 0 < rl_Index entry then applyLogs (r1\<lparr>rn_applyCh := Some (ch @ [apply_msg entry])\<rparr>)
               else applyLogs r1)
        else None
      else Some r)"
  by pat_completeness auto
termination
  by (relation "measure (\<lambda>r. rn_commitIndex r - rn_lastApplied r)") auto

declare applyLogs.simps [simp del]

text \<open>The loop of \<open>checkAdvanceCommitIndex\<close> over \<open>N\<close>, which counts down from the last index.\<close>

fun advance_from :: "RaftNode \<Rightarrow> nat \<Rightarrow> RaftNode option" where
  "advance_from r 0 = Some r"
| "advance_from r (Suc N) =
     (if rn_commitIndex r < Suc N then
        if rl_Term (rn_log r ! Suc N) \<noteq> rn_currentTerm r then advance_from r N
        else let count = 1 + length (filter (\<lambda>p. Suc N \<le> rn_matchIndex r p) (rn_peers r)) in
          if majorityNeeded r \<le> count then applyLogs (r\<lparr>rn_commitIndex := Suc N\<rparr>)
          else advance_from r N
      else Some r)"

definition checkAdvanceCommitIndex :: "RaftNode \<Rightarrow> RaftNode option" where
  "checkAdvanceCommitIndex r = advance_from r (length (rn_log r) - 1)"

section \<open>Roles\<close>

definition becomeFollower :: "nat \<Rightarrow> RaftNode \<Rightarrow> RaftNode" where
  "becomeFollower t r = r\<lparr>rn_role := Follower, rn_currentTerm := t, rn_votedFor := -1\<rparr>"

definition heartbeat_call :: "RaftNode \<Rightarrow> int \<Rightarrow> rpc option" where
  "heartbeat_call r p =
     (let prevIndex = rn_nextIndex r p - 1 in
      if prevIndex < length (rn_log r) then
        Some (AppendCall p
          \<lparr>ae_Term = rn_currentTerm r, ae_LeaderID = rn_id r, ae_PrevLogIndex = prevIndex,
           ae_PrevLogTerm = rl_Term (rn_log r ! prevIndex),
           ae_Entries = drop (prevIndex + 1) (rn_log r), ae_LeaderCommit = rn_commitIndex r\<rparr>)
      else None)"

fun heartbeat_calls :: "RaftNode \<Rightarrow> int list \<Rightarrow> rpc list option" where
  "heartbeat_calls r [] = Some []"
| "heartbeat_calls r (p # ps) =
     (case heartbeat_call r p of
        None \<Rightarrow> None
      | Some c \<Rightarrow> (case heartbeat_calls r ps of None \<Rightarrow> None | Some cs \<Rightarrow> Some (c # cs)))"

definition broadcastHeartbeats :: "RaftNode \<Rightarrow> rpc list option" where
  "broadcastHeartbeats r =
     (if rn_role r \<noteq> Leader then Some [] else heartbeat_calls r (rn_peers r))"

definition becomeLeader :: "RaftNode \<Rightarrow> (RaftNode \<times> rpc list) option" where
  "becomeLeader r =
     (let r1 = r\<lparr>rn_role := Leader,
                 rn_nextIndex := (\<lambda>p. if p \<in> set (rn_peers r) then length (rn_log r) else rn_nextIndex r p),
                 rn_matchIndex := (\<lambda>p. if p \<in> set (rn_peers r) then 0 else rn_matchIndex r p)\<rparr>
      in map_option (Pair r1) (broadcastHeartbeats r1))"

definition startElection :: "RaftNode \<Rightarrow> (RaftNode \<times> rpc list) option" where
  "startElection r =
     (let t = rn_currentTerm r + 1;
          r1 = r\<lparr>rn_role := Candidate, rn_currentTerm := t, rn_votedFor := rn_id r\<rparr>
      in if rn_log r1 = [] then None
         else let lastLogIndex = length (rn_log r1) - 1;
                  lastLogTerm = rl_Term (rn_log r1 ! lastLogIndex);
                  r2 = r1\<lparr>rn_votesReceived := (rn_votesReceived r1)(t := 1)\<rparr>
              in if majorityNeeded r2 \<le> 1 then becomeLeader r2
                 else Some (r2, map (\<lambda>p. VoteCall p
                        \<lparr>rv_Term = t, rv_CandidateID = rn_id r2, rv_LastLogIndex = lastLogIndex,
                         rv_LastLogTerm = lastLogTerm\<rparr>) (rn_peers r2)))"

text \<open>What the goroutine of the election in term \<open>t\<close> does with a reply.\<close>

definition vote_reply :: "nat \<Rightarrow> RequestVoteReply \<Rightarrow> RaftNode \<Rightarrow> (RaftNode \<times> rpc list) option" where
  "vote_reply t reply r =
     (if rn_role r = Candidate \<and> rn_currentTerm r = t then
        if rn_currentTerm r < vr_Term reply then Some (becomeFollower (vr_Term reply) r, [])
        else if vr_VoteGranted reply then
          let granted = rn_votesReceived r t + 1;
              r1 = r\<lparr>rn_votesReceived := (rn_votesReceived r)(t := granted)\<rparr>
          in if majorityNeeded r1 \<le> granted \<and> rn_role r1 = Candidate then becomeLeader r1
             else Some (r1, [])
        else Some (r, [])
      else Some (r, []))"

text \<open>
  What the goroutine of an \<open>AppendEntries\<close> RPC in term \<open>t\<close> to the peer \<open>p\<close>, with \<open>n\<close> entries
  behind index \<open>pIdx\<close>, does with a reply.
\<close>

definition append_reply ::
  "nat \<Rightarrow> int \<Rightarrow> nat \<Rightarrow> nat \<Rightarrow> AppendEntriesReply \<Rightarrow> RaftNode \<Rightarrow> RaftNode option" where
  "append_reply t p pIdx n reply r =
     (if rn_role r = Leader \<and> rn_currentTerm r = t then
        if rn_currentTerm r < ar_Term reply then Some (becomeFollower (ar_Term reply) r)
        else if ar_Success reply then
          checkAdvanceCommitIndex
            (r\<lparr>rn_nextIndex := (rn_nextIndex r)(p := pIdx + n + 1),
               rn_matchIndex := (rn_matchIndex r)(p := pIdx + n)\<rparr>)
        else if 1 < rn_nextIndex r p
          then Some (r\<lparr>rn_nextIndex := (rn_nextIndex r)(p := rn_nextIndex r p - 1)\<rparr>)
          else Some r
      else Some r)"

section \<open>RPC handlers\<close>

definition RequestVote :: "RequestVoteArgs \<Rightarrow> RaftNode \<Rightarrow> (RaftNode \<times> RequestVoteReply) option" where
  "RequestVote args r =
     (let r1 = (if rn_currentTerm r < rv_Term args then becomeFollower (rv_Term args) r else r);
          reply = \<lparr>vr_Term = rn_currentTerm r1, vr_VoteGranted = False\<rparr>
      in if rv_Term args < rn_currentTerm r1 then Some (r1, reply)
         else if rn_log r1 = [] then None
         else let lastLogIndex = length (rn_log r1) - 1;
                  lastLogTerm = rl_Term (rn_log r1 ! lastLogIndex);
                  logUpToDate = (lastLogTerm < rv_LastLogTerm args
                    \<or> rv_LastLogTerm args = lastLogTerm \<and> lastLogIndex \<le> rv_LastLogIndex args)
              in if (rn_votedFor r1 = -1 \<or> rn_votedFor r1 = rv_CandidateID args) \<and> logUpToDate
                 then Some (r1\<lparr>rn_votedFor := rv_CandidateID args\<rparr>, reply\<lparr>vr_VoteGranted := True\<rparr>)
                 else Some (r1, reply))"

text \<open>The loop over the new entries, from index \<open>idx\<close> on.\<close>

fun append_entries :: "RaftLogEntry list \<Rightarrow> nat \<Rightarrow> RaftLogEntry list \<Rightarrow> RaftLogEntry list" where
  "append_entries log idx [] = log"
| "append_entries log idx (entry # es) =
     append_entries
       (if idx < length log then
          if rl_Term (log ! idx) \<noteq> rl_Term entry then take idx log @ [entry] else log
        else log @ [entry])
       (Suc idx) es"

definition AppendEntries :: "AppendEntriesArgs \<Rightarrow> RaftNode \<Rightarrow> (RaftNode \<times> AppendEntriesReply) option" where
  "AppendEntries args r =
     (let r1 = (if rn_currentTerm r < ae_Term args then becomeFollower (ae_Term args) r else r);
          reply = \<lparr>ar_Term = rn_currentTerm r1, ar_Success = False\<rparr>
      in if ae_Term args < rn_currentTerm r1 then Some (r1, reply)
         else let r2 = r1\<lparr>rn_role := Follower\<rparr> in
           if length (rn_log r2) \<le> ae_PrevLogIndex args
              \<or> rl_Term (rn_log r2 ! ae_PrevLogIndex args) \<noteq> ae_PrevLogTerm args
           then Some (r2, reply)
           else let r3 = r2\<lparr>rn_log := append_entries (rn_log r2) (ae_PrevLogIndex args + 1) (ae_Entries args)\<rparr>;
                    ok = reply\<lparr>ar_Success := True\<rparr>
                in if rn_commitIndex r3 < ae_LeaderCommit args then
                     map_option (\<lambda>r4. (r4, ok))
                       (applyLogs (r3\<lparr>rn_commitIndex :=
                          (if ae_LeaderCommit args < length (rn_log r3) - 1 then ae_LeaderCommit args
                           else length (rn_log r3) - 1)\<rparr>))
                   else Some (r3, ok))"

section \<open>Clients and timers\<close>

text \<open>\<open>Submit\<close>: the results are index (\<open>-1\<close> when not leader), term and whether it is the leader.\<close>

definition Submit ::
  "bytes \<Rightarrow> bytes \<Rightarrow> bool \<Rightarrow> RaftNode \<Rightarrow> (RaftNode \<times> rpc list \<times> int \<times> int \<times> bool) option" where
  "Submit key value tombstone r =
     (if rn_role r \<noteq> Leader then Some (r, [], -1, int (rn_currentTerm r), False)
      else let index = length (rn_log r);
               t = rn_currentTerm r;
               entry = \<lparr>rl_Index = index, rl_Term = t, rl_Key = key, rl_Value = value,
                        rl_Tombstone = tombstone\<rparr>;
               r1 = r\<lparr>rn_log := rn_log r @ [entry]\<rparr>
           in map_option (\<lambda>calls. (r1, calls, int index, int t, True)) (broadcastHeartbeats r1))"

definition GetState :: "RaftNode \<Rightarrow> nat \<times> bool" where
  "GetState r = (rn_currentTerm r, rn_role r = Leader)"

definition Kill :: "RaftNode \<Rightarrow> RaftNode" where
  "Kill r = r\<lparr>rn_killed := True\<rparr>"

text \<open>
  One tick of \<open>runElectionLoop\<close>, \<open>expired\<close> saying whether the deadline has passed, and one of
  \<open>runHeartbeatLoop\<close>. A killed node does nothing.
\<close>

definition election_tick :: "bool \<Rightarrow> RaftNode \<Rightarrow> (RaftNode \<times> rpc list) option" where
  "election_tick expired r =
     (if rn_killed r then Some (r, [])
      else if rn_role r \<noteq> Leader \<and> expired then startElection r
      else Some (r, []))"

definition heartbeat_tick :: "RaftNode \<Rightarrow> rpc list option" where
  "heartbeat_tick r =
     (if rn_killed r \<or> rn_role r \<noteq> Leader then Some [] else broadcastHeartbeats r)"

end
