(* ===== verification/Radiance_Spec.thy ===== *)
theory Radiance_Spec
  imports Radiance
begin

text \<open>
  The consensus protocol, stripped of messages, timers and bookkeeping: terms, votes, logs,
  acknowledgements and commit indexes, with the whole history of votes, candidacies and leaders
  kept in the state. The steps are the effects that the handlers of \<open>Radiance\<close> have; that they have
  no others is shown in \<open>Radiance_Cluster\<close>. Here the protocol is shown to be safe: what a majority
  acknowledged to a leader in its own term is in the log of every later leader.
\<close>

section \<open>Logs that agree\<close>

definition agree :: "RaftLogEntry list \<Rightarrow> RaftLogEntry list \<Rightarrow> nat \<Rightarrow> bool" where
  "agree L G i \<longleftrightarrow> i < length L \<and> i < length G \<and> take (Suc i) L = take (Suc i) G"

lemma agree_refl [simp]: "agree L L i \<longleftrightarrow> i < length L"
  by (simp add: agree_def)

lemma agree_sym: "agree L G i \<Longrightarrow> agree G L i"
  by (simp add: agree_def)

lemma agree_trans: "agree L G i \<Longrightarrow> agree G H i \<Longrightarrow> agree L H i"
  by (simp add: agree_def)

lemma agree_length: "agree L G i \<Longrightarrow> i < length L \<and> i < length G"
  by (simp add: agree_def)

lemma agree_mono:
  assumes "agree L G i" "j \<le> i"
  shows "agree L G j"
proof -
  have "take (Suc j) L = take (Suc j) (take (Suc i) L)" using assms(2) by (simp add: min_def)
  also have "\<dots> = take (Suc j) (take (Suc i) G)" using assms(1) by (simp add: agree_def)
  also have "\<dots> = take (Suc j) G" using assms(2) by (simp add: min_def)
  finally show ?thesis using assms by (simp add: agree_def)
qed

lemma agree_nth: "agree L G i \<Longrightarrow> j \<le> i \<Longrightarrow> L ! j = G ! j"
  unfolding agree_def by (metis le_imp_less_Suc nth_take)

lemma agree_append: "agree L G i \<Longrightarrow> agree L (G @ H) i"
  by (simp add: agree_def)

lemma agree_prefix: "prefix L G \<Longrightarrow> i < length L \<Longrightarrow> agree L G i"
  by (auto simp: agree_def prefix_def)

lemma agree_take: "i < n \<Longrightarrow> i < length G \<Longrightarrow> agree (take n G) G i"
  by (simp add: agree_def min_def)

lemma agree_append_left: "agree L G i \<Longrightarrow> agree (L @ H) G i"
  by (simp add: agree_def)

section \<open>Appending a segment of a leader's log\<close>

lemma take_drop_Suc: "k < length G \<Longrightarrow> take (Suc n) (drop k G) = G ! k # take n (drop (Suc k) G)"
  by (subst Cons_nth_drop_Suc [symmetric]) simp_all

lemma append_entries_tail:
  "Suc idx + n \<le> length G \<Longrightarrow>
   append_entries (take (Suc idx) G) (Suc idx) (take n (drop (Suc idx) G)) = take (Suc idx + n) G"
proof (induction n arbitrary: idx)
  case (Suc n)
  have d: "take (Suc n) (drop (Suc idx) G) = G ! Suc idx # take n (drop (Suc (Suc idx)) G)"
    using Suc.prems by (intro take_drop_Suc) simp
  have t: "take (Suc idx) G @ [G ! Suc idx] = take (Suc (Suc idx)) G"
    using Suc.prems by (simp add: take_Suc_conv_app_nth)
  show ?case
    using Suc.IH [of "Suc idx"] Suc.prems by (simp add: d t)
qed simp

text \<open>
  \<open>L\<close> is the follower's log and \<open>G\<close> the leader's; equal terms at an index mean that the logs
  agree up to there. Then the follower's log stays as it is and agrees with the segment, or it
  becomes the leader's log up to the end of the segment, and nothing that agreed is lost.
\<close>

lemma append_entries_segment:
  assumes match: "\<And>i. i < length L \<Longrightarrow> i < length G \<Longrightarrow> rl_Term (L ! i) = rl_Term (G ! i) \<Longrightarrow> agree L G i"
    and "agree L G prev" "prev + n < length G"
  shows "append_entries L (Suc prev) (take n (drop (Suc prev) G)) = L \<and> agree L G (prev + n)
    \<or> append_entries L (Suc prev) (take n (drop (Suc prev) G)) = take (Suc (prev + n)) G
      \<and> (\<forall>i. agree L G i \<longrightarrow> i \<le> prev + n)"
  using assms(2,3)
proof (induction n arbitrary: prev)
  case 0
  then show ?case by simp
next
  case (Suc n)
  let ?e = "G ! Suc prev"
  have d: "take (Suc n) (drop (Suc prev) G) = ?e # take n (drop (Suc (Suc prev)) G)"
    using Suc.prems by (intro take_drop_Suc) simp
  have t: "take (Suc prev) L @ [?e] = take (Suc (Suc prev)) G"
    using Suc.prems by (simp add: agree_def take_Suc_conv_app_nth)
  have tail: "append_entries (take (Suc (Suc prev)) G) (Suc (Suc prev)) (take n (drop (Suc (Suc prev)) G))
      = take (Suc (prev + Suc n)) G"
    using append_entries_tail [of "Suc prev" n G] Suc.prems(2) by simp
  show ?case
  proof (cases "Suc prev < length L \<and> rl_Term (L ! Suc prev) = rl_Term ?e")
    case True
    then have "agree L G (Suc prev)" using match Suc.prems by simp
    then show ?thesis using Suc.IH [of "Suc prev"] Suc.prems(2) True by (simp add: d)
  next
    case False
    have "append_entries L (Suc prev) (take (Suc n) (drop (Suc prev) G)) = take (Suc (prev + Suc n)) G"
    proof (cases "Suc prev < length L")
      case True
      then show ?thesis using False t tail by (simp add: d)
    next
      case short: False
      then have "length L = Suc prev" using Suc.prems(1) by (simp add: agree_def)
      then have "take (Suc prev) L = L" by simp
      then show ?thesis using short t tail by (simp add: d)
    qed
    moreover have "i \<le> prev + Suc n" if "agree L G i" for i
    proof (rule ccontr)
      assume "\<not> i \<le> prev + Suc n"
      then have "agree L G (Suc prev)" using that by (auto intro: agree_mono)
      then show False using False agree_nth [of L G "Suc prev" "Suc prev"] by (simp add: agree_def)
    qed
    ultimately show ?thesis by blast
  qed
qed

section \<open>Quorums\<close>

text \<open>All that is needed of a majority is that two of them share a node.\<close>

locale quorum_system =
  fixes quorum :: "'a set \<Rightarrow> bool"
  assumes meet: "quorum P \<Longrightarrow> quorum Q \<Longrightarrow> \<exists>q. q \<in> P \<and> q \<in> Q"
begin

lemma one_winner:
  assumes "quorum P" "quorum Q" "\<forall>q \<in> P. v q = Some a" "\<forall>q \<in> Q. v q = Some b"
  shows "a = b"
  using meet [OF assms(1,2)] assms(3,4) by fastforce

end

definition majority :: "int set \<Rightarrow> int set \<Rightarrow> bool" where
  "majority ids Q \<longleftrightarrow> finite ids \<and> Q \<subseteq> ids \<and> card ids div 2 + 1 \<le> card Q"

interpretation maj: quorum_system "majority ids" for ids
proof
  fix P Q
  assume "majority ids P" "majority ids Q"
  then have f: "finite ids" "P \<subseteq> ids" "Q \<subseteq> ids" "card ids div 2 + 1 \<le> card P" "card ids div 2 + 1 \<le> card Q"
    by (simp_all add: majority_def)
  show "\<exists>q. q \<in> P \<and> q \<in> Q"
  proof (rule ccontr)
    assume "\<nexists>q. q \<in> P \<and> q \<in> Q"
    then have "card (P \<union> Q) = card P + card Q"
      using f by (intro card_Un_disjoint) (auto intro: finite_subset)
    moreover have "card (P \<union> Q) \<le> card ids" using f by (intro card_mono) auto
    ultimately show False using f(4,5) by linarith
  qed
qed

lemma majority_mono: "majority ids P \<Longrightarrow> P \<subseteq> Q \<Longrightarrow> Q \<subseteq> ids \<Longrightarrow> majority ids Q"
  unfolding majority_def by (meson card_mono finite_subset le_trans)

section \<open>The protocol\<close>

text \<open>
  \<open>c_vote q t\<close> is whom \<open>q\<close> voted for in term \<open>t\<close>, \<open>c_cand c t\<close> the log \<open>c\<close> had when it stood for
  term \<open>t\<close>, \<open>c_lead t\<close> and \<open>c_wins t\<close> the leader of term \<open>t\<close> and who elected it, \<open>c_llog t\<close> its log,
  \<open>c_acks\<close> which node acknowledged the leader's log of which term up to which index, and
  \<open>c_lcommit t\<close> how far the leader of term \<open>t\<close> has committed.
\<close>

record core =
  c_term :: "int \<Rightarrow> nat"
  c_vote :: "int \<Rightarrow> nat \<Rightarrow> int option"
  c_cand :: "int \<Rightarrow> nat \<Rightarrow> RaftLogEntry list"
  c_lead :: "nat \<Rightarrow> int option"
  c_wins :: "nat \<Rightarrow> int set"
  c_llog :: "nat \<Rightarrow> RaftLogEntry list"
  c_log :: "int \<Rightarrow> RaftLogEntry list"
  c_acks :: "(int \<times> nat \<times> nat) set"
  c_commit :: "int \<Rightarrow> nat"
  c_lcommit :: "nat \<Rightarrow> nat"

definition core_init :: core where
  "core_init = \<lparr>c_term = (\<lambda>_. 0), c_vote = (\<lambda>_ _. None), c_cand = (\<lambda>_ _. []), c_lead = (\<lambda>_. None),
     c_wins = (\<lambda>_. {}), c_llog = (\<lambda>_. []), c_log = (\<lambda>_. [dummy_entry]), c_acks = {},
     c_commit = (\<lambda>_. 0), c_lcommit = (\<lambda>_. 0)\<rparr>"

definition up_to_date :: "RaftLogEntry list \<Rightarrow> RaftLogEntry list \<Rightarrow> bool" where
  "up_to_date C L \<longleftrightarrow> rl_Term (last L) < rl_Term (last C)
     \<or> rl_Term (last C) = rl_Term (last L) \<and> length L \<le> length C"

text \<open>The leader has what it holds itself; another node has what it acknowledged.\<close>

definition acked :: "core \<Rightarrow> int \<Rightarrow> nat \<Rightarrow> nat \<Rightarrow> bool" where
  "acked s q t i \<longleftrightarrow> c_lead s t = Some q \<and> i < length (c_llog s t) \<or> (\<exists>k \<ge> i. (q, t, k) \<in> c_acks s)"

inductive core_step :: "int set \<Rightarrow> core \<Rightarrow> core \<Rightarrow> bool" for ids :: "int set" where
  bump: "i \<in> ids \<Longrightarrow> c_term s i < t \<Longrightarrow> core_step ids s (s\<lparr>c_term := (c_term s)(i := t)\<rparr>)"
| stand: "i \<in> ids \<Longrightarrow> t = Suc (c_term s i) \<Longrightarrow>
    core_step ids s (s\<lparr>c_term := (c_term s)(i := t), c_vote := (c_vote s)(i := (c_vote s i)(t \<mapsto> i)),
      c_cand := (c_cand s)(i := (c_cand s i)(t := c_log s i))\<rparr>)"
| grant: "q \<in> ids \<Longrightarrow> c_vote s q (c_term s q) \<in> {None, Some c} \<Longrightarrow> c_vote s c (c_term s q) = Some c \<Longrightarrow>
    up_to_date (c_cand s c (c_term s q)) (c_log s q) \<Longrightarrow>
    core_step ids s (s\<lparr>c_vote := (c_vote s)(q := (c_vote s q)(c_term s q \<mapsto> c))\<rparr>)"
| win: "c \<in> ids \<Longrightarrow> t = c_term s c \<Longrightarrow> c_lead s t \<noteq> Some c \<Longrightarrow> c_vote s c t = Some c \<Longrightarrow>
    c_log s c = c_cand s c t \<Longrightarrow> majority ids {q \<in> ids. c_vote s q t = Some c} \<Longrightarrow>
    core_step ids s (s\<lparr>c_lead := (c_lead s)(t \<mapsto> c),
      c_wins := (c_wins s)(t := {q \<in> ids. c_vote s q t = Some c}),
      c_llog := (c_llog s)(t := c_log s c), c_lcommit := (c_lcommit s)(t := c_commit s c)\<rparr>)"
| extend: "c \<in> ids \<Longrightarrow> t = c_term s c \<Longrightarrow> c_lead s t = Some c \<Longrightarrow> c_log s c = c_llog s t \<Longrightarrow>
    rl_Term e = t \<Longrightarrow> rl_Index e = length (c_log s c) \<Longrightarrow>
    core_step ids s (s\<lparr>c_log := (c_log s)(c := c_log s c @ [e]), c_llog := (c_llog s)(t := c_log s c @ [e])\<rparr>)"
| accept: "q \<in> ids \<Longrightarrow> t = c_term s q \<Longrightarrow> c_lead s t \<noteq> None \<Longrightarrow> c_lead s t \<noteq> Some q \<Longrightarrow>
    prev < length (c_log s q) \<Longrightarrow> prev + n < length (c_llog s t) \<Longrightarrow>
    rl_Term (c_log s q ! prev) = rl_Term (c_llog s t ! prev) \<Longrightarrow>
    core_step ids s (s\<lparr>c_log := (c_log s)(q := append_entries (c_log s q) (Suc prev)
        (take n (drop (Suc prev) (c_llog s t)))), c_acks := insert (q, t, prev + n) (c_acks s)\<rparr>)"
| commit_leader: "c \<in> ids \<Longrightarrow> t = c_term s c \<Longrightarrow> c_lead s t = Some c \<Longrightarrow> c_log s c = c_llog s t \<Longrightarrow>
    0 < k \<Longrightarrow> k < length (c_llog s t) \<Longrightarrow> rl_Term (c_llog s t ! k) = t \<Longrightarrow>
    majority ids {q \<in> ids. acked s q t k} \<Longrightarrow> c_lcommit s t \<le> k \<Longrightarrow>
    core_step ids s (s\<lparr>c_commit := (c_commit s)(c := k), c_lcommit := (c_lcommit s)(t := k)\<rparr>)"
| commit_follower: "q \<in> ids \<Longrightarrow> t = c_term s q \<Longrightarrow> c_lead s t \<noteq> None \<Longrightarrow> k \<le> c_lcommit s t \<Longrightarrow>
    agree (c_log s q) (c_llog s t) k \<Longrightarrow>
    core_step ids s (s\<lparr>c_commit := (c_commit s)(q := k)\<rparr>)"

section \<open>The invariant\<close>

text \<open>
  A log is well-formed when it starts with the dummy entry, its terms do not decrease, every entry
  carries its index, and every prefix that ends with an entry of term \<open>t\<close> is a prefix of the log of
  the leader of term \<open>t\<close>.
\<close>

definition wf_log :: "core \<Rightarrow> RaftLogEntry list \<Rightarrow> bool" where
  "wf_log s L \<longleftrightarrow> L \<noteq> [] \<and> L ! 0 = dummy_entry \<and> sorted (map rl_Term L)
     \<and> (\<forall>i < length L. rl_Index (L ! i) = i)
     \<and> (\<forall>i < length L. 0 < i \<longrightarrow> 0 < rl_Term (L ! i) \<and> c_lead s (rl_Term (L ! i)) \<noteq> None
           \<and> agree L (c_llog s (rl_Term (L ! i))) i)"

definition inv_votes :: "core \<Rightarrow> bool" where
  "inv_votes s \<longleftrightarrow> (\<forall>q t. c_term s q < t \<longrightarrow> c_vote s q t = None)
     \<and> (\<forall>q t c. c_vote s q t = Some c \<longrightarrow> c_vote s c t = Some c \<and> 0 < t)"

definition inv_lead :: "int set \<Rightarrow> core \<Rightarrow> bool" where
  "inv_lead ids s \<longleftrightarrow> (\<forall>t c. c_lead s t = Some c \<longrightarrow> t \<le> c_term s c \<and> majority ids (c_wins s t)
     \<and> (\<forall>q \<in> c_wins s t. c_vote s q t = Some c) \<and> c_vote s c t = Some c \<and> 0 < t
     \<and> (\<exists>es. c_llog s t = c_cand s c t @ es \<and> (\<forall>e \<in> set es. rl_Term e = t)))"

definition inv_logs :: "int set \<Rightarrow> core \<Rightarrow> bool" where
  "inv_logs ids s \<longleftrightarrow>
     (\<forall>q \<in> ids. wf_log s (c_log s q) \<and> (\<forall>e \<in> set (c_log s q). rl_Term e \<le> c_term s q))
     \<and> (\<forall>t. c_lead s t \<noteq> None \<longrightarrow> wf_log s (c_llog s t) \<and> (\<forall>e \<in> set (c_llog s t). rl_Term e \<le> t))
     \<and> (\<forall>c t. c_vote s c t = Some c \<longrightarrow> wf_log s (c_cand s c t) \<and> (\<forall>e \<in> set (c_cand s c t). rl_Term e < t))"

definition inv_acks :: "int set \<Rightarrow> core \<Rightarrow> bool" where
  "inv_acks ids s \<longleftrightarrow> (\<forall>q t k. (q, t, k) \<in> c_acks s \<longrightarrow> q \<in> ids \<and> c_lead s t \<noteq> None
     \<and> k < length (c_llog s t) \<and> t \<le> c_term s q)"

text \<open>An entry a leader may commit by counting, and a later leader that does not have it.\<close>

definition pivot :: "core \<Rightarrow> nat \<Rightarrow> nat \<Rightarrow> bool" where
  "pivot s t i \<longleftrightarrow> c_lead s t \<noteq> None \<and> 0 < i \<and> i < length (c_llog s t) \<and> rl_Term (c_llog s t ! i) = t"

definition lacks :: "core \<Rightarrow> nat \<Rightarrow> nat \<Rightarrow> nat \<Rightarrow> bool" where
  "lacks s u t i \<longleftrightarrow> t < u \<and> c_lead s u \<noteq> None \<and> \<not> agree (c_llog s u) (c_llog s t) i"

text \<open>A node keeps what it acknowledged until a leader comes that lacks it.\<close>

definition inv_keep :: "int set \<Rightarrow> core \<Rightarrow> bool" where
  "inv_keep ids s \<longleftrightarrow> (\<forall>q \<in> ids. \<forall>t i. acked s q t i \<and> pivot s t i \<longrightarrow>
     agree (c_log s q) (c_llog s t) i \<or> (\<exists>u \<le> c_term s q. lacks s u t i))"

text \<open>So a vote goes to a candidate that has it, unless an earlier leader lacked it already.\<close>

definition inv_ballot :: "int set \<Rightarrow> core \<Rightarrow> bool" where
  "inv_ballot ids s \<longleftrightarrow> (\<forall>q \<in> ids. \<forall>u c t i. c_vote s q u = Some c \<and> c_lead s u = None
     \<and> acked s q t i \<and> pivot s t i \<and> t < u \<longrightarrow>
     agree (c_cand s c u) (c_llog s t) i \<or> (\<exists>v < u. lacks s v t i))"

definition inv_won :: "int set \<Rightarrow> core \<Rightarrow> bool" where
  "inv_won ids s \<longleftrightarrow> (\<forall>u q t i. c_lead s u \<noteq> None \<and> q \<in> c_wins s u \<and> acked s q t i \<and> pivot s t i \<and> t < u \<longrightarrow>
     agree (c_llog s u) (c_llog s t) i \<or> (\<exists>v < u. lacks s v t i))"

text \<open>Committed entries, and logs that are covered by them up to an index.\<close>

definition committed :: "int set \<Rightarrow> core \<Rightarrow> nat \<Rightarrow> nat \<Rightarrow> bool" where
  "committed ids s t i \<longleftrightarrow> pivot s t i \<and> majority ids {q \<in> ids. acked s q t i}"

definition covered :: "int set \<Rightarrow> core \<Rightarrow> RaftLogEntry list \<Rightarrow> nat \<Rightarrow> nat \<Rightarrow> bool" where
  "covered ids s L k u \<longleftrightarrow> k < length L
     \<and> (k = 0 \<or> (\<exists>t i. committed ids s t i \<and> t \<le> u \<and> k \<le> i \<and> agree L (c_llog s t) k))"

definition inv_commit :: "int set \<Rightarrow> core \<Rightarrow> bool" where
  "inv_commit ids s \<longleftrightarrow> (\<forall>q \<in> ids. covered ids s (c_log s q) (c_commit s q) (c_term s q))
     \<and> (\<forall>t. c_lead s t \<noteq> None \<longrightarrow> covered ids s (c_llog s t) (c_lcommit s t) t)"

definition core_inv :: "int set \<Rightarrow> core \<Rightarrow> bool" where
  "core_inv ids s \<longleftrightarrow> inv_votes s \<and> inv_lead ids s \<and> inv_logs ids s \<and> inv_acks ids s
     \<and> inv_keep ids s \<and> inv_ballot ids s \<and> inv_won ids s \<and> inv_commit ids s"

section \<open>The state only grows\<close>

definition ext :: "core \<Rightarrow> core \<Rightarrow> bool" where
  "ext s s' \<longleftrightarrow> (\<forall>i. c_term s i \<le> c_term s' i)
     \<and> (\<forall>q t c. c_vote s q t = Some c \<longrightarrow> c_vote s' q t = Some c)
     \<and> (\<forall>c t. c_vote s c t = Some c \<longrightarrow> c_cand s' c t = c_cand s c t)
     \<and> (\<forall>t c. c_lead s t = Some c \<longrightarrow> c_lead s' t = Some c \<and> c_wins s' t = c_wins s t
           \<and> (\<exists>es. c_llog s' t = c_llog s t @ es \<and> (\<forall>e \<in> set es. rl_Term e = t))
           \<and> c_lcommit s t \<le> c_lcommit s' t)
     \<and> c_acks s \<subseteq> c_acks s'"

lemma ext_lead: "ext s s' \<Longrightarrow> c_lead s t \<noteq> None \<Longrightarrow> c_lead s' t = c_lead s t"
  unfolding ext_def by (metis not_Some_eq)

lemma ext_llog:
  assumes "ext s s'" "c_lead s t \<noteq> None"
  obtains es where "c_llog s' t = c_llog s t @ es" "\<forall>e \<in> set es. rl_Term e = t"
  using assms unfolding ext_def by (metis not_Some_eq)

lemma ext_agree:
  assumes "ext s s'" "c_lead s t \<noteq> None" "agree L (c_llog s t) i"
  shows "agree L (c_llog s' t) i"
  using ext_llog [OF assms(1,2)] assms(3) by (metis agree_append)

lemma ext_agree2:
  assumes "ext s s'" "c_lead s t \<noteq> None" "c_lead s u \<noteq> None" "agree (c_llog s u) (c_llog s t) i"
  shows "agree (c_llog s' u) (c_llog s' t) i"
  using assms ext_agree agree_sym by meson

lemma ext_wf_log: "ext s s' \<Longrightarrow> wf_log s L \<Longrightarrow> wf_log s' L"
  unfolding wf_log_def using ext_agree ext_lead by metis

lemma ext_pivot: "ext s s' \<Longrightarrow> pivot s t i \<Longrightarrow> pivot s' t i"
  unfolding pivot_def by (metis ext_lead ext_llog length_append nth_append trans_less_add1)

lemma ext_pivot_back:
  "ext s s' \<Longrightarrow> c_lead s t \<noteq> None \<Longrightarrow> i < length (c_llog s t) \<Longrightarrow> pivot s' t i \<Longrightarrow> pivot s t i"
  unfolding pivot_def by (metis ext_llog nth_append)

lemma ext_acked: "ext s s' \<Longrightarrow> acked s q t i \<Longrightarrow> acked s' q t i"
proof -
  assume e: "ext s s'" and a: "acked s q t i"
  from a consider "c_lead s t = Some q" "i < length (c_llog s t)" | k where "i \<le> k" "(q, t, k) \<in> c_acks s"
    by (auto simp: acked_def)
  then show "acked s' q t i"
  proof cases
    case 1
    then have "c_lead s t \<noteq> None" by simp
    from ext_llog [OF e this] ext_lead [OF e this] 1 show ?thesis
      unfolding acked_def by (metis length_append trans_less_add1)
  next
    case 2
    then show ?thesis using e unfolding ext_def acked_def by blast
  qed
qed

text \<open>Later entries of a leader have its own term, so what it lacks it never gets.\<close>

lemma ext_lacks:
  assumes e: "ext s s'" and p: "pivot s t i" and l: "lacks s u t i"
  shows "lacks s' u t i"
proof -
  have u: "t < u" "c_lead s u \<noteq> None" and n: "\<not> agree (c_llog s u) (c_llog s t) i"
    using l by (simp_all add: lacks_def)
  have t: "c_lead s t \<noteq> None" "i < length (c_llog s t)" "rl_Term (c_llog s t ! i) = t"
    using p by (simp_all add: pivot_def)
  obtain es where es: "c_llog s' u = c_llog s u @ es" "\<forall>e \<in> set es. rl_Term e = u"
    using ext_llog [OF e u(2)] .
  obtain fs where fs: "c_llog s' t = c_llog s t @ fs" using ext_llog [OF e t(1)] .
  have "\<not> agree (c_llog s' u) (c_llog s' t) i"
  proof
    assume a: "agree (c_llog s' u) (c_llog s' t) i"
    show False
    proof (cases "i < length (c_llog s u)")
      case True
      then have "agree (c_llog s u) (c_llog s t) i" using a t(2) by (simp add: agree_def es(1) fs)
      then show False using n by simp
    next
      case False
      then have "c_llog s' u ! i = es ! (i - length (c_llog s u))" "i - length (c_llog s u) < length es"
        using agree_length [OF a] es(1) by (auto simp: nth_append)
      then have "rl_Term (c_llog s' u ! i) = u" using es(2) by simp
      moreover have "c_llog s' u ! i = c_llog s t ! i"
        using agree_nth [OF a order_refl] t(2) fs by (simp add: nth_append)
      ultimately show False using t(3) u(1) by simp
    qed
  qed
  then show ?thesis using u ext_lead [OF e u(2)] by (simp add: lacks_def)
qed

lemma ext_committed:
  assumes e: "ext s s'" and c: "committed ids s t i"
  shows "committed ids s' t i"
proof -
  have "majority ids {q \<in> ids. acked s' q t i}"
    by (rule majority_mono [of ids "{q \<in> ids. acked s q t i}"])
      (use c ext_acked [OF e] in \<open>auto simp: committed_def\<close>)
  then show ?thesis using c ext_pivot [OF e] by (simp add: committed_def)
qed

lemma committed_lead: "committed ids s t i \<Longrightarrow> c_lead s t \<noteq> None"
  by (simp add: committed_def pivot_def)

lemma ext_covered:
  assumes e: "ext s s'" and c: "covered ids s L k u" and "u \<le> u'"
  shows "covered ids s' (L @ M) k u'"
proof (cases "k = 0")
  case True
  then show ?thesis using c by (simp add: covered_def)
next
  case False
  then obtain t i where "committed ids s t i" "t \<le> u" "k \<le> i" "agree L (c_llog s t) k" "k < length L"
    using c by (auto simp: covered_def)
  moreover from this have "agree (L @ M) (c_llog s' t) k"
    using ext_agree [OF e] committed_lead agree_append_left by blast
  ultimately show ?thesis
    using ext_committed [OF e] assms(3) unfolding covered_def
    by (metis le_trans length_append trans_less_add1)
qed

section \<open>Consequences of the invariant\<close>

lemma log_matching:
  assumes "wf_log s L" "wf_log s G" "i < length L" "i < length G" "rl_Term (L ! i) = rl_Term (G ! i)"
  shows "agree L G i"
proof (cases "i = 0")
  case True
  have "L \<noteq> []" "G \<noteq> []" "L ! 0 = G ! 0" using assms(1,2) by (auto simp: wf_log_def)
  then show ?thesis using True by (cases L; cases G) (auto simp: agree_def)
next
  case False
  have "agree L (c_llog s (rl_Term (L ! i))) i" "agree G (c_llog s (rl_Term (G ! i))) i"
    using assms False by (auto simp: wf_log_def)
  then show ?thesis using assms(5) by (metis agree_sym agree_trans)
qed

lemma wf_log_sorted:
  assumes "wf_log s L" "i \<le> j" "j < length L"
  shows "rl_Term (L ! i) \<le> rl_Term (L ! j)"
  using assms sorted_nth_mono [of "map rl_Term L" i j] by (simp add: wf_log_def)

lemma wf_log_take: "wf_log s L \<Longrightarrow> 0 < n \<Longrightarrow> wf_log s (take n L)"
proof -
  assume w: "wf_log s L" and n: "0 < n"
  have "agree (take n L) (c_llog s (rl_Term (L ! i))) i"
    if "i < length L" "i < n" "0 < i" for i
  proof -
    have "agree (take n L) L i" using that by (intro agree_take)
    moreover have "agree L (c_llog s (rl_Term (L ! i))) i" using w that by (simp add: wf_log_def)
    ultimately show ?thesis by (rule agree_trans)
  qed
  then show ?thesis using w n by (auto simp: wf_log_def sorted_wrt_take take_map [symmetric])
qed

lemma acked_term:
  assumes "inv_lead ids s" "inv_acks ids s" "acked s q t i"
  shows "t \<le> c_term s q"
  using assms unfolding acked_def inv_lead_def inv_acks_def by blast

lemma acked_lead:
  assumes "inv_acks ids s" "acked s q t i"
  shows "c_lead s t \<noteq> None" "i < length (c_llog s t)"
  using assms unfolding acked_def inv_acks_def by (force)+

text \<open>Only one node can win an election.\<close>

lemma win_fresh:
  assumes "inv_lead ids s" "majority ids {q \<in> ids. c_vote s q t = Some c}" "c_lead s t \<noteq> Some c"
  shows "c_lead s t = None"
proof (rule ccontr)
  assume "c_lead s t \<noteq> None"
  then obtain d where d: "c_lead s t = Some d" by auto
  then have "majority ids (c_wins s t)" "\<forall>q \<in> c_wins s t. c_vote s q t = Some d"
    using assms(1) unfolding inv_lead_def by blast+
  then have "d = c" using maj.one_winner [of ids "c_wins s t" "{q \<in> ids. c_vote s q t = Some c}"
      "\<lambda>q. c_vote s q t" d c] assms(2) by blast
  then show False using d assms(3) by simp
qed

text \<open>Leader completeness: every later leader has every committed entry.\<close>

lemma leader_completeness:
  assumes w: "inv_won ids s" and c: "committed ids s t i" and l: "inv_lead ids s"
    and u: "c_lead s u \<noteq> None" "t < u"
  shows "agree (c_llog s u) (c_llog s t) i"
  using u
proof (induction u rule: less_induct)
  case (less u)
  have "majority ids (c_wins s u)" using l less.prems(1) unfolding inv_lead_def by blast
  moreover have "majority ids {q \<in> ids. acked s q t i}" using c by (simp add: committed_def)
  ultimately obtain q where "q \<in> c_wins s u" "acked s q t i" using maj.meet by blast
  then have "agree (c_llog s u) (c_llog s t) i \<or> (\<exists>v < u. lacks s v t i)"
    using w c less.prems unfolding inv_won_def committed_def by blast
  then show ?case using less.IH unfolding lacks_def by blast
qed

lemma covered_agree:
  assumes i: "core_inv ids s" and "covered ids s L k t" "c_lead s u \<noteq> None" "t \<le> u" and "wf_log s L"
  shows "agree (c_llog s u) L k"
proof (cases "k = 0")
  case True
  have "wf_log s (c_llog s u)" using i assms(3) unfolding core_inv_def inv_logs_def by blast
  then show ?thesis
    using True assms(5) by (intro log_matching [of s]) (auto simp: wf_log_def)
next
  case False
  then obtain t' j where c: "committed ids s t' j" "t' \<le> t" "k \<le> j" "agree L (c_llog s t') k"
    using assms(2) by (auto simp: covered_def)
  have "agree (c_llog s u) (c_llog s t') k"
  proof (cases "t' = u")
    case True
    then show ?thesis using c(4) by (simp add: agree_def)
  next
    case ne: False
    have "agree (c_llog s u) (c_llog s t') j"
      by (rule leader_completeness [OF _ c(1)]) (use i assms(3,4) c(2) ne in \<open>auto simp: core_inv_def\<close>)
    then show ?thesis using c(3) by (rule agree_mono)
  qed
  then show ?thesis using c(4) agree_sym agree_trans by blast
qed

section \<open>Every step keeps the invariant\<close>

lemma ext_refl_like:
  "c_term s' = c_term s \<Longrightarrow> c_vote s' = c_vote s \<Longrightarrow> c_cand s' = c_cand s \<Longrightarrow> c_lead s' = c_lead s \<Longrightarrow>
   c_wins s' = c_wins s \<Longrightarrow> c_llog s' = c_llog s \<Longrightarrow>
   (\<And>t. c_lcommit s t \<le> c_lcommit s' t) \<Longrightarrow> c_acks s \<subseteq> c_acks s' \<Longrightarrow> ext s s'"
  by (simp add: ext_def)

lemma step_ext:
  assumes "core_step ids s s'" "core_inv ids s"
  shows "ext s s'"
  using assms(1)
proof cases
  case (bump i t)
  then show ?thesis by (auto simp: ext_def)
next
  case (stand i t)
  have "c_vote s i t = None" using assms(2) stand unfolding core_inv_def inv_votes_def by auto
  then show ?thesis using stand by (auto simp: ext_def)
next
  case (grant q c)
  then show ?thesis by (auto simp: ext_def)
next
  case (win c t)
  have "c_lead s t = None" using win_fresh [of ids s t c] win assms(2) by (simp add: core_inv_def)
  then show ?thesis using win by (auto simp: ext_def)
next
  case (extend c t e)
  then show ?thesis by (auto simp: ext_def)
next
  case (accept q t prev n)
  then show ?thesis by (auto simp: ext_def)
next
  case (commit_leader c t k)
  then show ?thesis by (intro ext_refl_like) simp_all
next
  case (commit_follower q t k)
  then show ?thesis by (intro ext_refl_like) simp_all
qed

text \<open>What a follower's log becomes when it takes entries of the leader.\<close>

lemma accept_log:
  fixes prev n q s T
  defines "L \<equiv> append_entries (c_log s q) (Suc prev) (take n (drop (Suc prev) (c_llog s T)))"
  assumes i: "core_inv ids s" and q: "q \<in> ids" and l: "c_lead s T \<noteq> None"
    and len: "prev < length (c_log s q)" "prev + n < length (c_llog s T)"
    and t: "rl_Term (c_log s q ! prev) = rl_Term (c_llog s T ! prev)"
  shows "agree L (c_llog s T) (prev + n)"
    and "agree (c_log s q) (c_llog s T) j \<Longrightarrow> agree L (c_llog s T) j"
    and "L = c_log s q \<or> L = take (Suc (prev + n)) (c_llog s T)"
proof -
  have wf: "wf_log s (c_log s q)" "wf_log s (c_llog s T)"
    using i q l unfolding core_inv_def inv_logs_def by blast+
  have m: "agree (c_log s q) (c_llog s T) j" if "j < length (c_log s q)" "j < length (c_llog s T)"
    "rl_Term (c_log s q ! j) = rl_Term (c_llog s T ! j)" for j
    using log_matching [OF wf that] .
  have p: "agree (c_log s q) (c_llog s T) prev" using len t by (intro m) simp_all
  from append_entries_segment [OF m p len(2)]
  consider "L = c_log s q" "agree (c_log s q) (c_llog s T) (prev + n)"
    | "L = take (Suc (prev + n)) (c_llog s T)" "\<forall>i. agree (c_log s q) (c_llog s T) i \<longrightarrow> i \<le> prev + n"
    unfolding L_def by blast
  note cs = this
  from cs show "agree L (c_llog s T) (prev + n)"
    using len(2) by cases (simp_all add: agree_take)
  from cs show "agree L (c_llog s T) j" if "agree (c_log s q) (c_llog s T) j"
    using that by cases (simp_all add: agree_take agree_length less_Suc_eq_le)
  from cs show "L = c_log s q \<or> L = take (Suc (prev + n)) (c_llog s T)" by cases simp_all
qed

text \<open>Only the node that takes entries, or the leader that extends its log, acknowledges more.\<close>

text \<open>A new leader has no entry of its own term yet.\<close>

lemma win_no_pivot:
  assumes i: "core_inv ids s" and v: "c_vote s c u = Some c" and l: "c_llog s' u = c_cand s c u"
  shows "\<not> pivot s' u k"
proof
  assume "pivot s' u k"
  then have "k < length (c_cand s c u)" "rl_Term (c_cand s c u ! k) = u"
    using l by (simp_all add: pivot_def)
  moreover have "\<forall>e \<in> set (c_cand s c u). rl_Term e < u"
    using i v unfolding core_inv_def inv_logs_def by blast
  ultimately show False by (metis nth_mem less_irrefl)
qed

lemma step_acked:
  assumes st: "core_step ids s s'" and i: "core_inv ids s" and a: "acked s' q t i" "pivot s' t i"
  shows "acked s q t i \<and> pivot s t i
    \<or> t = c_term s q \<and> agree (c_log s' q) (c_llog s' t) i \<and> c_term s' = c_term s \<and> c_vote s' = c_vote s"
proof -
  have e: "ext s s'" using step_ext st i .
  have ia: "inv_acks ids s" using i by (simp add: core_inv_def)
  have old: ?thesis if "acked s q t i"
    using that acked_lead [OF ia that] ext_pivot_back [OF e _ _ a(2)] by blast
  from st show ?thesis
  proof cases
    case (win c u)
    have "t \<noteq> u" using win_no_pivot [OF i, of c u s'] a(2) win by auto
    then show ?thesis using a win by (simp add: acked_def pivot_def)
  next
    case (extend c u e)
    show ?thesis
    proof (cases "t = u \<and> q = c")
      case True
      then show ?thesis using extend a by (simp add: pivot_def)
    next
      case False
      then have "acked s q t i" using a(1) extend by (auto simp: acked_def split: if_splits)
      then show ?thesis by (rule old)
    qed
  next
    case (accept p T prev n)
    show ?thesis
    proof (cases "acked s q t i")
      case True
      then show ?thesis by (rule old)
    next
      case False
      then have eq: "q = p" "t = T" "i \<le> prev + n" using a(1) accept by (auto simp: acked_def)
      have "agree (c_log s' p) (c_llog s T) (prev + n)"
        using accept_log(1) [OF i accept(2,4,6,7,8)] accept(1) by simp
      then show ?thesis using accept eq by (auto intro: agree_mono)
    qed
  qed (use a in \<open>simp add: acked_def pivot_def\<close>)+
qed

lemma step_votes:
  assumes "core_step ids s s'" "core_inv ids s"
  shows "inv_votes s'"
proof -
  have "inv_votes s" using assms(2) by (simp add: core_inv_def)
  with assms(1) show ?thesis
    by cases (auto simp: inv_votes_def split: if_splits)
qed

lemma ext_inv_lead:
  assumes e: "ext s s'" and l: "inv_lead ids s" and "c_lead s t = Some c"
  shows "t \<le> c_term s' c \<and> majority ids (c_wins s' t)
     \<and> (\<forall>q \<in> c_wins s' t. c_vote s' q t = Some c) \<and> c_vote s' c t = Some c \<and> 0 < t
     \<and> (\<exists>es. c_llog s' t = c_cand s' c t @ es \<and> (\<forall>e \<in> set es. rl_Term e = t))"
proof -
  have l': "t \<le> c_term s c" "majority ids (c_wins s t)" "\<forall>q \<in> c_wins s t. c_vote s q t = Some c"
    "c_vote s c t = Some c" "0 < t"
    using l assms(3) unfolding inv_lead_def by blast+
  obtain es where es: "c_llog s t = c_cand s c t @ es" "\<forall>e \<in> set es. rl_Term e = t"
    using l assms(3) unfolding inv_lead_def by blast
  obtain fs where fs: "c_llog s' t = c_llog s t @ fs" "\<forall>e \<in> set fs. rl_Term e = t"
    using ext_llog [OF e, of t] assms(3) by auto
  have e': "c_term s c \<le> c_term s' c" "\<And>q. c_vote s q t = Some c \<Longrightarrow> c_vote s' q t = Some c"
    "c_cand s' c t = c_cand s c t" "c_wins s' t = c_wins s t"
    using e l'(4) assms(3) unfolding ext_def by blast+
  have "c_llog s' t = c_cand s' c t @ es @ fs \<and> (\<forall>e \<in> set (es @ fs). rl_Term e = t)"
    using es fs e'(3) by auto
  moreover have "t \<le> c_term s' c" using l'(1) e'(1) by simp
  ultimately show ?thesis using l' e' by auto
qed

lemma step_lead:
  assumes st: "core_step ids s s'" and i: "core_inv ids s"
  shows "inv_lead ids s'"
proof -
  have e: "ext s s'" using step_ext st i .
  have l: "inv_lead ids s" using i by (simp add: core_inv_def)
  from st show ?thesis
  proof cases
    case (win c t)
    have "0 < t" using i win unfolding core_inv_def inv_votes_def by blast
    then have "u \<le> c_term s' d \<and> majority ids (c_wins s' u)
     \<and> (\<forall>q \<in> c_wins s' u. c_vote s' q u = Some d) \<and> c_vote s' d u = Some d \<and> 0 < u
     \<and> (\<exists>es. c_llog s' u = c_cand s' d u @ es \<and> (\<forall>e \<in> set es. rl_Term e = u))"
      if "c_lead s' u = Some d" for u d
    proof (cases "u = t")
      case True
      then have "d = c" using that win by simp
      then show ?thesis using True win \<open>0 < t\<close> by simp
    next
      case False
      then have "c_lead s u = Some d" using that win by simp
      then show ?thesis by (rule ext_inv_lead [OF e l])
    qed
    then show ?thesis unfolding inv_lead_def by blast
  qed (use ext_inv_lead [OF e l] in \<open>simp add: inv_lead_def\<close>)+
qed

lemma step_acks:
  assumes st: "core_step ids s s'" and i: "core_inv ids s"
  shows "inv_acks ids s'"
proof -
  have e: "ext s s'" using step_ext st i .
  have a: "inv_acks ids s" using i by (simp add: core_inv_def)
  have *: "q \<in> ids \<and> c_lead s' t \<noteq> None \<and> k < length (c_llog s' t) \<and> t \<le> c_term s' q"
    if "(q, t, k) \<in> c_acks s" for q t k
  proof -
    have o: "q \<in> ids" "c_lead s t \<noteq> None" "k < length (c_llog s t)" "t \<le> c_term s q"
      using a that unfolding inv_acks_def by blast+
    have "k < length (c_llog s' t)" using ext_llog [OF e o(2)] o(3) by (metis length_append trans_less_add1)
    moreover have "c_term s q \<le> c_term s' q" using e unfolding ext_def by blast
    ultimately show ?thesis using o ext_lead [OF e o(2)] by simp
  qed
  from st show ?thesis
  proof cases
    case (accept p T prev n)
    then have "q \<in> ids \<and> c_lead s' t \<noteq> None \<and> k < length (c_llog s' t) \<and> t \<le> c_term s' q"
      if "(q, t, k) \<in> c_acks s'" for q t k
      using that * [of q t k] by auto
    then show ?thesis unfolding inv_acks_def by blast
  qed (use * in \<open>simp add: inv_acks_def\<close>)+
qed

text \<open>A log that takes entries of the leader of its term keeps an acknowledged prefix, or that leader lacks it.\<close>

lemma accept_keep:
  assumes g: "agree L (c_llog s t) j" and L: "agree L (c_llog s T) j \<Longrightarrow> agree L' (c_llog s T) j"
    and T: "t \<le> T" "c_lead s T \<noteq> None"
  shows "agree L' (c_llog s t) j \<or> lacks s T t j"
proof (cases "agree (c_llog s T) (c_llog s t) j")
  case True
  then have "agree L' (c_llog s T) j" using g agree_sym agree_trans L by blast
  then show ?thesis using True agree_trans by blast
next
  case False
  then have "t \<noteq> T" using agree_length [OF g] by auto
  then show ?thesis using False T by (simp add: lacks_def)
qed

lemma step_keep:
  assumes st: "core_step ids s s'" and i: "core_inv ids s"
  shows "inv_keep ids s'"
proof -
  have e: "ext s s'" using step_ext st i .
  have old: "agree (c_log s q) (c_llog s' t) j \<or> (\<exists>u \<le> c_term s' q. lacks s' u t j)"
    if "q \<in> ids" "acked s q t j" "pivot s t j" for q t j
  proof -
    have "agree (c_log s q) (c_llog s t) j \<or> (\<exists>u \<le> c_term s q. lacks s u t j)"
      using i that unfolding core_inv_def inv_keep_def by blast
    moreover have "c_term s q \<le> c_term s' q" using e unfolding ext_def by blast
    moreover have "c_lead s t \<noteq> None" using that(3) by (simp add: pivot_def)
    ultimately show ?thesis using ext_agree [OF e] ext_lacks [OF e that(3)] le_trans by blast
  qed
  have kept: "agree (c_log s' q) (c_llog s' t) j \<or> (\<exists>u \<le> c_term s' q. lacks s' u t j)"
    if a: "q \<in> ids" "acked s q t j" "pivot s t j" for q t j
    using st
  proof cases
    case (extend c u x)
    then have "c_log s' q = c_log s q @ (if q = c then [x] else [])" by simp
    then show ?thesis using old [OF a] agree_append_left by metis
  next
    case (accept p T prev n)
    show ?thesis
    proof (cases "q = p \<and> agree (c_log s q) (c_llog s' t) j")
      case True
      then have g: "agree (c_log s p) (c_llog s t) j" using accept(1) by auto
      note al = accept_log [OF i accept(2,4,6,7,8)]
      have "t \<le> T" using acked_term [OF _ _ a(2), of ids] i True accept(3) by (simp add: core_inv_def)
      then have "agree (c_log s' p) (c_llog s t) j \<or> lacks s T t j"
        using accept_keep [OF g _ _ accept(4), of "c_log s' p"] al(2) accept(1) by simp
      then show ?thesis using True accept by (auto simp: lacks_def)
    next
      case False
      then show ?thesis using old [OF a] accept by auto
    qed
  qed (use old [OF a] in simp)+
  show ?thesis unfolding inv_keep_def
    using kept step_acked [OF st i] by blast
qed

text \<open>
  The voter's log and the candidate's: the candidate's last entry is at least as recent, so the
  candidate has what the voter still has, or the leader of the candidate's last term lacked it.
\<close>

text \<open>The log of a leader of a later term \<open>w\<close> that has an entry of term \<open>t\<close> has it before its first entry of term \<open>w\<close>.\<close>

lemma newer_term_behind:
  assumes wf: "wf_log s L" and n: "n < length L" "rl_Term (L ! n) = w"
    and j: "agree L (c_llog s t) j" "rl_Term (c_llog s t ! j) = t" "t < w"
  shows "j \<le> n"
proof (rule ccontr)
  assume "\<not> j \<le> n"
  then have "w \<le> rl_Term (L ! j)" using wf_log_sorted [OF wf, of n j] agree_length [OF j(1)] n by simp
  moreover have "rl_Term (L ! j) = t" using agree_nth [OF j(1) order_refl] j(2) by simp
  ultimately show False using j(3) by simp
qed

lemma grant_ballot:
  assumes i: "core_inv ids s" and q: "q \<in> ids" and u: "u = c_term s q"
    and v: "c_vote s c u = Some c" "up_to_date (c_cand s c u) (c_log s q)"
    and p: "pivot s t j" "t < u" and g: "agree (c_log s q) (c_llog s t) j"
  shows "agree (c_cand s c u) (c_llog s t) j \<or> (\<exists>w < u. lacks s w t j)"
proof -
  let ?C = "c_cand s c u" and ?L = "c_log s q"
  have wf: "wf_log s ?C" "wf_log s ?L" and lt: "\<forall>e \<in> set ?C. rl_Term e < u"
    using i q v(1) unfolding core_inv_def inv_logs_def by blast+
  have ne: "?C \<noteq> []" "?L \<noteq> []" using wf by (auto simp: wf_log_def)
  have j: "j < length ?L" "rl_Term (?L ! j) = t" "0 < j"
    using agree_length [OF g] agree_nth [OF g order_refl] p(1) by (simp_all add: pivot_def)
  then have "0 < t" using wf(2) by (auto simp: wf_log_def)
  have lastL: "t \<le> rl_Term (last ?L)"
    using wf_log_sorted [OF wf(2), of j "length ?L - 1"] j ne by (simp add: last_conv_nth)
  let ?w = "rl_Term (last ?C)"
  have lc: "last ?C = ?C ! (length ?C - 1)" using ne by (simp add: last_conv_nth)
  have "?w < u" using lt ne by simp
  have "t \<le> ?w" using v(2) lastL by (auto simp: up_to_date_def)
  then have "0 < length ?C - 1" using wf(1) lc \<open>0 < t\<close> ne
    by (cases "length ?C - 1 = 0") (auto simp: wf_log_def dummy_entry_def)
  then have w: "c_lead s ?w \<noteq> None" "agree ?C (c_llog s ?w) (length ?C - 1)"
    using wf(1) ne lc by (simp_all add: wf_log_def)
  show ?thesis
  proof (cases "rl_Term (last ?L) < ?w")
    case True
    show ?thesis
    proof (cases "agree (c_llog s ?w) (c_llog s t) j")
      case a: True
      have "wf_log s (c_llog s ?w)" using i w(1) unfolding core_inv_def inv_logs_def by blast
      moreover have "rl_Term (c_llog s ?w ! (length ?C - 1)) = ?w"
        using agree_nth [OF w(2) order_refl] lc by simp
      ultimately have "j \<le> length ?C - 1"
        using newer_term_behind [OF _ _ _ a] agree_length [OF w(2)] p(1) True lastL by (simp add: pivot_def)
      then show ?thesis using agree_mono [OF w(2)] a agree_trans by blast
    next
      case False
      then have "lacks s ?w t j" using w(1) True lastL by (simp add: lacks_def)
      then show ?thesis using \<open>?w < u\<close> by blast
    qed
  next
    case False
    then have eq: "?w = rl_Term (last ?L)" "length ?L \<le> length ?C" using v(2) by (auto simp: up_to_date_def)
    let ?m = "length ?L - 1"
    have "0 < ?m" using j by simp
    then have "agree ?L (c_llog s ?w) ?m" using wf(2) ne eq(1) by (simp add: wf_log_def last_conv_nth)
    moreover have "agree ?C (c_llog s ?w) ?m" using agree_mono [OF w(2), of ?m] eq(2) by simp
    ultimately have "agree ?C ?L ?m" using agree_sym agree_trans by blast
    then have "agree ?C ?L j" using j(1) by (auto intro: agree_mono)
    then show ?thesis using g agree_trans by blast
  qed
qed

text \<open>A vote that a step adds: of a candidate for itself, or granted to a candidate.\<close>

lemma new_vote_ballot:
  assumes st: "core_step ids s s'" and i: "core_inv ids s" and q: "q \<in> ids"
    and v: "c_vote s' q u = Some c" "c_vote s q u \<noteq> Some c" and lead: "c_lead s u = None"
    and a: "acked s q t j" "pivot s t j" "t < u"
  shows "agree (c_cand s' c u) (c_llog s t) j \<or> (\<exists>w < u. lacks s w t j)"
proof -
  have keep: "agree (c_log s q) (c_llog s t) j \<or> (\<exists>w \<le> c_term s q. lacks s w t j)"
    using i q a(1,2) unfolding core_inv_def inv_keep_def by blast
  from st show ?thesis
  proof cases
    case (stand k T)
    then have "q = k" "u = Suc (c_term s q)" "c = q" using v by (auto split: if_splits)
    then have "c_cand s' c u = c_log s q" "c_term s q < u" using stand by simp_all
    then show ?thesis using keep by fastforce
  next
    case (grant p d)
    then have eq: "q = p" "u = c_term s q" "c = d" using v by (auto split: if_splits)
    consider "agree (c_log s q) (c_llog s t) j" | w where "w \<le> u" "lacks s w t j"
      using keep eq(2) by blast
    then show ?thesis
    proof cases
      case 1
      then show ?thesis using grant_ballot [OF i q eq(2) _ _ a(2,3) 1, of c] grant eq by simp
    next
      case 2
      then have "w \<noteq> u" using lead by (auto simp: lacks_def)
      then show ?thesis using 2 by (intro disjI2 exI [of _ w]) simp
    qed
  qed (use v in auto)
qed

lemma step_ballot:
  assumes st: "core_step ids s s'" and i: "core_inv ids s"
  shows "inv_ballot ids s'"
proof -
  have e: "ext s s'" using step_ext st i .
  have v: "inv_votes s" using i by (simp add: core_inv_def)
  have old: "agree (c_cand s c u) (c_llog s t) j \<or> (\<exists>w < u. lacks s w t j)"
    if "q \<in> ids" "c_vote s q u = Some c" "c_lead s u = None" "acked s q t j" "pivot s t j" "t < u" for q u c t j
    using i that unfolding core_inv_def inv_ballot_def by blast
  have "agree (c_cand s' c u) (c_llog s' t) j \<or> (\<exists>w < u. lacks s' w t j)"
    if a: "q \<in> ids" "c_vote s' q u = Some c" "c_lead s' u = None" "acked s' q t j" "pivot s' t j" "t < u"
    for q u c t j
  proof -
    have ap: "acked s q t j" "pivot s t j"
    proof -
      have "\<not> (t = c_term s q \<and> c_vote s' = c_vote s)" using v a(2,6) by (auto simp: inv_votes_def)
      then show "acked s q t j" "pivot s t j" using step_acked [OF st i a(4,5)] by blast+
    qed
    have lead: "c_lead s u = None" using ext_lead [OF e, of u] a(3) by fastforce
    have t: "c_lead s t \<noteq> None" using ap(2) by (simp add: pivot_def)
    have "agree (c_cand s' c u) (c_llog s t) j \<or> (\<exists>w < u. lacks s w t j)"
    proof (cases "c_vote s q u = Some c")
      case True
      then have "c_cand s' c u = c_cand s c u" using v e unfolding inv_votes_def ext_def by blast
      then show ?thesis using old [OF a(1) True lead ap a(6)] by simp
    next
      case False
      then show ?thesis using new_vote_ballot [OF st i a(1,2) _ lead ap a(6)] by blast
    qed
    then show ?thesis using ext_agree [OF e t] ext_lacks [OF e ap(2)] by blast
  qed
  then show ?thesis unfolding inv_ballot_def by blast
qed

lemma step_won:
  assumes st: "core_step ids s s'" and i: "core_inv ids s"
  shows "inv_won ids s'"
proof -
  have e: "ext s s'" using step_ext st i .
  have v: "inv_votes s" and l: "inv_lead ids s" using i by (simp_all add: core_inv_def)
  have "agree (c_llog s' u) (c_llog s' t) j \<or> (\<exists>w < u. lacks s' w t j)"
    if a: "c_lead s' u \<noteq> None" "q \<in> c_wins s' u" "acked s' q t j" "pivot s' t j" "t < u" for u q t j
  proof (cases "c_lead s u = None")
    case False
    then obtain c where c: "c_lead s u = Some c" by auto
    then have w: "q \<in> c_wins s u" using a(2) e unfolding ext_def by metis
    then have "c_vote s q u = Some c" using l c unfolding inv_lead_def by blast
    then have "u \<le> c_term s q" using v unfolding inv_votes_def by (metis not_le option.distinct(1))
    then have ap: "acked s q t j" "pivot s t j" using step_acked [OF st i a(3,4)] a(5) by auto
    then have "agree (c_llog s u) (c_llog s t) j \<or> (\<exists>w < u. lacks s w t j)"
      using i False w a(5) unfolding core_inv_def inv_won_def by blast
    moreover have "c_lead s t \<noteq> None" using ap(2) by (simp add: pivot_def)
    ultimately show ?thesis using ext_agree2 [OF e _ False] ext_lacks [OF e ap(2)] by blast
  next
    case None: True
    from st show ?thesis
    proof cases
      case (win c T)
      then have u: "u = T" using None a(1) by (auto split: if_splits)
      then have q: "q \<in> ids" "c_vote s q u = Some c" using a(2) win by auto
      have ap: "acked s q t j" "pivot s t j"
        using step_acked [OF st i a(3,4)] v q(2) a(5) unfolding inv_votes_def by (metis option.distinct(1))+
      then have "agree (c_cand s c u) (c_llog s t) j \<or> (\<exists>w < u. lacks s w t j)"
        using i q None a(5) unfolding core_inv_def inv_ballot_def by blast
      moreover have "c_llog s' u = c_cand s c u" using win u by simp
      moreover have "c_lead s t \<noteq> None" using ap(2) by (simp add: pivot_def)
      ultimately show ?thesis using ext_agree [OF e] ext_lacks [OF e ap(2)] by metis
    qed (use None a(1) in simp_all)
  qed
  then show ?thesis unfolding inv_won_def by blast
qed

lemma wf_log_snoc:
  assumes w: "wf_log s L" and l: "c_lead s t \<noteq> None" and g: "c_llog s t = L @ [e]"
    and e: "rl_Term e = t" "rl_Index e = length L" "0 < t" and le: "\<forall>x \<in> set L. rl_Term x \<le> t"
  shows "wf_log s (L @ [e])"
proof -
  have "agree (L @ [e]) (c_llog s (rl_Term ((L @ [e]) ! i))) i \<and> 0 < rl_Term ((L @ [e]) ! i)
      \<and> c_lead s (rl_Term ((L @ [e]) ! i)) \<noteq> None"
    if "i < length (L @ [e])" "0 < i" for i
  proof (cases "i < length L")
    case True
    then have "agree L (c_llog s (rl_Term (L ! i))) i \<and> 0 < rl_Term (L ! i) \<and> c_lead s (rl_Term (L ! i)) \<noteq> None"
      using w that(2) by (simp add: wf_log_def)
    then show ?thesis using True agree_append_left by (auto simp: nth_append)
  next
    case False
    then have "i = length L" using that(1) by simp
    then show ?thesis using l g e by simp
  qed
  moreover have "sorted (map rl_Term (L @ [e]))"
    using w le e(1) by (simp add: wf_log_def sorted_append)
  ultimately show ?thesis using w e(2) by (auto simp: wf_log_def nth_append)
qed

lemma inv_node_log:
  assumes "core_inv ids s" "q \<in> ids"
  shows "wf_log s (c_log s q)" "\<forall>x \<in> set (c_log s q). rl_Term x \<le> c_term s q"
  using assms unfolding core_inv_def inv_logs_def by blast+

lemma inv_leader_log:
  assumes "core_inv ids s" "c_lead s t \<noteq> None"
  shows "wf_log s (c_llog s t)" "\<forall>x \<in> set (c_llog s t). rl_Term x \<le> t"
  using assms unfolding core_inv_def inv_logs_def by blast+

lemma inv_cand_log:
  assumes "core_inv ids s" "c_vote s c t = Some c"
  shows "wf_log s (c_cand s c t)" "\<forall>x \<in> set (c_cand s c t). rl_Term x < t"
  using assms unfolding core_inv_def inv_logs_def by blast+

lemma extend_wf_log:
  assumes i: "core_inv ids s" and e: "ext s s'" and c: "c \<in> ids" "t = c_term s c" "c_lead s t = Some c"
    and x: "rl_Term x = t" "rl_Index x = length (c_log s c)" "c_llog s' t = c_log s c @ [x]"
  shows "wf_log s' (c_log s c @ [x])"
proof -
  have "0 < t" using i c unfolding core_inv_def inv_lead_def by blast
  moreover have "c_lead s' t \<noteq> None" using ext_lead [OF e, of t] c(3) by simp
  ultimately show ?thesis
    using wf_log_snoc [OF ext_wf_log [OF e inv_node_log(1) [OF i c(1)]] _ x(3) x(1,2)] inv_node_log(2) [OF i c(1)] c(2)
    by simp
qed

lemma step_node_logs:
  assumes st: "core_step ids s s'" and i: "core_inv ids s" and q: "q \<in> ids"
  shows "wf_log s' (c_log s' q) \<and> (\<forall>x \<in> set (c_log s' q). rl_Term x \<le> c_term s' q)"
proof -
  have e: "ext s s'" using step_ext st i .
  note wf = ext_wf_log [OF e]
  have le: "c_term s q \<le> c_term s' q" using e unfolding ext_def by blast
  show ?thesis
  proof (cases "c_log s' q = c_log s q")
    case True
    then show ?thesis using wf [OF inv_node_log(1) [OF i q]] inv_node_log(2) [OF i q] le by force
  next
    case False
    from st show ?thesis
    proof cases
      case (extend c t x)
      then have "q = c" using False by (auto split: if_splits)
      have "wf_log s' (c_log s c @ [x])"
        by (rule extend_wf_log [OF i e extend(2-4)]) (use extend in simp_all)
      then show ?thesis using extend \<open>q = c\<close> inv_node_log(2) [OF i extend(2)] by auto
    next
      case (accept p T prev n)
      then have "q = p" using False by (auto split: if_splits)
      then have *: "c_log s' q = take (Suc (prev + n)) (c_llog s T)"
        using accept_log(3) [OF i accept(2,4,6,7,8)] False accept(1) by auto
      have "wf_log s' (take (Suc (prev + n)) (c_llog s T))"
        using wf [OF inv_leader_log(1) [OF i accept(4)]] by (intro wf_log_take) simp_all
      moreover have "\<forall>x \<in> set (take (Suc (prev + n)) (c_llog s T)). rl_Term x \<le> c_term s' q"
        using inv_leader_log(2) [OF i accept(4)] accept \<open>q = p\<close> by (auto dest: in_set_takeD)
      ultimately show ?thesis using * by simp
    qed (use False in simp_all)
  qed
qed

lemma step_leader_logs:
  assumes st: "core_step ids s s'" and i: "core_inv ids s" and t: "c_lead s' t \<noteq> None"
  shows "wf_log s' (c_llog s' t) \<and> (\<forall>x \<in> set (c_llog s' t). rl_Term x \<le> t)"
proof -
  have e: "ext s s'" using step_ext st i .
  note wf = ext_wf_log [OF e]
  from st show ?thesis
  proof cases
    case (win c u)
    show ?thesis
    proof (cases "t = u")
      case True
      then show ?thesis using win wf [OF inv_node_log(1) [OF i win(2)]] inv_node_log(2) [OF i win(2)] by simp
    next
      case False
      then show ?thesis using win t wf [OF inv_leader_log(1) [OF i]] inv_leader_log(2) [OF i] by simp
    qed
  next
    case (extend c u x)
    show ?thesis
    proof (cases "t = u")
      case True
      have "wf_log s' (c_log s c @ [x])"
        by (rule extend_wf_log [OF i e extend(2-4)]) (use extend in simp_all)
      then show ?thesis using extend True inv_node_log(2) [OF i extend(2)] by auto
    next
      case False
      then show ?thesis using extend t wf [OF inv_leader_log(1) [OF i]] inv_leader_log(2) [OF i] by simp
    qed
  qed (use t wf [OF inv_leader_log(1) [OF i, of t]] inv_leader_log(2) [OF i, of t] in simp_all)
qed

lemma step_cand_logs:
  assumes st: "core_step ids s s'" and i: "core_inv ids s" and v: "c_vote s' c t = Some c"
  shows "wf_log s' (c_cand s' c t) \<and> (\<forall>x \<in> set (c_cand s' c t). rl_Term x < t)"
proof -
  have e: "ext s s'" using step_ext st i .
  note wf = ext_wf_log [OF e]
  show ?thesis
  proof (cases "c_vote s c t = Some c")
    case True
    then have "c_cand s' c t = c_cand s c t" using e unfolding ext_def by blast
    then show ?thesis using wf [OF inv_cand_log(1) [OF i True]] inv_cand_log(2) [OF i True] by simp
  next
    case False
    from st show ?thesis
    proof cases
      case (stand k T)
      then have "c = k" "t = T" using False v by (auto split: if_splits)
      then show ?thesis using stand wf [OF inv_node_log(1) [OF i stand(2)]] inv_node_log(2) [OF i stand(2)] by auto
    qed (use False v in \<open>auto split: if_splits\<close>)
  qed
qed

lemma step_logs:
  assumes "core_step ids s s'" "core_inv ids s"
  shows "inv_logs ids s'"
  unfolding inv_logs_def
  using step_node_logs [OF assms] step_leader_logs [OF assms] step_cand_logs [OF assms] by blast

lemma covered_mono:
  assumes "covered ids s L k u" "agree L' L j" "j \<le> k"
  shows "covered ids s L' j u"
proof (cases "j = 0")
  case True
  then show ?thesis using agree_length [OF assms(2)] by (simp add: covered_def)
next
  case False
  then obtain t i where t: "committed ids s t i" "t \<le> u" "k \<le> i" "agree L (c_llog s t) k"
    using assms(1,3) by (auto simp: covered_def)
  then have "agree L' (c_llog s t) j" using agree_mono assms(2,3) agree_trans by blast
  then show ?thesis using t assms(3) agree_length [OF assms(2)] unfolding covered_def by (meson le_trans)
qed

text \<open>Taking entries of a leader does not touch what is committed.\<close>

lemma accept_commit:
  assumes i: "core_inv ids s" and q: "q \<in> ids" "T = c_term s q" and l: "c_lead s T \<noteq> None"
    and len: "prev < length (c_log s q)" "prev + n < length (c_llog s T)"
    and t: "rl_Term (c_log s q ! prev) = rl_Term (c_llog s T ! prev)"
  shows "agree (append_entries (c_log s q) (Suc prev) (take n (drop (Suc prev) (c_llog s T)))) (c_log s q) (c_commit s q)"
proof -
  have "covered ids s (c_log s q) (c_commit s q) T"
    using i q unfolding core_inv_def inv_commit_def by blast
  then have a: "agree (c_llog s T) (c_log s q) (c_commit s q)"
    by (rule covered_agree [OF i _ l order_refl inv_node_log(1) [OF i q(1)]])
  then show ?thesis
    using accept_log(2) [OF i q(1) l len t agree_sym [OF a]] agree_trans by blast
qed

lemma leader_commit_covered:
  assumes e: "ext s s'" and l: "c_lead s t = Some c" and k: "0 < k" "k < length (c_llog s t)" "rl_Term (c_llog s t ! k) = t"
    and m: "majority ids {q \<in> ids. acked s q t k}" and L: "agree L (c_llog s' t) k"
  shows "covered ids s' L k t"
proof -
  have "committed ids s t k" using l k m by (simp add: committed_def pivot_def)
  then have "committed ids s' t k" by (rule ext_committed [OF e])
  then show ?thesis using L agree_length unfolding covered_def by fastforce
qed

lemma follower_commit_covered:
  assumes i: "core_inv ids s" and e: "ext s s'" and l: "c_lead s t \<noteq> None" "k \<le> c_lcommit s t" "agree L (c_llog s t) k"
  shows "covered ids s' L k t"
proof -
  have "covered ids s (c_llog s t) (c_lcommit s t) t" using i l(1) unfolding core_inv_def inv_commit_def by blast
  then have "covered ids s L k t" using covered_mono l(2,3) by blast
  then show ?thesis using ext_covered [OF e _ order_refl, of ids L k t "[]"] by simp
qed

lemma step_node_commit:
  assumes st: "core_step ids s s'" and i: "core_inv ids s" and q: "q \<in> ids"
  shows "covered ids s' (c_log s' q) (c_commit s' q) (c_term s' q)"
proof -
  have e: "ext s s'" using step_ext st i .
  have le: "c_term s q \<le> c_term s' q" using e unfolding ext_def by blast
  have old: "covered ids s (c_log s q) (c_commit s q) (c_term s q)"
    using i q unfolding core_inv_def inv_commit_def by blast
  note new = ext_covered [OF e old le]
  from st show ?thesis
  proof cases
    case (extend c t x)
    then show ?thesis using new [of "if q = c then [x] else []"] by (auto split: if_splits)
  next
    case (accept p T prev n)
    show ?thesis
    proof (cases "q = p")
      case True
      have "agree (c_log s' p) (c_log s p) (c_commit s p)"
        using accept_commit [OF i accept(2-4,6-8)] accept(1) by simp
      then show ?thesis using covered_mono [OF new [of "[]"], of "c_log s' p"] True accept(1) by simp
    next
      case False
      then show ?thesis using new [of "[]"] accept(1) by simp
    qed
  next
    case (commit_leader c t k)
    show ?thesis
    proof (cases "q = c")
      case True
      then show ?thesis using leader_commit_covered [OF e commit_leader(4,6-9)] commit_leader by simp
    next
      case False
      then show ?thesis using new [of "[]"] commit_leader(1) by simp
    qed
  next
    case (commit_follower p t k)
    show ?thesis
    proof (cases "q = p")
      case True
      then show ?thesis using follower_commit_covered [OF i e commit_follower(4-6)] commit_follower by simp
    next
      case False
      then show ?thesis using new [of "[]"] commit_follower(1) by simp
    qed
  qed (use new [of "[]"] in simp_all)
qed

lemma step_leader_commit:
  assumes st: "core_step ids s s'" and i: "core_inv ids s" and t: "c_lead s' t \<noteq> None"
  shows "covered ids s' (c_llog s' t) (c_lcommit s' t) t"
proof -
  have e: "ext s s'" using step_ext st i .
  have old: "covered ids s' (c_llog s t @ es) (c_lcommit s t) t" if "c_lead s t \<noteq> None" for es
    by (rule ext_covered [OF e]) (use i that in \<open>auto simp: core_inv_def inv_commit_def\<close>)
  from st show ?thesis
  proof cases
    case (win c u)
    show ?thesis
    proof (cases "t = u")
      case True
      have "covered ids s (c_log s c) (c_commit s c) u"
        using i win(2,3) unfolding core_inv_def inv_commit_def by blast
      then have "covered ids s' (c_log s c @ []) (c_commit s c) u" by (rule ext_covered [OF e]) simp
      then show ?thesis using win True by simp
    next
      case False
      then show ?thesis using old [of "[]"] t win(1) by simp
    qed
  next
    case (extend c u x)
    then show ?thesis using old [of "if t = u then [x] else []"] t by (auto split: if_splits)
  next
    case (commit_leader c u k)
    show ?thesis
    proof (cases "t = u")
      case True
      have "committed ids s u k" using commit_leader by (simp add: committed_def pivot_def)
      then have "committed ids s' u k" by (rule ext_committed [OF e])
      moreover have "agree (c_llog s' u) (c_llog s' u) k" using commit_leader by simp
      ultimately show ?thesis using commit_leader True agree_length unfolding covered_def by fastforce
    next
      case False
      then show ?thesis using old [of "[]"] t commit_leader(1) by simp
    qed
  qed (use old [of "[]"] t in simp_all)
qed

theorem step_inv:
  assumes "core_step ids s s'" "core_inv ids s"
  shows "core_inv ids s'"
proof -
  have "inv_commit ids s'"
    unfolding inv_commit_def using step_node_commit [OF assms] step_leader_commit [OF assms] by blast
  then show ?thesis
    unfolding core_inv_def
    using step_votes [OF assms] step_lead [OF assms] step_logs [OF assms] step_acks [OF assms]
      step_keep [OF assms] step_ballot [OF assms] step_won [OF assms] by blast
qed

lemma init_inv: "core_inv ids core_init"
  by (auto simp: core_inv_def inv_votes_def inv_lead_def inv_logs_def inv_acks_def inv_keep_def
      inv_ballot_def inv_won_def inv_commit_def core_init_def wf_log_def dummy_entry_def
      acked_def pivot_def covered_def)

lemma steps_inv:
  assumes "(core_step ids)\<^sup>*\<^sup>* s s'" "core_inv ids s"
  shows "core_inv ids s'"
  using assms by (induction rule: rtranclp_induct) (auto intro: step_inv)

text \<open>Whatever is committed, once or later, is common to all logs that have it committed.\<close>

lemma covered_common:
  assumes i: "core_inv ids s" and wf: "wf_log s L" "wf_log s G"
    and c: "covered ids s L k v" "covered ids s G l w" and m: "m \<le> k" "m \<le> l"
  shows "agree L G m"
proof (cases "m = 0")
  case True
  then show ?thesis using wf by (intro log_matching [of s]) (auto simp: wf_log_def)
next
  case False
  then obtain t j where t: "committed ids s t j" "k \<le> j" "agree L (c_llog s t) k"
    using c(1) m(1) by (auto simp: covered_def)
  obtain u h where u: "committed ids s u h" "l \<le> h" "agree G (c_llog s u) l"
    using c(2) m(2) False by (auto simp: covered_def)
  have w: "inv_won ids s" "inv_lead ids s" using i by (simp_all add: core_inv_def)
  have "agree (c_llog s t) (c_llog s u) m"
  proof (cases t u rule: linorder_cases)
    case less
    then show ?thesis
      using leader_completeness [OF w(1) t(1) w(2) committed_lead [OF u(1)]] t(2) m(1) agree_mono agree_sym
      by (meson le_trans)
  next
    case equal
    then show ?thesis using agree_length [OF t(3)] m(1) by simp
  next
    case greater
    then show ?thesis
      using leader_completeness [OF w(1) u(1) w(2) committed_lead [OF t(1)]] u(2) m(2) agree_mono
      by (meson le_trans)
  qed
  then show ?thesis using agree_mono [OF t(3) m(1)] agree_mono [OF u(3) m(2)] agree_sym agree_trans by blast
qed

end
