(* ===== verification/Radiance_Cluster.thy ===== *)
theory Radiance_Cluster
  imports Radiance_Spec
begin

text \<open>
  A group of Radiance nodes and the transport between them, \<open>pkg/consensus/raft_types.go\<close> and the
  goroutines of \<open>pkg/consensus/raft_node.go\<close>. The nodes are objects of a heap, and the in-memory
  network maps node numbers to them. Messages are never forgotten: each one may be handed over at
  any later time, in any order, any number of times or never, so that delay, loss, reordering and
  repetition are covered. A goroutine that asked for a vote ends with the first answer. Every run
  is shown to be a run of the protocol of \<open>Radiance_Spec\<close>, which gives its safety.
\<close>

section \<open>The in-memory network\<close>

text \<open>The map of the registered nodes; \<open>Some None\<close> is a nil pointer.\<close>

record MockNetwork =
  mn_nodes :: "int \<rightharpoonup> int option"

definition NewMockNetwork :: MockNetwork where
  "NewMockNetwork = \<lparr>mn_nodes = (\<lambda>_. None)\<rparr>"

definition RegisterNode :: "int \<Rightarrow> int option \<Rightarrow> MockNetwork \<Rightarrow> MockNetwork" where
  "RegisterNode i node m = m\<lparr>mn_nodes := (mn_nodes m)(i \<mapsto> node)\<rparr>"

text \<open>The heap after the call, the reply and whether the transport reports success.\<close>

definition SendRequestVote ::
  "MockNetwork \<Rightarrow> (int \<Rightarrow> RaftNode) \<Rightarrow> int \<Rightarrow> RequestVoteArgs \<Rightarrow>
   ((int \<Rightarrow> RaftNode) \<times> RequestVoteReply \<times> bool) option" where
  "SendRequestVote m heap peerID args =
     (case mn_nodes m peerID of
        Some (Some node) \<Rightarrow>
          map_option (\<lambda>(r, reply). (heap(node := r), reply, True)) (RequestVote args (heap node))
      | _ \<Rightarrow> Some (heap, \<lparr>vr_Term = 0, vr_VoteGranted = False\<rparr>, False))"

definition SendAppendEntries ::
  "MockNetwork \<Rightarrow> (int \<Rightarrow> RaftNode) \<Rightarrow> int \<Rightarrow> AppendEntriesArgs \<Rightarrow>
   ((int \<Rightarrow> RaftNode) \<times> AppendEntriesReply \<times> bool) option" where
  "SendAppendEntries m heap peerID args =
     (case mn_nodes m peerID of
        Some (Some node) \<Rightarrow>
          map_option (\<lambda>(r, reply). (heap(node := r), reply, True)) (AppendEntries args (heap node))
      | _ \<Rightarrow> Some (heap, \<lparr>ar_Term = 0, ar_Success = False\<rparr>, False))"

section \<open>The group\<close>

text \<open>
  A request carries the node that started the goroutine and the peer; an answer carries the request
  it belongs to. \<open>cl_finished\<close> holds the vote goroutines that have ended, by candidate, term and peer.
\<close>

datatype packet =
    VoteReq int int RequestVoteArgs
  | VoteRep int int RequestVoteArgs RequestVoteReply
  | AppReq int int AppendEntriesArgs
  | AppRep int int AppendEntriesArgs AppendEntriesReply

record cluster =
  cl_nodes :: "int \<Rightarrow> RaftNode"
  cl_mock :: MockNetwork
  cl_net :: "packet list"
  cl_finished :: "(int \<times> nat \<times> int) list"

fun request :: "int \<Rightarrow> rpc \<Rightarrow> packet" where
  "request i (VoteCall p args) = VoteReq i p args"
| "request i (AppendCall p args) = AppReq i p args"

text \<open>Node \<open>i\<close> left its critical section in state \<open>r\<close> and started goroutines for \<open>calls\<close>.\<close>

definition leave :: "int \<Rightarrow> RaftNode \<times> rpc list \<Rightarrow> cluster \<Rightarrow> cluster" where
  "leave i out c = c\<lparr>cl_nodes := (cl_nodes c)(i := fst out), cl_net := cl_net c @ map (request i) (snd out)\<rparr>"

text \<open>Handing over a message: the body of the goroutine before and after the RPC.\<close>

fun deliver :: "packet \<Rightarrow> cluster \<Rightarrow> cluster option" where
  "deliver (VoteReq i p args) c =
     map_option (\<lambda>(heap, reply, ok).
         if ok then c\<lparr>cl_nodes := heap, cl_net := cl_net c @ [VoteRep i p args reply]\<rparr> else c)
       (SendRequestVote (cl_mock c) (cl_nodes c) p args)"
| "deliver (AppReq i p args) c =
     map_option (\<lambda>(heap, reply, ok).
         if ok then c\<lparr>cl_nodes := heap, cl_net := cl_net c @ [AppRep i p args reply]\<rparr> else c)
       (SendAppendEntries (cl_mock c) (cl_nodes c) p args)"
| "deliver (VoteRep i p args reply) c =
     (if (i, rv_Term args, p) \<in> set (cl_finished c) then Some c
      else map_option (\<lambda>out. leave i out (c\<lparr>cl_finished := (i, rv_Term args, p) # cl_finished c\<rparr>))
             (vote_reply (rv_Term args) reply (cl_nodes c i)))"
| "deliver (AppRep i p args reply) c =
     map_option (\<lambda>r. leave i (r, []) c)
       (append_reply (ae_Term args) p (ae_PrevLogIndex args) (length (ae_Entries args)) reply (cl_nodes c i))"

text \<open>What can happen next. \<open>Deliver n\<close> hands over the message with number \<open>n\<close>.\<close>

datatype event =
    Tick int bool
  | Beat int
  | Client int bytes bytes bool
  | Shutdown int
  | Register int
  | Deliver nat

fun happen :: "event \<Rightarrow> cluster \<Rightarrow> cluster option" where
  "happen (Tick i expired) c = map_option (\<lambda>out. leave i out c) (election_tick expired (cl_nodes c i))"
| "happen (Beat i) c = map_option (\<lambda>calls. leave i (cl_nodes c i, calls) c) (heartbeat_tick (cl_nodes c i))"
| "happen (Client i key val tomb) c =
     map_option (\<lambda>(r, calls, _). leave i (r, calls) c) (Submit key val tomb (cl_nodes c i))"
| "happen (Shutdown i) c = Some (leave i (Kill (cl_nodes c i), []) c)"
| "happen (Register i) c = Some (c\<lparr>cl_mock := RegisterNode i (Some i) (cl_mock c)\<rparr>)"
| "happen (Deliver n) c = (if n < length (cl_net c) then deliver (cl_net c ! n) c else Some c)"

fun run :: "event list \<Rightarrow> cluster \<Rightarrow> cluster option" where
  "run [] c = Some c"
| "run (e # es) c = (case happen e c of None \<Rightarrow> None | Some c' \<Rightarrow> run es c')"

text \<open>The nodes \<open>ns\<close>, each with all the others as its peers and a channel nobody has sent on.\<close>

definition boot :: "int list \<Rightarrow> cluster" where
  "boot ns = \<lparr>cl_nodes = (\<lambda>i. NewRaftNode i (filter (\<lambda>p. p \<noteq> i) ns) (Some [])),
     cl_mock = NewMockNetwork, cl_net = [], cl_finished = []\<rparr>"

fun concerns :: "event \<Rightarrow> int list" where
  "concerns (Tick i _) = [i]"
| "concerns (Beat i) = [i]"
| "concerns (Client i _ _ _) = [i]"
| "concerns (Shutdown i) = [i]"
| "concerns (Register i) = [i]"
| "concerns (Deliver _) = []"

definition events_of :: "int list \<Rightarrow> event list \<Rightarrow> bool" where
  "events_of ns es \<longleftrightarrow> (\<forall>e \<in> set es. set (concerns e) \<subseteq> set ns)"

definition numbering :: "int list \<Rightarrow> bool" where
  "numbering ns \<longleftrightarrow> distinct ns \<and> (\<forall>i \<in> set ns. 0 \<le> i)"

section \<open>The group and the protocol\<close>

definition applied :: "RaftLogEntry list \<Rightarrow> nat \<Rightarrow> ApplyMsg list" where
  "applied L n = map (\<lambda>k. apply_msg (L ! k)) [1..<Suc n]"

text \<open>The votes a candidate has counted, at most one per peer, were all given to it.\<close>

definition standing :: "int set \<Rightarrow> core \<Rightarrow> (int \<times> nat \<times> int) set \<Rightarrow> int \<Rightarrow> RaftNode \<Rightarrow> bool" where
  "standing ids s fin i r \<longleftrightarrow> rn_votedFor r = i \<and> c_cand s i (rn_currentTerm r) = rn_log r
     \<and> c_lead s (rn_currentTerm r) \<noteq> Some i
     \<and> rn_votesReceived r (rn_currentTerm r)
         \<le> card {q \<in> ids. (q = i \<or> (i, rn_currentTerm r, q) \<in> fin) \<and> c_vote s q (rn_currentTerm r) = Some i}"

text \<open>What a leader believes its peers hold they have acknowledged.\<close>

definition leading :: "int set \<Rightarrow> core \<Rightarrow> int \<Rightarrow> RaftNode \<Rightarrow> bool" where
  "leading ids s i r \<longleftrightarrow> c_lead s (rn_currentTerm r) = Some i \<and> c_llog s (rn_currentTerm r) = rn_log r
     \<and> c_lcommit s (rn_currentTerm r) = rn_commitIndex r
     \<and> (\<forall>p \<in> ids - {i}. (rn_matchIndex r p = 0 \<or> (p, rn_currentTerm r, rn_matchIndex r p) \<in> c_acks s)
           \<and> 1 \<le> rn_nextIndex r p \<and> rn_nextIndex r p \<le> length (rn_log r))"

definition same_node :: "core \<Rightarrow> int \<Rightarrow> RaftNode \<Rightarrow> bool" where
  "same_node s i r \<longleftrightarrow> c_term s i = rn_currentTerm r \<and> c_log s i = rn_log r \<and> c_commit s i = rn_commitIndex r
     \<and> c_vote s i (rn_currentTerm r) = (if rn_votedFor r = -1 then None else Some (rn_votedFor r))"

definition node_ok :: "int set \<Rightarrow> core \<Rightarrow> (int \<times> nat \<times> int) set \<Rightarrow> int \<Rightarrow> RaftNode \<Rightarrow> bool" where
  "node_ok ids s fin i r \<longleftrightarrow> rn_id r = i \<and> distinct (rn_peers r) \<and> set (rn_peers r) = ids - {i}
     \<and> same_node s i r \<and> rn_lastApplied r = rn_commitIndex r
     \<and> rn_applyCh r = Some (applied (rn_log r) (rn_commitIndex r))
     \<and> (rn_role r = Candidate \<longrightarrow> standing ids s fin i r) \<and> (rn_role r = Leader \<longrightarrow> leading ids s i r)"

definition vote_ok :: "core \<Rightarrow> int \<Rightarrow> RequestVoteArgs \<Rightarrow> bool" where
  "vote_ok s i args \<longleftrightarrow> rv_CandidateID args = i \<and> c_vote s i (rv_Term args) = Some i
     \<and> rv_LastLogIndex args = length (c_cand s i (rv_Term args)) - 1
     \<and> rv_LastLogTerm args = rl_Term (last (c_cand s i (rv_Term args)))"

definition append_ok :: "core \<Rightarrow> int \<Rightarrow> AppendEntriesArgs \<Rightarrow> bool" where
  "append_ok s i args \<longleftrightarrow> c_lead s (ae_Term args) = Some i
     \<and> ae_PrevLogIndex args + length (ae_Entries args) < length (c_llog s (ae_Term args))
     \<and> ae_Entries args = take (length (ae_Entries args)) (drop (Suc (ae_PrevLogIndex args)) (c_llog s (ae_Term args)))
     \<and> ae_PrevLogTerm args = rl_Term (c_llog s (ae_Term args) ! ae_PrevLogIndex args)
     \<and> ae_LeaderCommit args \<le> c_lcommit s (ae_Term args)
     \<and> ae_LeaderCommit args \<le> ae_PrevLogIndex args + length (ae_Entries args)"

fun packet_ok :: "int set \<Rightarrow> core \<Rightarrow> packet \<Rightarrow> bool" where
  "packet_ok ids s (VoteReq i p args) \<longleftrightarrow> i \<in> ids \<and> p \<in> ids - {i} \<and> vote_ok s i args"
| "packet_ok ids s (VoteRep i p args reply) \<longleftrightarrow> i \<in> ids \<and> p \<in> ids - {i}
     \<and> (vr_VoteGranted reply \<longrightarrow> c_vote s p (rv_Term args) = Some i)"
| "packet_ok ids s (AppReq i p args) \<longleftrightarrow> i \<in> ids \<and> p \<in> ids - {i} \<and> append_ok s i args"
| "packet_ok ids s (AppRep i p args reply) \<longleftrightarrow> i \<in> ids \<and> p \<in> ids - {i} \<and> append_ok s i args
     \<and> (ar_Success reply \<longrightarrow> (p, ae_Term args, ae_PrevLogIndex args + length (ae_Entries args)) \<in> c_acks s)"

definition sim :: "int set \<Rightarrow> cluster \<Rightarrow> core \<Rightarrow> bool" where
  "sim ids c s \<longleftrightarrow> finite ids \<and> (\<forall>i \<in> ids. 0 \<le> i) \<and> core_inv ids s
     \<and> (\<forall>i \<in> ids. node_ok ids s (set (cl_finished c)) i (cl_nodes c i))
     \<and> (\<forall>pk \<in> set (cl_net c). packet_ok ids s pk)
     \<and> (\<forall>i a. mn_nodes (cl_mock c) i = Some (Some a) \<longrightarrow> a = i)"

section \<open>A step of one node leaves the others alone\<close>

definition frame :: "int \<Rightarrow> core \<Rightarrow> core \<Rightarrow> bool" where
  "frame i s s' \<longleftrightarrow> ext s s'
     \<and> (\<forall>j. j \<noteq> i \<longrightarrow> c_term s' j = c_term s j \<and> c_vote s' j = c_vote s j \<and> c_cand s' j = c_cand s j
           \<and> c_log s' j = c_log s j \<and> c_commit s' j = c_commit s j)
     \<and> (\<forall>t j. j \<noteq> i \<longrightarrow> (c_lead s' t = Some j \<longleftrightarrow> c_lead s t = Some j))
     \<and> (\<forall>t j. j \<noteq> i \<longrightarrow> c_lead s t = Some j \<longrightarrow> c_llog s' t = c_llog s t \<and> c_lcommit s' t = c_lcommit s t)"

lemma ext_refl: "ext s s"
  by (simp add: ext_def)

lemma ext_trans:
  assumes a: "ext s s'" and b: "ext s' s''"
  shows "ext s s''"
proof -
  have "c_lead s'' t = Some c \<and> c_wins s'' t = c_wins s t
      \<and> (\<exists>es. c_llog s'' t = c_llog s t @ es \<and> (\<forall>e \<in> set es. rl_Term e = t)) \<and> c_lcommit s t \<le> c_lcommit s'' t"
    if l: "c_lead s t = Some c" for t c
  proof -
    have 1: "c_lead s' t = Some c" "c_wins s' t = c_wins s t" "c_lcommit s t \<le> c_lcommit s' t"
      using a l unfolding ext_def by blast+
    have 2: "c_lead s'' t = Some c" "c_wins s'' t = c_wins s' t" "c_lcommit s' t \<le> c_lcommit s'' t"
      using b 1(1) unfolding ext_def by blast+
    obtain es where es: "c_llog s' t = c_llog s t @ es" "\<forall>e \<in> set es. rl_Term e = t"
      using a l unfolding ext_def by blast
    obtain fs where fs: "c_llog s'' t = c_llog s' t @ fs" "\<forall>e \<in> set fs. rl_Term e = t"
      using b 1(1) unfolding ext_def by blast
    have "c_llog s'' t = c_llog s t @ es @ fs" "\<forall>e \<in> set (es @ fs). rl_Term e = t"
      using es fs by auto
    then show ?thesis using 1 2 by auto
  qed
  moreover have "c_term s i \<le> c_term s'' i" for i using a b unfolding ext_def by (meson le_trans)
  moreover have "c_vote s q t = Some c \<Longrightarrow> c_vote s'' q t = Some c" for q t c
    using a b unfolding ext_def by simp
  moreover have "c_vote s c t = Some c \<Longrightarrow> c_cand s'' c t = c_cand s c t" for c t
    using a b unfolding ext_def by simp
  moreover have "c_acks s \<subseteq> c_acks s''" using a b unfolding ext_def by blast
  ultimately show ?thesis unfolding ext_def by blast
qed

lemma frame_refl: "frame i s s"
  by (simp add: frame_def ext_refl)

lemma frame_trans:
  assumes "frame i s s'" "frame i s' s''"
  shows "frame i s s''"
  using assms ext_trans [of s s' s''] unfolding frame_def by simp

lemma steps_ext:
  assumes "(core_step ids)\<^sup>*\<^sup>* s s'" "core_inv ids s"
  shows "ext s s'"
  using assms
proof (induction rule: rtranclp_induct)
  case (step y z)
  then show ?case using step_ext [of ids y z] steps_inv [of ids s y] ext_trans by blast
qed (simp add: ext_refl)

lemma ext_vote_ok:
  assumes "ext s s'" "vote_ok s i args"
  shows "vote_ok s' i args"
proof -
  have "c_vote s i (rv_Term args) = Some i" using assms(2) by (simp add: vote_ok_def)
  then have "c_vote s' i (rv_Term args) = Some i" "c_cand s' i (rv_Term args) = c_cand s i (rv_Term args)"
    using assms(1) unfolding ext_def by blast+
  then show ?thesis using assms(2) by (simp add: vote_ok_def)
qed

lemma ext_append_ok:
  assumes e: "ext s s'" and a: "append_ok s i args"
  shows "append_ok s' i args"
proof -
  have l: "c_lead s (ae_Term args) = Some i" using a by (simp add: append_ok_def)
  then obtain es where "c_llog s' (ae_Term args) = c_llog s (ae_Term args) @ es"
    using e unfolding ext_def by blast
  moreover have "c_lead s' (ae_Term args) = Some i" "c_lcommit s (ae_Term args) \<le> c_lcommit s' (ae_Term args)"
    using e l unfolding ext_def by blast+
  ultimately show ?thesis using a by (auto simp: append_ok_def nth_append)
qed

lemma ext_packet_ok:
  assumes e: "ext s s'" and p: "packet_ok ids s pk"
  shows "packet_ok ids s' pk"
proof (cases pk)
  case (VoteReq i q args)
  then show ?thesis using p ext_vote_ok [OF e] by simp
next
  case (VoteRep i q args reply)
  then show ?thesis using p e unfolding ext_def by simp
next
  case (AppReq i q args)
  then show ?thesis using p ext_append_ok [OF e] by simp
next
  case (AppRep i q args reply)
  then show ?thesis using p e ext_append_ok [OF e] unfolding ext_def by auto
qed

lemma frame_standing:
  assumes f: "frame i s s'" "j \<noteq> i" and "finite ids" "fin \<subseteq> fin'" and st: "standing ids s fin j r"
  shows "standing ids s' fin' j r"
proof -
  let ?t = "rn_currentTerm r"
  have "{q \<in> ids. (q = j \<or> (j, ?t, q) \<in> fin) \<and> c_vote s q ?t = Some j}
      \<subseteq> {q \<in> ids. (q = j \<or> (j, ?t, q) \<in> fin') \<and> c_vote s' q ?t = Some j}"
    using f(1) assms(4) unfolding frame_def ext_def by blast
  then have "card {q \<in> ids. (q = j \<or> (j, ?t, q) \<in> fin) \<and> c_vote s q ?t = Some j}
      \<le> card {q \<in> ids. (q = j \<or> (j, ?t, q) \<in> fin') \<and> c_vote s' q ?t = Some j}"
    using assms(3) by (intro card_mono) simp_all
  moreover have "c_cand s' j = c_cand s j" "c_lead s' ?t = Some j \<longleftrightarrow> c_lead s ?t = Some j"
    using f unfolding frame_def by blast+
  ultimately show ?thesis using st unfolding standing_def by auto
qed

lemma frame_leading:
  assumes f: "frame i s s'" "j \<noteq> i" and l: "leading ids s j r"
  shows "leading ids s' j r"
proof -
  have j: "c_lead s (rn_currentTerm r) = Some j" using l by (simp add: leading_def)
  then have "c_lead s' (rn_currentTerm r) = Some j" "c_llog s' (rn_currentTerm r) = c_llog s (rn_currentTerm r)"
    "c_lcommit s' (rn_currentTerm r) = c_lcommit s (rn_currentTerm r)" "c_acks s \<subseteq> c_acks s'"
    using f unfolding frame_def ext_def by blast+
  then show ?thesis using l unfolding leading_def by auto
qed

lemma frame_node_ok:
  assumes f: "frame i s s'" "j \<noteq> i" and "finite ids" "fin \<subseteq> fin'" and n: "node_ok ids s fin j r"
  shows "node_ok ids s' fin' j r"
proof -
  have "same_node s' j r" using f n unfolding frame_def node_ok_def same_node_def by simp
  then show ?thesis
    using n frame_standing [OF f assms(3,4)] frame_leading [OF f] unfolding node_ok_def by blast
qed

section \<open>The handlers are steps of the protocol\<close>

definition reaches ::
  "int set \<Rightarrow> core \<Rightarrow> (int \<times> nat \<times> int) set \<Rightarrow> int \<Rightarrow> RaftNode \<Rightarrow> rpc list \<Rightarrow> core \<Rightarrow> bool" where
  "reaches ids s fin i r calls s' \<longleftrightarrow> (core_step ids)\<^sup>*\<^sup>* s s' \<and> frame i s s' \<and> node_ok ids s' fin i r
     \<and> (\<forall>call \<in> set calls. packet_ok ids s' (request i call))"

lemma reaches_stay: "node_ok ids s fin i r \<Longrightarrow> reaches ids s fin i r [] s"
  by (simp add: reaches_def frame_refl)

lemma reaches_trans:
  assumes "reaches ids s fin i r [] s'" "reaches ids s' fin i r' calls s''"
  shows "reaches ids s fin i r' calls s''"
  using assms rtranclp_trans [of "core_step ids" s s' s''] frame_trans unfolding reaches_def by blast

lemma reaches_step:
  assumes "core_step ids s s'" "frame i s s'" "node_ok ids s' fin i r"
    "\<And>call. call \<in> set calls \<Longrightarrow> packet_ok ids s' (request i call)"
  shows "reaches ids s fin i r calls s'"
  using assms unfolding reaches_def by auto

lemma reaches_inv: "reaches ids s fin i r calls s' \<Longrightarrow> core_inv ids s \<Longrightarrow> core_inv ids s'"
  unfolding reaches_def using steps_inv by blast

subsection \<open>Applying\<close>

lemma applied_grow:
  assumes "n \<le> m"
  shows "applied L n @ map (\<lambda>k. apply_msg (L ! k)) [Suc n..<Suc m] = applied L m"
proof -
  have "[1..<Suc n + (m - n)] = [1..<Suc n] @ [Suc n..<Suc n + (m - n)]"
    by (rule upt_add_eq_append) simp
  then have "[1..<Suc m] = [1..<Suc n] @ [Suc n..<Suc m]" using assms by (simp del: upt_Suc)
  then show ?thesis unfolding applied_def by (simp del: upt_Suc)
qed

lemma applied_agree: "agree L G n \<Longrightarrow> applied L n = applied G n"
  using agree_nth [of L G n] by (auto simp: applied_def)

lemma applyLogs_run:
  assumes "\<forall>k < length (rn_log r). rl_Index (rn_log r ! k) = k" "rn_lastApplied r \<le> rn_commitIndex r"
    "rn_commitIndex r < length (rn_log r)" "rn_applyCh r = Some ch"
  shows "applyLogs r = Some (r\<lparr>rn_lastApplied := rn_commitIndex r,
    rn_applyCh := Some (ch @ map (\<lambda>k. apply_msg (rn_log r ! k)) [Suc (rn_lastApplied r)..<Suc (rn_commitIndex r)])\<rparr>)"
  using assms
proof (induction "rn_commitIndex r - rn_lastApplied r" arbitrary: r ch)
  case 0
  then show ?case by (subst applyLogs.simps) simp
next
  case (Suc d)
  let ?n = "Suc (rn_lastApplied r)"
  let ?r = "r\<lparr>rn_lastApplied := ?n, rn_applyCh := Some (ch @ [apply_msg (rn_log r ! ?n)])\<rparr>"
  have n: "?n \<le> rn_commitIndex r" using Suc.hyps(2) by simp
  then have i: "rl_Index (rn_log r ! ?n) = ?n" using Suc.prems(1,3) by simp
  have "applyLogs r = applyLogs ?r"
    using n i Suc.prems by (subst applyLogs.simps) (simp add: Let_def)
  moreover have "d = rn_commitIndex ?r - rn_lastApplied ?r" using Suc.hyps(2) by simp
  ultimately show ?case
    using Suc.hyps(1) [of ?r "ch @ [apply_msg (rn_log r ! ?n)]"] Suc.prems n
    by (simp add: upt_conv_Cons del: upt_Suc)
qed

text \<open>Applying up to a new commit index.\<close>

lemma applyLogs_commit:
  assumes "wf_log s (rn_log r)" "rn_lastApplied r \<le> k" "k < length (rn_log r)"
    "rn_applyCh r = Some (applied (rn_log r) (rn_lastApplied r))"
  shows "applyLogs (r\<lparr>rn_commitIndex := k\<rparr>)
    = Some (r\<lparr>rn_commitIndex := k, rn_lastApplied := k, rn_applyCh := Some (applied (rn_log r) k)\<rparr>)"
proof -
  have "\<forall>j < length (rn_log r). rl_Index (rn_log r ! j) = j" using assms(1) by (simp add: wf_log_def)
  then show ?thesis
    using applyLogs_run [of "r\<lparr>rn_commitIndex := k\<rparr>"] assms(2-4) applied_grow [OF assms(2), of "rn_log r"]
    by simp
qed

subsection \<open>A new term\<close>

lemma becomeFollower_ok:
  assumes inv: "core_inv ids s" "i \<in> ids" and n: "node_ok ids s fin i r" and t: "rn_currentTerm r < t"
  shows "reaches ids s fin i (becomeFollower t r) [] (s\<lparr>c_term := (c_term s)(i := t)\<rparr>)"
proof (rule reaches_step)
  have tm: "c_term s i = rn_currentTerm r" using n by (simp add: node_ok_def same_node_def)
  show st: "core_step ids s (s\<lparr>c_term := (c_term s)(i := t)\<rparr>)" using inv(2) t tm by (intro bump) simp_all
  show "frame i s (s\<lparr>c_term := (c_term s)(i := t)\<rparr>)" using step_ext [OF st inv(1)] by (simp add: frame_def)
  have "c_vote s i t = None" using inv(1) t tm unfolding core_inv_def inv_votes_def by simp
  then show "node_ok ids (s\<lparr>c_term := (c_term s)(i := t)\<rparr>) fin i (becomeFollower t r)"
    using n by (simp add: node_ok_def same_node_def becomeFollower_def)
qed simp

subsection \<open>Leaders\<close>

lemma node_commit_bound:
  assumes "core_inv ids s" "i \<in> ids" "node_ok ids s fin i r"
  shows "rn_commitIndex r < length (rn_log r)" "wf_log s (rn_log r)"
  using assms inv_node_log(1) [OF assms(1,2)]
  unfolding core_inv_def inv_commit_def covered_def node_ok_def same_node_def by auto

lemma heartbeat_call_ok:
  assumes "leading ids s i r" "rn_id r = i" "p \<in> ids - {i}" "i \<in> ids" "rn_commitIndex r < length (rn_log r)"
  shows "\<exists>call. heartbeat_call r p = Some call \<and> packet_ok ids s (request i call)"
proof -
  have "1 \<le> rn_nextIndex r p" "rn_nextIndex r p \<le> length (rn_log r)"
    using assms(1,3) by (auto simp: leading_def)
  then have *: "rn_nextIndex r p - 1 < length (rn_log r)" by simp
  then show ?thesis
    using assms by (auto simp: heartbeat_call_def Let_def append_ok_def leading_def)
qed

lemma heartbeat_calls_ok:
  assumes "leading ids s i r" "rn_id r = i" "set ps \<subseteq> ids - {i}" "i \<in> ids" "rn_commitIndex r < length (rn_log r)"
  shows "\<exists>calls. heartbeat_calls r ps = Some calls \<and> (\<forall>call \<in> set calls. packet_ok ids s (request i call))"
  using assms(3)
proof (induction ps)
  case (Cons p ps)
  obtain call where c: "heartbeat_call r p = Some call" "packet_ok ids s (request i call)"
    using heartbeat_call_ok [OF assms(1,2) _ assms(4,5), of p] Cons.prems by auto
  obtain calls where "heartbeat_calls r ps = Some calls" "\<forall>call \<in> set calls. packet_ok ids s (request i call)"
    using Cons by auto
  then show ?case using c by auto
qed simp

lemma broadcast_ok:
  assumes "core_inv ids s" "i \<in> ids" "node_ok ids s fin i r"
  shows "\<exists>calls. broadcastHeartbeats r = Some calls \<and> (\<forall>call \<in> set calls. packet_ok ids s (request i call))"
proof (cases "rn_role r = Leader")
  case True
  then show ?thesis
    using heartbeat_calls_ok [of ids s i r "rn_peers r"] assms node_commit_bound(1) [OF assms]
    by (simp add: broadcastHeartbeats_def node_ok_def)
qed (simp add: broadcastHeartbeats_def)

lemma broadcast_reaches:
  assumes "core_inv ids s" "i \<in> ids" "reaches ids s fin i r [] s'"
  shows "\<exists>calls. broadcastHeartbeats r = Some calls \<and> reaches ids s fin i r calls s'"
  using broadcast_ok [of ids s' i fin r] reaches_inv [OF assms(3,1)] assms(2,3) unfolding reaches_def by blast

lemma majorityNeeded_ids:
  assumes "node_ok ids s fin i r" "finite ids" "i \<in> ids"
  shows "majorityNeeded r = card ids div 2 + 1"
proof -
  have "length (rn_peers r) = card (ids - {i})"
    using assms(1) distinct_card [of "rn_peers r"] by (simp add: node_ok_def)
  then have "length (rn_peers r) + 1 = card ids"
    using card_Suc_Diff1 [OF assms(2,3)] by simp
  then show ?thesis by (simp add: majorityNeeded_def)
qed

lemma becomeLeader_ok:
  assumes inv: "core_inv ids s" "i \<in> ids" "0 \<le> i" and n: "node_ok ids s fin i r" and c: "rn_role r = Candidate"
    and m: "majority ids {q \<in> ids. c_vote s q (rn_currentTerm r) = Some i}"
  shows "\<exists>r' calls s'. becomeLeader r = Some (r', calls) \<and> reaches ids s fin i r' calls s'"
proof -
  let ?t = "rn_currentTerm r"
  define r1 where "r1 = r\<lparr>rn_role := Leader,
    rn_nextIndex := (\<lambda>p. if p \<in> set (rn_peers r) then length (rn_log r) else rn_nextIndex r p),
    rn_matchIndex := (\<lambda>p. if p \<in> set (rn_peers r) then 0 else rn_matchIndex r p)\<rparr>"
  define s' where "s' = s\<lparr>c_lead := (c_lead s)(?t \<mapsto> i), c_wins := (c_wins s)(?t := {q \<in> ids. c_vote s q ?t = Some i}),
    c_llog := (c_llog s)(?t := c_log s i), c_lcommit := (c_lcommit s)(?t := c_commit s i)\<rparr>"
  have st: "standing ids s fin i r" "same_node s i r" using n c by (auto simp: node_ok_def)
  have ne: "rn_log r \<noteq> []" using node_commit_bound(1) [OF inv(1,2) n] by auto
  have step: "core_step ids s s'"
    unfolding s'_def using inv(2,3) st m by (intro win) (auto simp: standing_def same_node_def)
  have new: "c_lead s ?t = None"
    using win_fresh [of ids s ?t i] inv(1) m st(1) by (simp add: core_inv_def standing_def)
  have "frame i s s'" using step_ext [OF step inv(1)] new by (auto simp: frame_def s'_def)
  moreover have "leading ids s' i r1"
    using n st(2) ne by (auto simp: leading_def s'_def r1_def node_ok_def same_node_def Suc_le_eq)
  then have "node_ok ids s' fin i r1"
    using n by (simp add: node_ok_def same_node_def s'_def r1_def)
  ultimately have "reaches ids s fin i r1 [] s'" using step by (intro reaches_step) simp_all
  from broadcast_reaches [OF inv(1,2) this] obtain calls where
    "broadcastHeartbeats r1 = Some calls" "reaches ids s fin i r1 calls s'" by blast
  then show ?thesis by (auto simp: becomeLeader_def Let_def r1_def)
qed

lemma stand_ok:
  assumes inv: "core_inv ids s" "i \<in> ids" "0 \<le> i" "finite ids" and n: "node_ok ids s fin i r"
  defines "t \<equiv> Suc (rn_currentTerm r)"
  defines "s' \<equiv> s\<lparr>c_term := (c_term s)(i := t), c_vote := (c_vote s)(i := (c_vote s i)(t \<mapsto> i)),
      c_cand := (c_cand s)(i := (c_cand s i)(t := c_log s i))\<rparr>"
  defines "r' \<equiv> r\<lparr>rn_role := Candidate, rn_currentTerm := t, rn_votedFor := i,
      rn_votesReceived := (rn_votesReceived r)(t := 1)\<rparr>"
  shows "reaches ids s fin i r' [] s'" and "c_vote s' i t = Some i" and "c_cand s' i t = rn_log r"
proof -
  have sn: "same_node s i r" using n by (simp add: node_ok_def)
  then have tm: "c_term s i = rn_currentTerm r" by (simp add: same_node_def)
  show "c_vote s' i t = Some i" "c_cand s' i t = rn_log r"
    using sn by (simp_all add: s'_def same_node_def)
  have step: "core_step ids s s'" unfolding s'_def using inv(2) tm by (intro stand) (simp_all add: t_def)
  have "frame i s s'" using step_ext [OF step inv(1)] by (simp add: frame_def s'_def)
  moreover have "standing ids s' fin i r'"
  proof -
    have "{i} \<subseteq> {q \<in> ids. (q = i \<or> (i, t, q) \<in> fin) \<and> c_vote s' q t = Some i}"
      using inv(2) by (simp add: s'_def)
    then have "card {i} \<le> card {q \<in> ids. (q = i \<or> (i, t, q) \<in> fin) \<and> c_vote s' q t = Some i}"
      using inv(4) by (intro card_mono) simp_all
    moreover have "c_lead s t \<noteq> Some i"
      using inv(1) tm unfolding core_inv_def inv_lead_def t_def by fastforce
    ultimately show ?thesis using sn by (simp add: standing_def r'_def s'_def same_node_def)
  qed
  ultimately show "reaches ids s fin i r' [] s'"
    using step n inv(3) by (intro reaches_step) (auto simp: node_ok_def same_node_def r'_def s'_def)
qed

lemma candidate_majority:
  assumes "standing ids s fin i r" "node_ok ids s fin i r" "finite ids" "i \<in> ids"
    "majorityNeeded r \<le> rn_votesReceived r (rn_currentTerm r)"
  shows "majority ids {q \<in> ids. c_vote s q (rn_currentTerm r) = Some i}"
proof -
  let ?t = "rn_currentTerm r"
  have "card {q \<in> ids. (q = i \<or> (i, ?t, q) \<in> fin) \<and> c_vote s q ?t = Some i} \<le> card {q \<in> ids. c_vote s q ?t = Some i}"
    using assms(3) by (intro card_mono) auto
  then show ?thesis
    using assms(1,3,5) majorityNeeded_ids [OF assms(2-4)] unfolding majority_def standing_def by auto
qed

lemma startElection_ok:
  assumes inv: "core_inv ids s" "i \<in> ids" "0 \<le> i" "finite ids" and n: "node_ok ids s fin i r"
  shows "\<exists>r' calls s'. startElection r = Some (r', calls) \<and> reaches ids s fin i r' calls s'"
proof -
  define t where "t = Suc (rn_currentTerm r)"
  define r1 where "r1 = r\<lparr>rn_role := Candidate, rn_currentTerm := t, rn_votedFor := i,
      rn_votesReceived := (rn_votesReceived r)(t := 1)\<rparr>"
  obtain s' where s': "reaches ids s fin i r1 [] s'" "c_vote s' i t = Some i" "c_cand s' i t = rn_log r"
    using stand_ok [OF inv n] unfolding t_def r1_def by blast
  have ne: "rn_log r \<noteq> []" using node_commit_bound(1) [OF inv(1,2) n] by auto
  have id: "rn_id r = i" "set (rn_peers r) = ids - {i}" using n by (simp_all add: node_ok_def)
  have inv': "core_inv ids s'" using reaches_inv [OF s'(1) inv(1)] .
  have n1: "node_ok ids s' fin i r1" using s'(1) by (simp add: reaches_def)
  show ?thesis
  proof (cases "majorityNeeded r1 \<le> 1")
    case True
    have "standing ids s' fin i r1" using n1 by (simp add: node_ok_def r1_def)
    then have "majority ids {q \<in> ids. c_vote s' q (rn_currentTerm r1) = Some i}"
      using True by (intro candidate_majority [OF _ n1 inv(4,2)]) (simp_all add: r1_def)
    then obtain r' calls s'' where "becomeLeader r1 = Some (r', calls)" "reaches ids s' fin i r' calls s''"
      using becomeLeader_ok [OF inv' inv(2,3) n1] by (auto simp: r1_def)
    moreover have "startElection r = becomeLeader r1"
      using True ne id by (simp add: startElection_def Let_def r1_def t_def)
    ultimately show ?thesis using reaches_trans [OF s'(1)] by auto
  next
    case False
    let ?args = "\<lparr>rv_Term = t, rv_CandidateID = i, rv_LastLogIndex = length (rn_log r) - 1,
      rv_LastLogTerm = rl_Term (last (rn_log r))\<rparr>"
    have "startElection r = Some (r1, map (\<lambda>p. VoteCall p ?args) (rn_peers r))"
      using False ne id by (simp add: startElection_def Let_def r1_def t_def last_conv_nth)
    moreover have "packet_ok ids s' (request i call)" if "call \<in> set (map (\<lambda>p. VoteCall p ?args) (rn_peers r))" for call
    proof -
      obtain p where "p \<in> ids - {i}" "call = VoteCall p ?args" using \<open>call \<in> _\<close> id(2) by auto
      then show ?thesis using s'(2,3) inv(2) by (simp add: vote_ok_def)
    qed
    ultimately show ?thesis using s'(1) unfolding reaches_def by blast
  qed
qed

text \<open>An answered request does not hurt, and a vote that comes with the answer may be counted.\<close>

lemma answered_node_ok:
  assumes fin: "finite ids" and n: "node_ok ids s fin i r"
  shows "node_ok ids s (insert (i, t, p) fin) i r"
proof -
  have "standing ids s (insert (i, t, p) fin) i r" if "standing ids s fin i r"
  proof -
    have "card {q \<in> ids. (q = i \<or> (i, rn_currentTerm r, q) \<in> fin) \<and> c_vote s q (rn_currentTerm r) = Some i}
      \<le> card {q \<in> ids. (q = i \<or> (i, rn_currentTerm r, q) \<in> insert (i, t, p) fin) \<and> c_vote s q (rn_currentTerm r) = Some i}"
      using fin by (intro card_mono) auto
    then show ?thesis using that unfolding standing_def by linarith
  qed
  then show ?thesis using n by (simp add: node_ok_def)
qed

lemma vote_counted:
  assumes fin: "finite ids" and n: "node_ok ids s fin i r" "rn_role r = Candidate" "rn_currentTerm r = t"
    and p: "p \<in> ids - {i}" "(i, t, p) \<notin> fin" "c_vote s p t = Some i"
  defines "r' \<equiv> r\<lparr>rn_votesReceived := (rn_votesReceived r)(t := rn_votesReceived r t + 1)\<rparr>"
  shows "standing ids s (insert (i, t, p) fin) i r'" "node_ok ids s (insert (i, t, p) fin) i r'"
proof -
  let ?V = "{q \<in> ids. (q = i \<or> (i, t, q) \<in> fin) \<and> c_vote s q t = Some i}"
  have "{q \<in> ids. (q = i \<or> (i, t, q) \<in> insert (i, t, p) fin) \<and> c_vote s q t = Some i} = insert p ?V"
    using p by auto
  moreover have "p \<notin> ?V" "finite ?V" using p(1,2) fin by auto
  ultimately have "card {q \<in> ids. (q = i \<or> (i, t, q) \<in> insert (i, t, p) fin) \<and> c_vote s q t = Some i} = Suc (card ?V)"
    by simp
  then show st: "standing ids s (insert (i, t, p) fin) i r'"
    using n by (simp add: node_ok_def standing_def r'_def)
  then show "node_ok ids s (insert (i, t, p) fin) i r'"
    using answered_node_ok [OF fin n(1), of t p] n(2) by (simp add: node_ok_def same_node_def r'_def)
qed

lemma vote_reply_ok:
  assumes inv: "core_inv ids s" "i \<in> ids" "0 \<le> i" "finite ids" and n: "node_ok ids s fin i r"
    and p: "p \<in> ids - {i}" "(i, t, p) \<notin> fin" "vr_VoteGranted reply \<Longrightarrow> c_vote s p t = Some i"
  shows "\<exists>r' calls s'. vote_reply t reply r = Some (r', calls)
    \<and> reaches ids s (insert (i, t, p) fin) i r' calls s'"
proof -
  note grow = answered_node_ok [OF inv(4) n, of t p]
  show ?thesis
  proof (cases "rn_role r = Candidate \<and> rn_currentTerm r = t")
    case False
    then show ?thesis using reaches_stay [OF grow] by (auto simp: vote_reply_def)
  next
    case True
    consider "t < vr_Term reply" | "\<not> t < vr_Term reply" "\<not> vr_VoteGranted reply"
      | "\<not> t < vr_Term reply" "vr_VoteGranted reply" by blast
    then show ?thesis
    proof cases
      case 1
      then show ?thesis using becomeFollower_ok [OF inv(1,2) grow] True by (auto simp: vote_reply_def)
    next
      case 2
      then show ?thesis using True reaches_stay [OF grow] by (auto simp: vote_reply_def)
    next
      case 3
      let ?fin = "insert (i, t, p) fin"
      let ?r = "r\<lparr>rn_votesReceived := (rn_votesReceived r)(t := rn_votesReceived r t + 1)\<rparr>"
      note n' = vote_counted [OF inv(4) n _ _ p(1,2) p(3)]
      show ?thesis
      proof (cases "majorityNeeded ?r \<le> rn_votesReceived r t + 1")
        case m: True
        have "majority ids {q \<in> ids. c_vote s q (rn_currentTerm ?r) = Some i}"
          using m True by (intro candidate_majority [OF n' inv(4,2)]) (simp_all add: 3)
        then obtain r' calls s' where "becomeLeader ?r = Some (r', calls)" "reaches ids s ?fin i r' calls s'"
          using becomeLeader_ok [OF inv(1-3) n'(2)] True 3 by auto
        then show ?thesis using 3 True m by (auto simp: vote_reply_def Let_def)
      next
        case False
        then show ?thesis using 3 True reaches_stay [OF n'(2)] by (auto simp: vote_reply_def Let_def)
      qed
    qed
  qed
qed

subsection \<open>Votes\<close>

lemma catch_up:
  assumes "core_inv ids s" "i \<in> ids" "node_ok ids s fin i r"
  shows "\<exists>s'. reaches ids s fin i (if rn_currentTerm r < t then becomeFollower t r else r) [] s'"
  using becomeFollower_ok [OF assms] reaches_stay [OF assms(3)] by (cases "rn_currentTerm r < t") auto

lemma RequestVote_grant:
  assumes inv: "core_inv ids s" "q \<in> ids" and n: "node_ok ids s fin q r"
    and v: "vote_ok s i args" "i \<noteq> q" "0 \<le> i" "0 \<le> q" and t: "rv_Term args = rn_currentTerm r"
    and g: "rn_votedFor r = -1 \<or> rn_votedFor r = i"
    and u: "up_to_date (c_cand s i (rv_Term args)) (rn_log r)"
  shows "\<exists>s'. reaches ids s fin q (r\<lparr>rn_votedFor := i\<rparr>) [] s' \<and> c_vote s' q (rv_Term args) = Some i"
proof -
  define s' where "s' = s\<lparr>c_vote := (c_vote s)(q := (c_vote s q)(c_term s q \<mapsto> i))\<rparr>"
  have sn: "same_node s q r" using n by (simp add: node_ok_def)
  then have tm: "c_term s q = rv_Term args" "c_log s q = rn_log r" using t by (simp_all add: same_node_def)
  have "c_vote s q (c_term s q) \<in> {None, Some i}" using sn g by (auto simp: same_node_def split: if_splits)
  moreover have "c_vote s i (c_term s q) = Some i" using v(1) tm by (simp add: vote_ok_def)
  ultimately have step: "core_step ids s s'"
    unfolding s'_def using inv(2) u tm by (intro grant) simp_all
  have "frame q s s'" using step_ext [OF step inv(1)] by (simp add: frame_def s'_def)
  moreover have "rn_role r = Candidate \<longrightarrow> rn_votedFor r = q"
    using n unfolding node_ok_def standing_def by blast
  then have "rn_role r \<noteq> Candidate" using g v(2,4) by fastforce
  then have "node_ok ids s' fin q (r\<lparr>rn_votedFor := i\<rparr>)"
    using n v(3) t tm(1) by (simp add: node_ok_def same_node_def s'_def leading_def)
  ultimately have "reaches ids s fin q (r\<lparr>rn_votedFor := i\<rparr>) [] s'" using step by (intro reaches_step) simp_all
  then show ?thesis using tm by (auto simp: s'_def)
qed

lemma RequestVote_ok:
  assumes inv: "core_inv ids s" "q \<in> ids" and n: "node_ok ids s fin q r"
    and v: "vote_ok s i args" "i \<in> ids" "i \<noteq> q" and pos: "\<forall>i \<in> ids. 0 \<le> i"
  shows "\<exists>r' reply s'. RequestVote args r = Some (r', reply) \<and> reaches ids s fin q r' [] s'
    \<and> (vr_VoteGranted reply \<longrightarrow> c_vote s' q (rv_Term args) = Some i)"
proof -
  define r1 where "r1 = (if rn_currentTerm r < rv_Term args then becomeFollower (rv_Term args) r else r)"
  obtain s1 where s1: "reaches ids s fin q r1 [] s1"
    using catch_up [OF inv n, of "rv_Term args"] unfolding r1_def by blast
  have inv1: "core_inv ids s1" using reaches_inv [OF s1 inv(1)] .
  have n1: "node_ok ids s1 fin q r1" and e: "ext s s1" using s1 by (simp_all add: reaches_def frame_def)
  have v1: "vote_ok s1 i args" using ext_vote_ok [OF e v(1)] .
  have ne: "rn_log r1 \<noteq> []" using node_commit_bound(1) [OF inv1 inv(2) n1] by auto
  define ok where "ok \<longleftrightarrow> rl_Term (rn_log r1 ! (length (rn_log r1) - 1)) < rv_LastLogTerm args
    \<or> rv_LastLogTerm args = rl_Term (rn_log r1 ! (length (rn_log r1) - 1))
      \<and> length (rn_log r1) - 1 \<le> rv_LastLogIndex args"
  have eq: "RequestVote args r =
      (if rv_Term args < rn_currentTerm r1 then Some (r1, \<lparr>vr_Term = rn_currentTerm r1, vr_VoteGranted = False\<rparr>)
       else if (rn_votedFor r1 = -1 \<or> rn_votedFor r1 = i) \<and> ok
         then Some (r1\<lparr>rn_votedFor := i\<rparr>, \<lparr>vr_Term = rn_currentTerm r1, vr_VoteGranted = True\<rparr>)
         else Some (r1, \<lparr>vr_Term = rn_currentTerm r1, vr_VoteGranted = False\<rparr>))"
    using ne v(1) unfolding RequestVote_def r1_def [symmetric] ok_def Let_def by (simp add: vote_ok_def)
  show ?thesis
  proof (cases "\<not> rv_Term args < rn_currentTerm r1 \<and> (rn_votedFor r1 = -1 \<or> rn_votedFor r1 = i) \<and> ok")
    case True
    have t: "rv_Term args = rn_currentTerm r1"
      using True by (auto simp: r1_def becomeFollower_def split: if_splits)
    have "wf_log s1 (c_cand s1 i (rv_Term args))"
      using inv_cand_log(1) [OF inv1] v1 by (simp add: vote_ok_def)
    then have "length (rn_log r1) - 1 \<le> length (c_cand s1 i (rv_Term args)) - 1
        \<longleftrightarrow> length (rn_log r1) \<le> length (c_cand s1 i (rv_Term args))"
      using ne by (cases "c_cand s1 i (rv_Term args)") (auto simp: wf_log_def)
    moreover have "rv_LastLogIndex args = length (c_cand s1 i (rv_Term args)) - 1"
      "rv_LastLogTerm args = rl_Term (last (c_cand s1 i (rv_Term args)))"
      using v1 by (simp_all add: vote_ok_def)
    ultimately have "up_to_date (c_cand s1 i (rv_Term args)) (rn_log r1)"
      using True ne unfolding ok_def up_to_date_def by (simp add: last_conv_nth)
    then obtain s2 where s2: "reaches ids s1 fin q (r1\<lparr>rn_votedFor := i\<rparr>) [] s2" "c_vote s2 q (rv_Term args) = Some i"
      using RequestVote_grant [OF inv1 inv(2) n1 v1 v(3) _ _ t] pos v(2) inv(2) True by blast
    then show ?thesis using eq True reaches_trans [OF s1 s2(1)] by auto
  next
    case False
    then obtain reply where "RequestVote args r = Some (r1, reply)" "\<not> vr_VoteGranted reply"
      using eq by (auto split: if_splits)
    then show ?thesis using s1 by blast
  qed
qed

subsection \<open>Entries\<close>

lemma take_entries:
  assumes inv: "core_inv ids s" "q \<in> ids" and n: "node_ok ids s fin q r"
    and a: "append_ok s l args" "l \<noteq> q" and t: "ae_Term args = rn_currentTerm r" and f: "rn_role r = Follower"
    and p: "ae_PrevLogIndex args < length (rn_log r)" "rl_Term (rn_log r ! ae_PrevLogIndex args) = ae_PrevLogTerm args"
  defines "L \<equiv> append_entries (rn_log r) (Suc (ae_PrevLogIndex args)) (ae_Entries args)"
  shows "\<exists>s'. reaches ids s fin q (r\<lparr>rn_log := L\<rparr>) [] s' \<and> append_ok s' l args
    \<and> (q, ae_Term args, ae_PrevLogIndex args + length (ae_Entries args)) \<in> c_acks s'
    \<and> agree L (c_llog s' (ae_Term args)) (ae_PrevLogIndex args + length (ae_Entries args))"
proof -
  let ?T = "ae_Term args" and ?prev = "ae_PrevLogIndex args" and ?n = "length (ae_Entries args)"
  have sn: "same_node s q r" using n by (simp add: node_ok_def)
  have a': "c_lead s ?T = Some l" "?prev + ?n < length (c_llog s ?T)"
    "ae_Entries args = take ?n (drop (Suc ?prev) (c_llog s ?T))" "ae_PrevLogTerm args = rl_Term (c_llog s ?T ! ?prev)"
    using a(1) unfolding append_ok_def by blast+
  have q: "c_log s q = rn_log r" "?T = c_term s q" using sn t by (simp_all add: same_node_def)
  define s' where "s' = s\<lparr>c_log := (c_log s)(q := append_entries (c_log s q) (Suc ?prev)
        (take ?n (drop (Suc ?prev) (c_llog s ?T)))), c_acks := insert (q, ?T, ?prev + ?n) (c_acks s)\<rparr>"
  have L: "L = append_entries (c_log s q) (Suc ?prev) (take ?n (drop (Suc ?prev) (c_llog s ?T)))"
    unfolding L_def using a'(3) q(1) by simp
  have g: "q \<in> ids" "c_lead s ?T \<noteq> None" "?prev < length (c_log s q)" "?prev + ?n < length (c_llog s ?T)"
    "rl_Term (c_log s q ! ?prev) = rl_Term (c_llog s ?T ! ?prev)"
    using inv(2) a' p q by simp_all
  have step: "core_step ids s s'"
    unfolding s'_def by (rule accept) (use g a(2) a'(1) q in auto)
  have "frame q s s'" using step_ext [OF step inv(1)] by (simp add: frame_def s'_def)
  moreover have "agree L (rn_log r) (rn_commitIndex r)"
    using accept_commit [OF inv(1) g(1) q(2) g(2-5)] L sn by (simp add: same_node_def)
  then have "applied L (rn_commitIndex r) = applied (rn_log r) (rn_commitIndex r)" by (rule applied_agree)
  then have "node_ok ids s' fin q (r\<lparr>rn_log := L\<rparr>)"
    using n f L by (simp add: node_ok_def same_node_def s'_def)
  ultimately have "reaches ids s fin q (r\<lparr>rn_log := L\<rparr>) [] s'" using step by (intro reaches_step) simp_all
  moreover have "append_ok s' l args" using ext_append_ok [OF step_ext [OF step inv(1)] a(1)] .
  moreover have "agree L (c_llog s' ?T) (?prev + ?n)"
    using accept_log(1) [OF inv(1) g] L by (simp add: s'_def)
  ultimately show ?thesis by (auto simp: s'_def)
qed

lemma follow_commit:
  assumes inv: "core_inv ids s" "q \<in> ids" and n: "node_ok ids s fin q r"
    and a: "append_ok s l args" and t: "ae_Term args = rn_currentTerm r" and f: "rn_role r = Follower"
    and k: "agree (rn_log r) (c_llog s (ae_Term args)) (ae_LeaderCommit args)" "rn_commitIndex r < ae_LeaderCommit args"
  shows "\<exists>r' s'. applyLogs (r\<lparr>rn_commitIndex := ae_LeaderCommit args\<rparr>) = Some r' \<and> reaches ids s fin q r' [] s'"
proof -
  let ?k = "ae_LeaderCommit args"
  define r' where "r' = r\<lparr>rn_commitIndex := ?k, rn_lastApplied := ?k, rn_applyCh := Some (applied (rn_log r) ?k)\<rparr>"
  define s' where "s' = s\<lparr>c_commit := (c_commit s)(q := ?k)\<rparr>"
  have sn: "same_node s q r" and la: "rn_lastApplied r = rn_commitIndex r"
    "rn_applyCh r = Some (applied (rn_log r) (rn_commitIndex r))" using n by (simp_all add: node_ok_def)
  have "applyLogs (r\<lparr>rn_commitIndex := ?k\<rparr>) = Some r'"
    unfolding r'_def using node_commit_bound(2) [OF inv n] la k agree_length [OF k(1)]
    by (intro applyLogs_commit) simp_all
  moreover have step: "core_step ids s s'"
    unfolding s'_def using inv(2) a t k(1) sn
    by (intro commit_follower [where t = "ae_Term args"]) (simp_all add: append_ok_def same_node_def)
  moreover have "frame q s s'" using step_ext [OF step inv(1)] by (simp add: frame_def s'_def)
  moreover have "node_ok ids s' fin q r'"
    using n f by (simp add: node_ok_def same_node_def s'_def r'_def)
  ultimately show ?thesis using reaches_step [of ids s s' q fin r' "[]"] by auto
qed

text \<open>
  The end of \<open>AppendEntries\<close>: the entries reach at least as far as the commit index of the leader,
  so the minimum the code takes is that index.
\<close>

lemma follow_min_commit:
  assumes inv: "core_inv ids s" "q \<in> ids" and n: "node_ok ids s fin q r" and a: "append_ok s l args"
    and t: "ae_Term args = rn_currentTerm r" "rn_role r = Follower"
    and g: "agree (rn_log r) (c_llog s (ae_Term args)) (ae_PrevLogIndex args + length (ae_Entries args))"
  shows "\<exists>r' s'. (if rn_commitIndex r < ae_LeaderCommit args then
        applyLogs (r\<lparr>rn_commitIndex :=
          (if ae_LeaderCommit args < length (rn_log r) - 1 then ae_LeaderCommit args else length (rn_log r) - 1)\<rparr>)
      else Some r) = Some r' \<and> reaches ids s fin q r' [] s'"
proof (cases "rn_commitIndex r < ae_LeaderCommit args")
  case True
  have "ae_LeaderCommit args \<le> ae_PrevLogIndex args + length (ae_Entries args)" using a by (simp add: append_ok_def)
  then have g': "agree (rn_log r) (c_llog s (ae_Term args)) (ae_LeaderCommit args)" using agree_mono [OF g] by simp
  then have lc: "(if ae_LeaderCommit args < length (rn_log r) - 1 then ae_LeaderCommit args
      else length (rn_log r) - 1) = ae_LeaderCommit args"
    using agree_length [OF g'] by auto
  show ?thesis unfolding lc using follow_commit [OF inv n a t g' True] True by auto
next
  case False
  then show ?thesis using reaches_stay [OF n] by auto
qed

lemma AppendEntries_ok:
  assumes inv: "core_inv ids s" "q \<in> ids" and n: "node_ok ids s fin q r" and a: "append_ok s l args" "l \<noteq> q"
  shows "\<exists>r' reply s'. AppendEntries args r = Some (r', reply) \<and> reaches ids s fin q r' [] s'
    \<and> (ar_Success reply \<longrightarrow> (q, ae_Term args, ae_PrevLogIndex args + length (ae_Entries args)) \<in> c_acks s')"
proof -
  let ?prev = "ae_PrevLogIndex args" and ?n = "length (ae_Entries args)"
  define r1 where "r1 = (if rn_currentTerm r < ae_Term args then becomeFollower (ae_Term args) r else r)"
  define r2 where "r2 = r1\<lparr>rn_role := Follower\<rparr>"
  define L where "L = append_entries (rn_log r2) (Suc ?prev) (ae_Entries args)"
  define r3 where "r3 = r2\<lparr>rn_log := L\<rparr>"
  define no where "no = \<lparr>ar_Term = rn_currentTerm r1, ar_Success = False\<rparr>"
  obtain s1 where s1: "reaches ids s fin q r1 [] s1"
    using catch_up [OF inv n, of "ae_Term args"] unfolding r1_def by blast
  have inv1: "core_inv ids s1" using reaches_inv [OF s1 inv(1)] .
  have n1: "node_ok ids s1 fin q r1" and e: "ext s s1" using s1 by (simp_all add: reaches_def frame_def)
  have n2: "node_ok ids s1 fin q r2" using n1 by (simp add: node_ok_def same_node_def r2_def)
  have s2: "reaches ids s fin q r2 [] s1" using s1 n2 by (simp add: reaches_def)
  have a1: "append_ok s1 l args" using ext_append_ok [OF e a(1)] .
  have eq: "AppendEntries args r =
      (if ae_Term args < rn_currentTerm r1 then Some (r1, no)
       else if length (rn_log r2) \<le> ?prev \<or> rl_Term (rn_log r2 ! ?prev) \<noteq> ae_PrevLogTerm args then Some (r2, no)
       else map_option (\<lambda>r4. (r4, no\<lparr>ar_Success := True\<rparr>)) (if rn_commitIndex r3 < ae_LeaderCommit args then
           applyLogs (r3\<lparr>rn_commitIndex :=
             (if ae_LeaderCommit args < length (rn_log r3) - 1 then ae_LeaderCommit args else length (rn_log r3) - 1)\<rparr>)
         else Some r3))"
    unfolding AppendEntries_def r1_def [symmetric] Let_def no_def r3_def L_def r2_def by simp
  consider "ae_Term args < rn_currentTerm r1"
    | "\<not> ae_Term args < rn_currentTerm r1" "length (rn_log r2) \<le> ?prev \<or> rl_Term (rn_log r2 ! ?prev) \<noteq> ae_PrevLogTerm args"
    | "\<not> ae_Term args < rn_currentTerm r1" "?prev < length (rn_log r2)" "rl_Term (rn_log r2 ! ?prev) = ae_PrevLogTerm args"
    by linarith
  then show ?thesis
  proof cases
    case 1
    then show ?thesis using eq s1 by (auto simp: no_def)
  next
    case 2
    then show ?thesis using eq s2 by (auto simp: no_def)
  next
    case 3
    have t: "ae_Term args = rn_currentTerm r2" and f: "rn_role r2 = Follower"
      using 3(1) by (auto simp: r2_def r1_def becomeFollower_def split: if_splits)
    obtain s3 where s3: "reaches ids s1 fin q r3 [] s3" "append_ok s3 l args"
      "(q, ae_Term args, ?prev + ?n) \<in> c_acks s3" "agree L (c_llog s3 (ae_Term args)) (?prev + ?n)"
      using take_entries [OF inv1 inv(2) n2 a1 a(2) t f 3(2,3)] unfolding r3_def L_def by blast
    have inv3: "core_inv ids s3" using reaches_inv [OF s3(1) inv1] .
    have n3: "node_ok ids s3 fin q r3" using s3(1) by (simp add: reaches_def)
    have t3: "ae_Term args = rn_currentTerm r3" "rn_role r3 = Follower" using t f by (simp_all add: r3_def)
    have "agree (rn_log r3) (c_llog s3 (ae_Term args)) (?prev + ?n)" using s3(4) by (simp add: r3_def)
    from follow_min_commit [OF inv3 inv(2) n3 s3(2) t3 this] obtain r4 s4 where
      s4: "AppendEntries args r = Some (r4, no\<lparr>ar_Success := True\<rparr>)" "reaches ids s3 fin q r4 [] s4"
      unfolding eq using 3 by auto
    have "c_acks s3 \<subseteq> c_acks s4" using s4(2) by (simp add: reaches_def frame_def ext_def)
    then show ?thesis using s4(1) reaches_trans [OF reaches_trans [OF s2 s3(1)] s4(2)] s3(3) by blast
  qed
qed

subsection \<open>Committing\<close>

lemma counted_majority:
  assumes n: "node_ok ids s fin i r" and l: "leading ids s i r" and f: "finite ids" "i \<in> ids"
    and k: "0 < k" "k < length (rn_log r)"
    and c: "majorityNeeded r \<le> 1 + length (filter (\<lambda>p. k \<le> rn_matchIndex r p) (rn_peers r))"
  shows "majority ids {q \<in> ids. acked s q (rn_currentTerm r) k}"
proof -
  let ?P = "{p \<in> ids - {i}. k \<le> rn_matchIndex r p}"
  have "set (filter (\<lambda>p. k \<le> rn_matchIndex r p) (rn_peers r)) = ?P" "distinct (rn_peers r)"
    using n by (auto simp: node_ok_def)
  then have "length (filter (\<lambda>p. k \<le> rn_matchIndex r p) (rn_peers r)) = card ?P"
    using distinct_card distinct_filter by metis
  then have "card ids div 2 + 1 \<le> card (insert i ?P)" using c majorityNeeded_ids [OF n f] f(1) by simp
  moreover have "insert i ?P \<subseteq> {q \<in> ids. acked s q (rn_currentTerm r) k}"
  proof -
    have "acked s i (rn_currentTerm r) k" using l k by (auto simp: leading_def acked_def)
    moreover have "acked s p (rn_currentTerm r) k" if "p \<in> ?P" for p
      using l that k(1) unfolding leading_def acked_def by force
    ultimately show ?thesis using f(2) by blast
  qed
  then have "card (insert i ?P) \<le> card {q \<in> ids. acked s q (rn_currentTerm r) k}"
    using f(1) by (intro card_mono) simp_all
  ultimately show ?thesis using f(1) unfolding majority_def by auto
qed

lemma commit_ok:
  assumes inv: "core_inv ids s" "i \<in> ids" and n: "node_ok ids s fin i r" and l: "rn_role r = Leader"
    and k: "rn_commitIndex r < k" "k < length (rn_log r)" "rl_Term (rn_log r ! k) = rn_currentTerm r"
    and m: "majority ids {q \<in> ids. acked s q (rn_currentTerm r) k}"
  shows "\<exists>r' s'. applyLogs (r\<lparr>rn_commitIndex := k\<rparr>) = Some r' \<and> reaches ids s fin i r' [] s'"
proof -
  let ?t = "rn_currentTerm r"
  define r' where "r' = r\<lparr>rn_commitIndex := k, rn_lastApplied := k, rn_applyCh := Some (applied (rn_log r) k)\<rparr>"
  define s' where "s' = s\<lparr>c_commit := (c_commit s)(i := k), c_lcommit := (c_lcommit s)(?t := k)\<rparr>"
  have sn: "same_node s i r" and ld: "leading ids s i r" and la: "rn_lastApplied r = rn_commitIndex r"
    "rn_applyCh r = Some (applied (rn_log r) (rn_commitIndex r))" using n l by (simp_all add: node_ok_def)
  have "applyLogs (r\<lparr>rn_commitIndex := k\<rparr>) = Some r'"
    unfolding r'_def using node_commit_bound(2) [OF inv n] la k by (intro applyLogs_commit) simp_all
  moreover have step: "core_step ids s s'"
    unfolding s'_def using inv(2) k m sn ld by (intro commit_leader) (simp_all add: leading_def same_node_def)
  moreover have "frame i s s'"
    using step_ext [OF step inv(1)] ld by (auto simp: frame_def s'_def leading_def)
  moreover have "node_ok ids s' fin i r'"
    using n l by (simp add: node_ok_def same_node_def leading_def s'_def r'_def)
  ultimately show ?thesis using reaches_step [of ids s s' i fin r' "[]"] by auto
qed

lemma advance_ok:
  assumes inv: "core_inv ids s" "i \<in> ids" "finite ids" and n: "node_ok ids s fin i r" and l: "rn_role r = Leader"
    and "N < length (rn_log r)"
  shows "\<exists>r' s'. advance_from r N = Some r' \<and> reaches ids s fin i r' [] s'"
  using assms(6)
proof (induction N)
  case 0
  then show ?case using reaches_stay [OF n] by auto
next
  case (Suc N)
  then have IH: "\<exists>r' s'. advance_from r N = Some r' \<and> reaches ids s fin i r' [] s'" by simp
  let ?c = "1 + length (filter (\<lambda>p. Suc N \<le> rn_matchIndex r p) (rn_peers r))"
  show ?case
  proof (cases "rn_commitIndex r < Suc N \<and> rl_Term (rn_log r ! Suc N) = rn_currentTerm r \<and> majorityNeeded r \<le> ?c")
    case True
    have "leading ids s i r" using n l by (simp add: node_ok_def)
    then have "majority ids {q \<in> ids. acked s q (rn_currentTerm r) (Suc N)}"
      using counted_majority [OF n _ inv(3,2) _ Suc.prems] True by simp
    then show ?thesis using commit_ok [OF inv(1,2) n l _ Suc.prems] True by (simp add: Let_def)
  next
    case False
    then show ?thesis using IH reaches_stay [OF n] by (auto simp: Let_def)
  qed
qed

lemma append_reply_ok:
  assumes inv: "core_inv ids s" "i \<in> ids" "finite ids" and n: "node_ok ids s fin i r"
    and a: "append_ok s i args" "p \<in> ids - {i}"
      "ar_Success reply \<Longrightarrow> (p, ae_Term args, ae_PrevLogIndex args + length (ae_Entries args)) \<in> c_acks s"
  shows "\<exists>r' s'. append_reply (ae_Term args) p (ae_PrevLogIndex args) (length (ae_Entries args)) reply r = Some r'
    \<and> reaches ids s fin i r' [] s'"
proof (cases "rn_role r = Leader \<and> rn_currentTerm r = ae_Term args")
  case False
  then show ?thesis using reaches_stay [OF n] by (auto simp: append_reply_def)
next
  case True
  let ?prev = "ae_PrevLogIndex args" and ?n = "length (ae_Entries args)"
  have ld: "leading ids s i r" using n True by (simp add: node_ok_def)
  consider "rn_currentTerm r < ar_Term reply" | "\<not> rn_currentTerm r < ar_Term reply" "ar_Success reply"
    | "\<not> rn_currentTerm r < ar_Term reply" "\<not> ar_Success reply" by blast
  then show ?thesis
  proof cases
    case 1
    then show ?thesis using becomeFollower_ok [OF inv(1,2) n 1] True by (auto simp: append_reply_def)
  next
    case 2
    let ?r = "r\<lparr>rn_nextIndex := (rn_nextIndex r)(p := ?prev + ?n + 1), rn_matchIndex := (rn_matchIndex r)(p := ?prev + ?n)\<rparr>"
    have "?prev + ?n < length (rn_log r)" using a(1) ld True by (simp add: append_ok_def leading_def)
    then have "leading ids s i ?r" using ld a(3) [OF 2(2)] True by (simp add: leading_def)
    then have n': "node_ok ids s fin i ?r" using n True by (simp add: node_ok_def same_node_def)
    have "length (rn_log ?r) - 1 < length (rn_log ?r)" using node_commit_bound(1) [OF inv(1,2) n] by simp
    then have "\<exists>r' s'. checkAdvanceCommitIndex ?r = Some r' \<and> reaches ids s fin i r' [] s'"
      using advance_ok [OF inv n'] True unfolding checkAdvanceCommitIndex_def by simp
    then show ?thesis using 2 True by (simp add: append_reply_def)
  next
    case 3
    let ?r = "if 1 < rn_nextIndex r p then r\<lparr>rn_nextIndex := (rn_nextIndex r)(p := rn_nextIndex r p - 1)\<rparr> else r"
    have "rn_nextIndex r p - 1 \<le> length (rn_log r)" using ld a(2) by (auto simp: leading_def intro: le_trans [OF diff_le_self])
    then have "leading ids s i ?r" using ld by (auto simp: leading_def)
    then have "node_ok ids s fin i ?r" using n True by (simp add: node_ok_def same_node_def)
    from reaches_stay [OF this] show ?thesis using 3 True by (auto simp: append_reply_def)
  qed
qed


subsection \<open>Clients and timers\<close>

lemma Submit_ok:
  assumes inv: "core_inv ids s" "i \<in> ids" and n: "node_ok ids s fin i r"
  shows "\<exists>r' calls index t isLeader s'. Submit key val tomb r = Some (r', calls, index, t, isLeader)
    \<and> reaches ids s fin i r' calls s'"
proof (cases "rn_role r = Leader")
  case False
  then show ?thesis using reaches_stay [OF n] by (auto simp: Submit_def)
next
  case True
  let ?t = "rn_currentTerm r"
  define x where "x = \<lparr>rl_Index = length (rn_log r), rl_Term = ?t, rl_Key = key, rl_Value = val, rl_Tombstone = tomb\<rparr>"
  define r1 where "r1 = r\<lparr>rn_log := rn_log r @ [x]\<rparr>"
  define s' where "s' = s\<lparr>c_log := (c_log s)(i := c_log s i @ [x]), c_llog := (c_llog s)(?t := c_log s i @ [x])\<rparr>"
  have ld: "leading ids s i r" and sn: "same_node s i r" using n True by (simp_all add: node_ok_def)
  have step: "core_step ids s s'"
    unfolding s'_def using inv(2) ld sn by (intro extend) (simp_all add: leading_def same_node_def x_def)
  have "frame i s s'" using step_ext [OF step inv(1)] ld by (auto simp: frame_def s'_def leading_def)
  moreover have "applied (rn_log r @ [x]) (rn_commitIndex r) = applied (rn_log r) (rn_commitIndex r)"
    using node_commit_bound(1) [OF inv n] by (intro applied_agree agree_append_left) simp
  moreover have "leading ids s' i r1"
    using ld sn by (auto simp: leading_def same_node_def s'_def r1_def intro: le_SucI)
  ultimately have "reaches ids s fin i r1 [] s'"
    using step n True by (intro reaches_step) (simp_all add: node_ok_def same_node_def s'_def r1_def)
  from broadcast_reaches [OF inv this] obtain calls where
    "broadcastHeartbeats r1 = Some calls" "reaches ids s fin i r1 calls s'" by blast
  then show ?thesis using True by (auto simp: Submit_def Let_def r1_def x_def)
qed

lemma election_tick_ok:
  assumes "core_inv ids s" "i \<in> ids" "0 \<le> i" "finite ids" "node_ok ids s fin i r"
  shows "\<exists>r' calls s'. election_tick expired r = Some (r', calls) \<and> reaches ids s fin i r' calls s'"
  using startElection_ok [OF assms] reaches_stay [OF assms(5)] by (auto simp: election_tick_def)

lemma heartbeat_tick_ok:
  assumes "core_inv ids s" "i \<in> ids" "node_ok ids s fin i r"
  shows "\<exists>calls. heartbeat_tick r = Some calls \<and> reaches ids s fin i r calls s"
  using broadcast_reaches [OF assms(1,2) reaches_stay [OF assms(3)]] reaches_stay [OF assms(3)]
  by (auto simp: heartbeat_tick_def)

lemma Kill_ok: "node_ok ids s fin i r \<Longrightarrow> reaches ids s fin i (Kill r) [] s"
  by (rule reaches_stay) (simp add: node_ok_def same_node_def Kill_def standing_def leading_def)

section \<open>The group refines the protocol\<close>

lemma sim_update:
  assumes sm: "sim ids c s" and i: "i \<in> ids" and fin: "set (cl_finished c) \<subseteq> set fs"
    and re: "reaches ids s (set fs) i r calls s'" and pk: "\<forall>pk \<in> set pks. packet_ok ids s' pk"
    and c': "c' = c\<lparr>cl_nodes := (cl_nodes c)(i := r), cl_net := cl_net c @ pks, cl_finished := fs\<rparr>"
  shows "sim ids c' s'"
proof -
  have f: "finite ids" and f': "\<forall>i \<in> ids. 0 \<le> i" "core_inv ids s"
    "\<forall>i a. mn_nodes (cl_mock c) i = Some (Some a) \<longrightarrow> a = i"
    using sm unfolding sim_def by blast+
  have fr: "frame i s s'" and n: "node_ok ids s' (set fs) i r" using re by (simp_all add: reaches_def)
  have "node_ok ids s' (set fs) j (cl_nodes c' j)" if "j \<in> ids" for j
    using n frame_node_ok [OF fr _ f fin, of j] sm that by (cases "j = i") (simp_all add: c' sim_def)
  moreover have "packet_ok ids s' p" if "p \<in> set (cl_net c')" for p
    using that pk sm ext_packet_ok [of s s' ids p] fr by (auto simp: c' sim_def frame_def)
  ultimately show ?thesis
    using f f' reaches_inv [OF re f'(2)] by (simp add: sim_def c')
qed

lemma sim_leave:
  assumes "sim ids c s" "i \<in> ids" "reaches ids s (set (cl_finished c)) i r calls s'"
  shows "sim ids (leave i (r, calls) c) s'"
  by (rule sim_update [OF assms(1,2) _ assms(3), of "map (request i) calls"])
    (use assms(3) in \<open>auto simp: leave_def reaches_def\<close>)

lemma deliver_vote:
  assumes sm: "sim ids c s" and p: "packet_ok ids s (VoteReq i q args)"
  shows "\<exists>c' s'. deliver (VoteReq i q args) c = Some c' \<and> (core_step ids)\<^sup>*\<^sup>* s s' \<and> sim ids c' s'"
proof (cases "mn_nodes (cl_mock c) q = Some (Some q)")
  case False
  then have "SendRequestVote (cl_mock c) (cl_nodes c) q args = Some (cl_nodes c, \<lparr>vr_Term = 0, vr_VoteGranted = False\<rparr>, False)"
    using sm by (auto simp: SendRequestVote_def sim_def split: option.splits)
  then show ?thesis using sm by auto
next
  case True
  have pk: "i \<in> ids" "q \<in> ids" "i \<noteq> q" "vote_ok s i args" using p by auto
  have sm': "core_inv ids s" "node_ok ids s (set (cl_finished c)) q (cl_nodes c q)" "\<forall>i \<in> ids. 0 \<le> i"
    using sm pk(2) by (auto simp: sim_def)
  obtain r reply s' where r: "RequestVote args (cl_nodes c q) = Some (r, reply)"
    "reaches ids s (set (cl_finished c)) q r [] s'" "vr_VoteGranted reply \<longrightarrow> c_vote s' q (rv_Term args) = Some i"
    using RequestVote_ok [OF sm'(1) pk(2) sm'(2) pk(4,1,3) sm'(3)] by blast
  let ?c = "c\<lparr>cl_nodes := (cl_nodes c)(q := r), cl_net := cl_net c @ [VoteRep i q args reply]\<rparr>"
  have "sim ids ?c s'"
    by (rule sim_update [OF sm pk(2) _ r(2), of "[VoteRep i q args reply]"]) (use pk r(3) in auto)
  moreover have "deliver (VoteReq i q args) c = Some ?c" using r(1) True by (simp add: SendRequestVote_def)
  ultimately show ?thesis using r(2) unfolding reaches_def by blast
qed

lemma deliver_append:
  assumes sm: "sim ids c s" and p: "packet_ok ids s (AppReq i q args)"
  shows "\<exists>c' s'. deliver (AppReq i q args) c = Some c' \<and> (core_step ids)\<^sup>*\<^sup>* s s' \<and> sim ids c' s'"
proof (cases "mn_nodes (cl_mock c) q = Some (Some q)")
  case False
  then have "SendAppendEntries (cl_mock c) (cl_nodes c) q args = Some (cl_nodes c, \<lparr>ar_Term = 0, ar_Success = False\<rparr>, False)"
    using sm by (auto simp: SendAppendEntries_def sim_def split: option.splits)
  then show ?thesis using sm by auto
next
  case True
  have pk: "i \<in> ids" "q \<in> ids" "i \<noteq> q" "append_ok s i args" using p by auto
  have sm': "core_inv ids s" "node_ok ids s (set (cl_finished c)) q (cl_nodes c q)"
    using sm pk(2) by (auto simp: sim_def)
  obtain r reply s' where r: "AppendEntries args (cl_nodes c q) = Some (r, reply)"
    "reaches ids s (set (cl_finished c)) q r [] s'"
    "ar_Success reply \<longrightarrow> (q, ae_Term args, ae_PrevLogIndex args + length (ae_Entries args)) \<in> c_acks s'"
    using AppendEntries_ok [OF sm'(1) pk(2) sm'(2) pk(4,3)] by blast
  have "append_ok s' i args" using ext_append_ok [OF _ pk(4)] r(2) by (simp add: reaches_def frame_def)
  let ?c = "c\<lparr>cl_nodes := (cl_nodes c)(q := r), cl_net := cl_net c @ [AppRep i q args reply]\<rparr>"
  have "sim ids ?c s'"
    by (rule sim_update [OF sm pk(2) _ r(2), of "[AppRep i q args reply]"]) (use pk r(3) \<open>append_ok s' i args\<close> in auto)
  moreover have "deliver (AppReq i q args) c = Some ?c" using r(1) True by (simp add: SendAppendEntries_def)
  ultimately show ?thesis using r(2) unfolding reaches_def by blast
qed

lemma deliver_sim:
  assumes sm: "sim ids c s" and p: "packet_ok ids s pk"
  shows "\<exists>c' s'. deliver pk c = Some c' \<and> (core_step ids)\<^sup>*\<^sup>* s s' \<and> sim ids c' s'"
proof (cases pk)
  case (VoteReq i q args)
  then show ?thesis using deliver_vote [OF sm] p by simp
next
  case (AppReq i q args)
  then show ?thesis using deliver_append [OF sm] p by simp
next
  case (VoteRep i q args reply)
  have pk: "i \<in> ids" "q \<in> ids - {i}" "vr_VoteGranted reply \<Longrightarrow> c_vote s q (rv_Term args) = Some i"
    using p VoteRep by auto
  have sm': "core_inv ids s" "node_ok ids s (set (cl_finished c)) i (cl_nodes c i)" "0 \<le> i" "finite ids"
    using sm pk(1) by (auto simp: sim_def)
  show ?thesis
  proof (cases "(i, rv_Term args, q) \<in> set (cl_finished c)")
    case True
    then show ?thesis using sm VoteRep by auto
  next
    case False
    let ?fs = "(i, rv_Term args, q) # cl_finished c"
    obtain r calls s' where r: "vote_reply (rv_Term args) reply (cl_nodes c i) = Some (r, calls)"
      "reaches ids s (set ?fs) i r calls s'"
      using vote_reply_ok [OF sm'(1) pk(1) sm'(3,4,2) pk(2) False, of reply] pk(3) by auto
    have "sim ids (leave i (r, calls) (c\<lparr>cl_finished := ?fs\<rparr>)) s'"
      by (rule sim_update [OF sm pk(1) _ r(2), of "map (request i) calls"])
        (use r(2) in \<open>auto simp: leave_def reaches_def\<close>)
    then show ?thesis using VoteRep False r unfolding reaches_def by auto
  qed
next
  case (AppRep i q args reply)
  have pk: "i \<in> ids" "q \<in> ids - {i}" "append_ok s i args"
    "ar_Success reply \<Longrightarrow> (q, ae_Term args, ae_PrevLogIndex args + length (ae_Entries args)) \<in> c_acks s"
    using p AppRep by auto
  have sm': "core_inv ids s" "node_ok ids s (set (cl_finished c)) i (cl_nodes c i)" "finite ids"
    using sm pk(1) by (auto simp: sim_def)
  obtain r s' where "append_reply (ae_Term args) q (ae_PrevLogIndex args) (length (ae_Entries args)) reply (cl_nodes c i) = Some r"
    "reaches ids s (set (cl_finished c)) i r [] s'"
    using append_reply_ok [OF sm'(1) pk(1) sm'(3,2) pk(3,2), of reply] pk(4) by blast
  then show ?thesis using AppRep sim_leave [OF sm pk(1)] unfolding reaches_def by fastforce
qed

lemma happen_sim:
  assumes sm: "sim ids c s" and e: "set (concerns e) \<subseteq> ids"
  shows "\<exists>c' s'. happen e c = Some c' \<and> (core_step ids)\<^sup>*\<^sup>* s s' \<and> sim ids c' s'"
proof -
  have inv: "core_inv ids s" "finite ids" using sm by (auto simp: sim_def)
  have n: "node_ok ids s (set (cl_finished c)) i (cl_nodes c i)" "0 \<le> i" if "i \<in> ids" for i
    using sm that by (auto simp: sim_def)
  have fin: ?thesis if "happen e c = Some (leave i (r, calls) c)" "i \<in> ids"
    "reaches ids s (set (cl_finished c)) i r calls s'" for i r calls s'
    using that sim_leave [OF sm that(2,3)] unfolding reaches_def by blast
  show ?thesis
  proof (cases e)
    case (Tick i expired)
    then have i: "i \<in> ids" using e by simp
    obtain r calls s' where "election_tick expired (cl_nodes c i) = Some (r, calls)"
      "reaches ids s (set (cl_finished c)) i r calls s'"
      using election_tick_ok [OF inv(1) i n(2) [OF i] inv(2) n(1) [OF i]] by blast
    then show ?thesis using fin [OF _ i] Tick by simp
  next
    case (Beat i)
    then have i: "i \<in> ids" using e by simp
    obtain calls where "heartbeat_tick (cl_nodes c i) = Some calls"
      "reaches ids s (set (cl_finished c)) i (cl_nodes c i) calls s"
      using heartbeat_tick_ok [OF inv(1) i n(1) [OF i]] by blast
    then show ?thesis using fin [OF _ i] Beat by simp
  next
    case (Client i key val tomb)
    then have i: "i \<in> ids" using e by simp
    obtain r calls x t b s' where "Submit key val tomb (cl_nodes c i) = Some (r, calls, x, t, b)"
      "reaches ids s (set (cl_finished c)) i r calls s'"
      using Submit_ok [OF inv(1) i n(1) [OF i]] by blast
    then show ?thesis using fin [OF _ i] Client by simp
  next
    case (Shutdown i)
    then have i: "i \<in> ids" using e by simp
    show ?thesis using fin [OF _ i Kill_ok [OF n(1) [OF i]]] Shutdown by simp
  next
    case (Register i)
    have "sim ids (c\<lparr>cl_mock := RegisterNode i (Some i) (cl_mock c)\<rparr>) s"
      using sm by (auto simp: sim_def RegisterNode_def)
    then show ?thesis using Register by auto
  next
    case (Deliver m)
    then show ?thesis using deliver_sim [OF sm, of "cl_net c ! m"] sm by (auto simp: sim_def)
  qed
qed

lemma run_sim:
  assumes "sim ids c s" "events_of ns es" "set ns \<subseteq> ids"
  shows "\<exists>c' s'. run es c = Some c' \<and> (core_step ids)\<^sup>*\<^sup>* s s' \<and> sim ids c' s'"
  using assms
proof (induction es arbitrary: c s)
  case (Cons e es)
  have "set (concerns e) \<subseteq> ids" "events_of ns es" using Cons.prems(2,3) by (auto simp: events_of_def)
  then obtain c' s' where 1: "happen e c = Some c'" "(core_step ids)\<^sup>*\<^sup>* s s'" "sim ids c' s'"
    using happen_sim [OF Cons.prems(1)] by blast
  then obtain c'' s'' where "run es c' = Some c''" "(core_step ids)\<^sup>*\<^sup>* s' s''" "sim ids c'' s''"
    using Cons.IH [OF 1(3) \<open>events_of ns es\<close> Cons.prems(3)] by blast
  then show ?case using 1 rtranclp_trans [of "core_step ids" s s' s''] by auto
qed auto

lemma boot_sim:
  assumes "numbering ns"
  shows "sim (set ns) (boot ns) core_init"
  using assms init_inv [of "set ns"]
  by (auto simp: sim_def boot_def numbering_def node_ok_def same_node_def core_init_def NewRaftNode_def
      NewMockNetwork_def applied_def)

lemma run_append: "run (es @ fs) c = (case run es c of None \<Rightarrow> None | Some d \<Rightarrow> run fs d)"
  by (induction es arbitrary: c) (auto split: option.splits)

text \<open>A run from the start, and a later one.\<close>

lemma reached:
  assumes "numbering ns" "events_of ns es" "run es (boot ns) = Some c"
  shows "\<exists>s. sim (set ns) c s"
  using run_sim [OF boot_sim [OF assms(1)] assms(2) order_refl] assms(3) by auto

lemma reached_later:
  assumes "numbering ns" "events_of ns es" "run es (boot ns) = Some c" "events_of ns fs" "run fs c = Some d"
  shows "\<exists>s s'. sim (set ns) c s \<and> sim (set ns) d s' \<and> ext s s'"
proof -
  obtain s where s: "sim (set ns) c s" using reached [OF assms(1-3)] by blast
  then obtain s' where "(core_step (set ns))\<^sup>*\<^sup>* s s'" "sim (set ns) d s'"
    using run_sim [OF s assms(4) order_refl] assms(5) by auto
  then show ?thesis using s steps_ext [of "set ns" s s'] by (auto simp: sim_def)
qed

end
