(* ===== verification/Radiance_Safety.thy ===== *)
theory Radiance_Safety
  imports Radiance_Cluster
begin

text \<open>
  What the refinement of \<open>Radiance_Cluster\<close> gives for the nodes themselves: one leader per term,
  logs that match, leaders that have what is committed, equal sequences of applied commands, no
  panics, and followers that catch up. Then what happens in a group of one, which is what the
  daemon starts, and when a node restarts.
\<close>

section \<open>Safety of the group\<close>

definition leads :: "cluster \<Rightarrow> nat \<Rightarrow> int \<Rightarrow> bool" where
  "leads c t i \<longleftrightarrow> rn_role (cl_nodes c i) = Leader \<and> rn_currentTerm (cl_nodes c i) = t"

lemma sim_node:
  assumes "sim ids c s" "i \<in> ids"
  shows "core_inv ids s" "node_ok ids s (set (cl_finished c)) i (cl_nodes c i)" "same_node s i (cl_nodes c i)"
  using assms by (auto simp: sim_def node_ok_def)

lemma sim_leads:
  assumes "sim ids c s" "i \<in> ids" "leads c t i"
  shows "c_lead s t = Some i" "c_llog s t = rn_log (cl_nodes c i)"
  using sim_node(2) [OF assms(1,2)] assms(3) unfolding node_ok_def leading_def leads_def by auto

lemma sim_covered:
  assumes "sim ids c s" "i \<in> ids"
  shows "covered ids s (rn_log (cl_nodes c i)) (rn_commitIndex (cl_nodes c i)) (rn_currentTerm (cl_nodes c i))"
    "wf_log s (rn_log (cl_nodes c i))"
    "rn_applyCh (cl_nodes c i) = Some (applied (rn_log (cl_nodes c i)) (rn_commitIndex (cl_nodes c i)))"
  using sim_node [OF assms] assms(2) node_commit_bound(2) [OF sim_node(1) [OF assms] assms(2) sim_node(2) [OF assms]]
  unfolding core_inv_def inv_commit_def node_ok_def same_node_def by auto

lemma later_covered:
  assumes "sim ids c s" "i \<in> ids" "ext s s'"
  shows "covered ids s' (rn_log (cl_nodes c i)) (rn_commitIndex (cl_nodes c i)) (rn_currentTerm (cl_nodes c i))"
    "wf_log s' (rn_log (cl_nodes c i))"
  using ext_covered [OF assms(3) sim_covered(1) [OF assms(1,2)] order_refl, of "[]"]
    ext_wf_log [OF assms(3) sim_covered(2) [OF assms(1,2)]] by simp_all

text \<open>
  A run in which node 1 is elected by node 2, writes an entry, commits it and tells node 2; node 3
  hears of nothing.
\<close>

definition meeting :: "event list" where
  "meeting = [Register 1, Register 2, Register 3, Tick 1 True, Deliver 0, Deliver 2]"

definition writing :: "event list" where
  "writing = [Client 1 [107] [118] False, Deliver 5, Deliver 7, Beat 1, Deliver 8]"

definition msg :: ApplyMsg where
  "msg = \<lparr>am_CommandValid = True, am_CommandIndex = 1, am_CommandTerm = 1, am_Key = [107], am_Value = [118], am_Tombstone = False\<rparr>"

lemma group_of_three: "numbering [1, 2, 3]" "events_of [1, 2, 3] meeting" "events_of [1, 2, 3] writing"
  "events_of [1, 2, 3] (meeting @ writing)" "events_of [1, 2, 3] []"
  by (simp_all add: numbering_def events_of_def meeting_def writing_def)

lemma meeting_run:
  "\<exists>c. run meeting (boot [1, 2, 3]) = Some c \<and> leads c 1 1
    \<and> map (\<lambda>i. (rn_role (cl_nodes c i), rn_currentTerm (cl_nodes c i))) [2, 3] = [(Follower, 1), (Follower, 0)]"
proof -
  have "map_option (\<lambda>c. map (\<lambda>i. (rn_role (cl_nodes c i), rn_currentTerm (cl_nodes c i))) [1, 2, 3])
     (run meeting (boot [1, 2, 3])) = Some [(Leader, 1), (Follower, 1), (Follower, 0)]"
    by code_simp
  then show ?thesis by (auto simp: leads_def)
qed

lemma writing_run:
  "\<exists>c d. run meeting (boot [1, 2, 3]) = Some c \<and> run writing c = Some d \<and> leads c 1 1 \<and> leads d 1 1
    \<and> map (\<lambda>i. (rn_commitIndex (cl_nodes d i), rn_applyCh (cl_nodes d i))) [1, 2, 3]
       = [(1, Some [msg]), (1, Some [msg]), (0, Some [])]"
proof -
  have "map_option (\<lambda>c. (rn_role (cl_nodes c 1), rn_currentTerm (cl_nodes c 1),
        map (\<lambda>i. (rn_commitIndex (cl_nodes c i), rn_applyCh (cl_nodes c i))) [1, 2, 3]))
     (run (meeting @ writing) (boot [1, 2, 3])) = Some (Leader, 1, [(1, Some [msg]), (1, Some [msg]), (0, Some [])])"
    by code_simp
  moreover obtain c where "run meeting (boot [1, 2, 3]) = Some c" "leads c 1 1" using meeting_run by blast
  ultimately show ?thesis by (auto simp: run_append leads_def split: option.splits)
qed

text \<open>
  C15: Whatever happens in a group of nodes -- timeouts, heartbeats, client requests, shutdowns, and
  messages delayed, lost, reordered or repeated -- no handler ever panics.
\<close>

theorem group_never_panics:
  assumes "numbering ns" "events_of ns es"
  shows "\<exists>c. run es (boot ns) = Some c"
  using run_sim [OF boot_sim [OF assms(1)] assms(2) order_refl] by blast

theorem group_never_panics_witness: "\<exists>c. run (meeting @ writing) (boot [1, 2, 3]) = Some c"
  using group_never_panics [OF group_of_three(1,4)] .

text \<open>
  C14: Every run of the nodes is a run of the abstract consensus protocol, whose state the nodes'
  terms, votes, logs and commit indexes are.
\<close>

theorem group_refines_protocol:
  assumes "numbering ns" "events_of ns es"
  shows "\<exists>c s. run es (boot ns) = Some c \<and> (core_step (set ns))\<^sup>*\<^sup>* core_init s
    \<and> (\<forall>i \<in> set ns. c_term s i = rn_currentTerm (cl_nodes c i) \<and> c_log s i = rn_log (cl_nodes c i)
         \<and> c_commit s i = rn_commitIndex (cl_nodes c i)
         \<and> c_vote s i (rn_currentTerm (cl_nodes c i))
            = (if rn_votedFor (cl_nodes c i) = -1 then None else Some (rn_votedFor (cl_nodes c i))))"
proof -
  obtain c s where "run es (boot ns) = Some c" "(core_step (set ns))\<^sup>*\<^sup>* core_init s" "sim (set ns) c s"
    using run_sim [OF boot_sim [OF assms(1)] assms(2) order_refl] by blast
  then show ?thesis using sim_node(3) [of "set ns" c s] unfolding same_node_def by blast
qed

theorem group_refines_protocol_witness:
  "\<exists>c s. run meeting (boot [1, 2, 3]) = Some c \<and> (core_step {1, 2, 3})\<^sup>*\<^sup>* core_init s
    \<and> c_term s 2 = 1 \<and> c_term s 2 = rn_currentTerm (cl_nodes c 2)"
proof -
  obtain c s where c: "run meeting (boot [1, 2, 3]) = Some c" "(core_step (set [1, 2, 3]))\<^sup>*\<^sup>* core_init s"
    "c_term s 2 = rn_currentTerm (cl_nodes c 2)"
    using group_refines_protocol [OF group_of_three(1,2)] by auto
  then show ?thesis using meeting_run by auto
qed

text \<open>C7: Election safety. In one term at most one node is ever the leader, at any two times of a run.\<close>

theorem election_safety:
  assumes "numbering ns" "events_of ns es" "run es (boot ns) = Some c" "events_of ns fs" "run fs c = Some d"
  shows "card ({i \<in> set ns. leads c t i} \<union> {i \<in> set ns. leads d t i}) \<le> 1"
proof -
  obtain s s' where s: "sim (set ns) c s" "sim (set ns) d s'" "ext s s'" using reached_later [OF assms] by blast
  let ?S = "{i \<in> set ns. leads c t i} \<union> {i \<in> set ns. leads d t i}"
  have lead: "c_lead s' t = Some i" if "i \<in> ?S" for i
    using that sim_leads(1) [OF s(1)] sim_leads(1) [OF s(2)] s(3) unfolding ext_def by blast
  have "x = y" if "x \<in> ?S" "y \<in> ?S" for x y
    using lead [OF that(1)] lead [OF that(2)] by simp
  moreover have "finite ?S" by simp
  ultimately show ?thesis using card_le_Suc0_iff_eq [of ?S] unfolding One_nat_def by blast
qed

theorem election_safety_witness:
  "\<exists>c d. run meeting (boot [1, 2, 3]) = Some c \<and> run writing c = Some d \<and> leads c 1 1 \<and> leads d 1 1
    \<and> card ({i \<in> set [1, 2, 3]. leads c 1 i} \<union> {i \<in> set [1, 2, 3]. leads d 1 i}) \<le> 1"
proof -
  obtain c d where "run meeting (boot [1, 2, 3]) = Some c" "run writing c = Some d" "leads c 1 1" "leads d 1 1"
    using writing_run by blast
  then show ?thesis using election_safety [OF group_of_three(1,2) _ group_of_three(3)] by blast
qed

text \<open>
  C13: Log matching. If the logs of two nodes, at any two times, have entries of the same term at an
  index, they are the same up to and including that index.
\<close>

theorem logs_match:
  assumes "numbering ns" "events_of ns es" "run es (boot ns) = Some c" "events_of ns fs" "run fs c = Some d"
    and "i \<in> set ns" "j \<in> set ns"
    and "k < length (rn_log (cl_nodes c i))" "k < length (rn_log (cl_nodes d j))"
    and "rl_Term (rn_log (cl_nodes c i) ! k) = rl_Term (rn_log (cl_nodes d j) ! k)"
  shows "take (Suc k) (rn_log (cl_nodes c i)) = take (Suc k) (rn_log (cl_nodes d j))"
proof -
  obtain s s' where s: "sim (set ns) c s" "sim (set ns) d s'" "ext s s'" using reached_later [OF assms(1-5)] by blast
  show ?thesis
    using log_matching [OF later_covered(2) [OF s(1) assms(6) s(3)] sim_covered(2) [OF s(2) assms(7)] assms(8-10)]
    by (simp add: agree_def)
qed

lemma writing_logs:
  "\<exists>c d. run meeting (boot [1, 2, 3]) = Some c \<and> run writing c = Some d
    \<and> map (\<lambda>i. map rl_Term (rn_log (cl_nodes d i))) [1, 2, 3] = [[0, 1], [0, 1], [0]]"
proof -
  have "map_option (\<lambda>c. map (\<lambda>i. map rl_Term (rn_log (cl_nodes c i))) [1, 2, 3])
     (run (meeting @ writing) (boot [1, 2, 3])) = Some [[0, 1], [0, 1], [0]]"
    by code_simp
  moreover obtain c where "run meeting (boot [1, 2, 3]) = Some c" using meeting_run by blast
  ultimately show ?thesis by (auto simp: run_append split: option.splits)
qed

lemma terms_nth: "map rl_Term L = [0, t] \<Longrightarrow> 1 < length L \<and> rl_Term (L ! 1) = t"
  by (cases L; cases "tl L") auto

theorem logs_match_witness:
  "\<exists>d. run (meeting @ writing) (boot [1, 2, 3]) = Some d
    \<and> take (Suc 1) (rn_log (cl_nodes d 1)) = take (Suc 1) (rn_log (cl_nodes d 2))"
proof -
  obtain c d where d: "run meeting (boot [1, 2, 3]) = Some c" "run writing c = Some d"
    "map rl_Term (rn_log (cl_nodes d 1)) = [0, 1]" "map rl_Term (rn_log (cl_nodes d 2)) = [0, 1]"
    using writing_logs by auto
  have r: "run (meeting @ writing) (boot [1, 2, 3]) = Some d" using d(1,2) by (simp add: run_append)
  then show ?thesis
    using logs_match [OF group_of_three(1,4) r group_of_three(5), of d 1 2 1] terms_nth [OF d(3)] terms_nth [OF d(4)]
    by simp
qed

text \<open>
  C6: Leader completeness. Once a node has committed an entry, every leader of the same or a later
  term has that entry and all before it.
\<close>

theorem leaders_have_committed:
  assumes "numbering ns" "events_of ns es" "run es (boot ns) = Some c" "events_of ns fs" "run fs c = Some d"
    and "i \<in> set ns" "j \<in> set ns" and "k \<le> rn_commitIndex (cl_nodes c i)"
    and "leads d t j" "rn_currentTerm (cl_nodes c i) \<le> t"
  shows "k < length (rn_log (cl_nodes d j))
    \<and> take (Suc k) (rn_log (cl_nodes d j)) = take (Suc k) (rn_log (cl_nodes c i))"
proof -
  obtain s s' where s: "sim (set ns) c s" "sim (set ns) d s'" "ext s s'" using reached_later [OF assms(1-5)] by blast
  note l = sim_leads [OF s(2) assms(7,9)]
  have "agree (c_llog s' t) (rn_log (cl_nodes c i)) (rn_commitIndex (cl_nodes c i))"
    using covered_agree [OF sim_node(1) [OF s(2) assms(7)] later_covered(1) [OF s(1) assms(6) s(3)] _ assms(10)
        later_covered(2) [OF s(1) assms(6) s(3)]] l(1) by simp
  then show ?thesis using agree_mono [OF _ assms(8)] l(2) by (auto simp: agree_def)
qed

theorem leaders_have_committed_witness:
  "\<exists>d. run (meeting @ writing) (boot [1, 2, 3]) = Some d \<and> rn_commitIndex (cl_nodes d 2) = 1
    \<and> 1 < length (rn_log (cl_nodes d 1)) \<and> take (Suc 1) (rn_log (cl_nodes d 1)) = take (Suc 1) (rn_log (cl_nodes d 2))"
proof -
  obtain c d where d: "run meeting (boot [1, 2, 3]) = Some c" "run writing c = Some d" "leads d 1 1"
    "rn_commitIndex (cl_nodes d 2) = 1" using writing_run by auto
  have r: "run (meeting @ writing) (boot [1, 2, 3]) = Some d" using d(1,2) by (simp add: run_append)
  obtain e where "run (meeting @ writing) (boot [1, 2, 3]) = Some e" "rn_currentTerm (cl_nodes e 2) = 1"
  proof -
    have "map_option (\<lambda>c. rn_currentTerm (cl_nodes c 2)) (run (meeting @ writing) (boot [1, 2, 3])) = Some 1"
      by code_simp
    then show ?thesis using that by auto
  qed
  then have "rn_currentTerm (cl_nodes d 2) = 1" using r by simp
  then show ?thesis
    using leaders_have_committed [OF group_of_three(1,4) r group_of_three(5), of d 2 1 1 1] r d(3,4) by simp
qed

lemma applied_prefix:
  assumes "agree L G k" "k \<le> l"
  shows "prefix (applied L k) (applied G l)"
  using applied_agree [OF assms(1)] applied_grow [OF assms(2), of G] unfolding prefix_def by metis

lemma applied_comparable:
  assumes "numbering ns" "events_of ns es" "run es (boot ns) = Some c" "events_of ns fs" "run fs c = Some d"
    and "i \<in> set ns" "j \<in> set ns" and "rn_applyCh (cl_nodes c i) = Some xs" "rn_applyCh (cl_nodes d j) = Some ys"
  shows "prefix xs ys \<or> prefix ys xs"
proof -
  obtain s s' where s: "sim (set ns) c s" "sim (set ns) d s'" "ext s s'" using reached_later [OF assms(1-5)] by blast
  let ?L = "rn_log (cl_nodes c i)" and ?G = "rn_log (cl_nodes d j)"
  let ?k = "rn_commitIndex (cl_nodes c i)" and ?l = "rn_commitIndex (cl_nodes d j)"
  have xs: "xs = applied ?L ?k" "ys = applied ?G ?l"
    using sim_covered(3) [OF s(1) assms(6)] sim_covered(3) [OF s(2) assms(7)] assms(8,9) by simp_all
  note common = covered_common [OF sim_node(1) [OF s(2) assms(7)] later_covered(2) [OF s(1) assms(6) s(3)]
      sim_covered(2) [OF s(2) assms(7)] later_covered(1) [OF s(1) assms(6) s(3)] sim_covered(1) [OF s(2) assms(7)]]
  show ?thesis
  proof (cases "?k \<le> ?l")
    case True
    then show ?thesis using applied_prefix [OF common] xs by blast
  next
    case False
    then show ?thesis using applied_prefix [OF agree_sym [OF common]] xs by (meson nat_le_linear order_refl)
  qed
qed

text \<open>
  C5: State machine safety. What two nodes have sent to their apply channels, at any two times, is
  the same sequence as far as both have got.
\<close>

theorem state_machine_safety:
  assumes "numbering ns" "events_of ns es" "run es (boot ns) = Some c" "events_of ns fs" "run fs c = Some d"
    and "i \<in> set ns" "j \<in> set ns" and "rn_applyCh (cl_nodes c i) = Some xs" "rn_applyCh (cl_nodes d j) = Some ys"
  shows "prefix xs ys \<or> prefix ys xs"
  using assms by (rule applied_comparable)

theorem state_machine_safety_witness:
  "\<exists>d. run (meeting @ writing) (boot [1, 2, 3]) = Some d \<and> rn_applyCh (cl_nodes d 1) = Some [msg]
    \<and> rn_applyCh (cl_nodes d 3) = Some [] \<and> (prefix [msg] [] \<or> prefix [] [msg])"
proof -
  obtain c d where d: "run meeting (boot [1, 2, 3]) = Some c" "run writing c = Some d"
    "rn_applyCh (cl_nodes d 1) = Some [msg]" "rn_applyCh (cl_nodes d 3) = Some []" using writing_run by auto
  have r: "run (meeting @ writing) (boot [1, 2, 3]) = Some d" using d(1,2) by (simp add: run_append)
  then show ?thesis
    using state_machine_safety [OF group_of_three(1,4) r group_of_three(5) _ _ _ d(3,4)] d(3,4) by auto
qed

lemma Submit_accepted:
  assumes "Submit key val tomb r = Some (r', calls, index, t, True)"
  shows "rn_role r = Leader" "index = int (length (rn_log r))" "t = int (rn_currentTerm r)"
    "rn_log r' = rn_log r @ [\<lparr>rl_Index = length (rn_log r), rl_Term = rn_currentTerm r, rl_Key = key,
      rl_Value = val, rl_Tombstone = tomb\<rparr>]"
  using assms by (auto simp: Submit_def Let_def split: if_splits)

text \<open>
  C17: When a leader has accepted a client's command under an index and a term, every log that later
  holds an entry of that term at that index holds the client's command there.
\<close>

theorem accepted_command_is_kept:
  assumes "numbering ns" "events_of ns es" "run es (boot ns) = Some c" "i \<in> set ns" "j \<in> set ns"
    and "Submit key val tomb (cl_nodes c i) = Some (r, calls, index, t, True)"
    and "events_of ns fs" "run (Client i key val tomb # fs) c = Some d"
    and "index < int (length (rn_log (cl_nodes d j)))" "int (rl_Term (rn_log (cl_nodes d j) ! nat index)) = t"
  shows "rn_log (cl_nodes d j) ! nat index
    = \<lparr>rl_Index = nat index, rl_Term = nat t, rl_Key = key, rl_Value = val, rl_Tombstone = tomb\<rparr>"
proof -
  let ?c = "leave i (r, calls) c"
  note sub = Submit_accepted [OF assms(6)]
  have "run (es @ [Client i key val tomb]) (boot ns) = Some ?c" using assms(3,6) by (simp add: run_append)
  moreover have "events_of ns (es @ [Client i key val tomb])" using assms(2,4) by (auto simp: events_of_def)
  moreover have "run fs ?c = Some d" using assms(6,8) by simp
  ultimately obtain s s' where s: "sim (set ns) ?c s" "sim (set ns) d s'" "ext s s'"
    using reached_later [OF assms(1) _ _ assms(7)] by blast
  have log: "rn_log (cl_nodes ?c i) = rn_log r" by (simp add: leave_def)
  have "agree (rn_log r) (rn_log (cl_nodes d j)) (nat index)"
    using log_matching [OF later_covered(2) [OF s(1) assms(4) s(3)] sim_covered(2) [OF s(2) assms(5)], of "nat index"]
      log sub assms(9,10) by auto
  then have "rn_log (cl_nodes d j) ! nat index = rn_log r ! nat index" using agree_nth by force
  then show ?thesis using sub by simp
qed

theorem accepted_command_is_kept_witness:
  "\<exists>d. run (meeting @ writing) (boot [1, 2, 3]) = Some d \<and> rn_log (cl_nodes d 2) ! 1
    = \<lparr>rl_Index = 1, rl_Term = 1, rl_Key = [107], rl_Value = [118], rl_Tombstone = False\<rparr>"
proof -
  obtain c d where d: "run meeting (boot [1, 2, 3]) = Some c" "run writing c = Some d"
    "map rl_Term (rn_log (cl_nodes d 2)) = [0, 1]" using writing_logs by auto
  have "map_option (\<lambda>c. map_option (snd \<circ> snd) (Submit [107] [118] False (cl_nodes c 1))) (run meeting (boot [1, 2, 3]))
      = Some (Some (1, 1, True))" by code_simp
  then obtain r calls where sb: "Submit [107] [118] False (cl_nodes c 1) = Some (r, calls, 1, 1, True)"
    using d(1) by auto
  have "run (Client 1 [107] [118] False # tl writing) c = Some d" using d(2) by (simp add: writing_def)
  moreover have "events_of [1, 2, 3] (tl writing)" by (simp add: writing_def events_of_def)
  ultimately have "rn_log (cl_nodes d 2) ! nat 1
    = \<lparr>rl_Index = nat 1, rl_Term = nat 1, rl_Key = [107], rl_Value = [118], rl_Tombstone = False\<rparr>"
    using accepted_command_is_kept [OF group_of_three(1,2) d(1) _ _ sb, of 2 "tl writing" d] terms_nth [OF d(3)] by simp
  then show ?thesis using d(1,2) by (simp add: run_append)
qed

section \<open>Committing by counting\<close>

definition may_commit :: "RaftNode \<Rightarrow> nat \<Rightarrow> bool" where
  "may_commit r N \<longleftrightarrow> rl_Term (rn_log r ! N) = rn_currentTerm r
     \<and> majorityNeeded r \<le> 1 + length (filter (\<lambda>p. N \<le> rn_matchIndex r p) (rn_peers r))"

definition apply_next :: "RaftNode \<Rightarrow> RaftNode" where
  "apply_next r = r\<lparr>rn_lastApplied := Suc (rn_lastApplied r),
     rn_applyCh := map_option (\<lambda>ch. if 0 < rl_Index (rn_log r ! Suc (rn_lastApplied r))
       then ch @ [apply_msg (rn_log r ! Suc (rn_lastApplied r))] else ch) (rn_applyCh r)\<rparr>"

lemma applyLogs_unfold:
  assumes "rn_lastApplied r < rn_commitIndex r" "applyLogs r = Some r'"
  shows "applyLogs (apply_next r) = Some r'"
proof -
  have same: "r\<lparr>rn_lastApplied := Suc (rn_lastApplied r), rn_applyCh := ch\<rparr>
      = r\<lparr>rn_lastApplied := Suc (rn_lastApplied r)\<rparr>" if "rn_applyCh r = ch" for ch
    using that by (cases r) simp
  show ?thesis
    using assms(2) unfolding applyLogs.simps [of r] apply_next_def
    by (cases "rn_applyCh r") (use assms(1) in \<open>auto simp: Let_def same split: if_splits\<close>)
qed

lemma applyLogs_result:
  "applyLogs r = Some r' \<Longrightarrow> rn_lastApplied r' = max (rn_lastApplied r) (rn_commitIndex r)
     \<and> rn_commitIndex r' = rn_commitIndex r \<and> rn_log r' = rn_log r \<and> rn_role r' = rn_role r
     \<and> rn_currentTerm r' = rn_currentTerm r \<and> rn_killed r' = rn_killed r \<and> rn_nextIndex r' = rn_nextIndex r"
proof (induction "rn_commitIndex r - rn_lastApplied r" arbitrary: r)
  case 0
  then show ?case using applyLogs.simps [of r] by simp
next
  case (Suc d)
  then have "rn_lastApplied r < rn_commitIndex r" by simp
  then show ?case
    using Suc.hyps(1) [of "apply_next r"] Suc.hyps(2) applyLogs_unfold [OF _ Suc.prems] by (simp add: apply_next_def)
qed

lemma advance_from_result:
  assumes "advance_from r n = Some r'"
  shows "r' = r \<and> (\<forall>N. rn_commitIndex r < N \<and> N \<le> n \<longrightarrow> \<not> may_commit r N)
    \<or> (\<exists>N. rn_commitIndex r < N \<and> N \<le> n \<and> may_commit r N \<and> (\<forall>M. N < M \<and> M \<le> n \<longrightarrow> \<not> may_commit r M)
        \<and> rn_commitIndex r' = N \<and> rn_lastApplied r' = max (rn_lastApplied r) N)"
  using assms
proof (induction n)
  case (Suc n)
  consider "\<not> rn_commitIndex r < Suc n" | "rn_commitIndex r < Suc n" "may_commit r (Suc n)"
    | "rn_commitIndex r < Suc n" "\<not> may_commit r (Suc n)" by blast
  then show ?case
  proof cases
    case 1
    then show ?thesis using Suc.prems by auto
  next
    case 2
    then have "applyLogs (r\<lparr>rn_commitIndex := Suc n\<rparr>) = Some r'"
      using Suc.prems by (simp add: may_commit_def Let_def)
    from applyLogs_result [OF this] show ?thesis using 2 by (intro disjI2 exI [of _ "Suc n"]) auto
  next
    case 3
    then have "advance_from r n = Some r'"
      using Suc.prems by (auto simp: may_commit_def Let_def split: if_splits)
    from Suc.IH [OF this] show ?thesis using 3 le_Suc_eq by metis
  qed
qed simp

text \<open>
  C18: \<open>checkAdvanceCommitIndex\<close> moves the commit index to the largest index of an entry of the
  leader's own term that a majority holds, if one is beyond it, and applies up to there; otherwise
  it changes nothing.
\<close>

theorem commit_index_is_largest_counted:
  assumes "checkAdvanceCommitIndex r = Some r'" "rn_log r \<noteq> []"
  shows "r' = r \<and> (\<forall>N. rn_commitIndex r < N \<and> N < length (rn_log r) \<longrightarrow> \<not> may_commit r N)
    \<or> (\<exists>N. rn_commitIndex r < N \<and> N < length (rn_log r) \<and> may_commit r N
        \<and> (\<forall>M. N < M \<and> M < length (rn_log r) \<longrightarrow> \<not> may_commit r M)
        \<and> rn_commitIndex r' = N \<and> rn_lastApplied r' = max (rn_lastApplied r) N)"
proof -
  have "N \<le> length (rn_log r) - 1 \<longleftrightarrow> N < length (rn_log r)" for N
    using assms(2) by (cases "rn_log r") auto
  then show ?thesis
    using advance_from_result [OF assms(1) [unfolded checkAdvanceCommitIndex_def]] by simp
qed

definition counting_leader :: RaftNode where
  "counting_leader = (NewRaftNode 1 [2, 3] (Some []))\<lparr>rn_role := Leader, rn_currentTerm := 2,
     rn_log := [dummy_entry, \<lparr>rl_Index = 1, rl_Term = 1, rl_Key = [1], rl_Value = [], rl_Tombstone = False\<rparr>,
       \<lparr>rl_Index = 2, rl_Term = 2, rl_Key = [2], rl_Value = [], rl_Tombstone = False\<rparr>],
     rn_matchIndex := (\<lambda>p. if p = 2 then 2 else 0)\<rparr>"

theorem commit_index_is_largest_counted_witness:
  "\<exists>r'. checkAdvanceCommitIndex counting_leader = Some r' \<and> rn_log counting_leader \<noteq> []
    \<and> rn_commitIndex r' = 2 \<and> rn_lastApplied r' = 2"
proof -
  have "map_option rn_commitIndex (checkAdvanceCommitIndex counting_leader) = Some 2" by code_simp
  then obtain r' where r: "checkAdvanceCommitIndex counting_leader = Some r'" "rn_commitIndex r' = 2" by auto
  have "rn_log counting_leader \<noteq> []" "rn_commitIndex counting_leader = 0" "rn_lastApplied counting_leader = 0"
    by (simp_all add: counting_leader_def NewRaftNode_def)
  then show ?thesis using commit_index_is_largest_counted [OF r(1)] r by auto
qed

section \<open>A group of one\<close>

text \<open>What the daemon starts: a node without peers.\<close>

definition alone :: "int \<Rightarrow> cluster \<Rightarrow> bool" where
  "alone i c \<longleftrightarrow> cl_net c = [] \<and> rn_peers (cl_nodes c i) = [] \<and> rn_commitIndex (cl_nodes c i) = 0
     \<and> rn_applyCh (cl_nodes c i) = Some [] \<and> rn_log (cl_nodes c i) \<noteq> []"

lemma broadcast_alone: "rn_peers r = [] \<Longrightarrow> broadcastHeartbeats r = Some []"
  by (simp add: broadcastHeartbeats_def)

lemma startElection_alone:
  "rn_peers r = [] \<Longrightarrow> startElection r = Some (r', calls) \<Longrightarrow>
   calls = [] \<and> rn_peers r' = [] \<and> rn_commitIndex r' = rn_commitIndex r \<and> rn_applyCh r' = rn_applyCh r \<and> rn_log r' = rn_log r"
  by (auto simp: startElection_def becomeLeader_def majorityNeeded_def Let_def broadcast_alone split: if_splits)

lemma election_tick_alone:
  "rn_peers r = [] \<Longrightarrow> election_tick b r = Some (r', calls) \<Longrightarrow>
   calls = [] \<and> rn_peers r' = [] \<and> rn_commitIndex r' = rn_commitIndex r \<and> rn_applyCh r' = rn_applyCh r \<and> rn_log r' = rn_log r"
  using startElection_alone [of r r' calls] by (simp add: election_tick_def split: if_splits)

lemma happen_alone:
  assumes a: "alone i c" and e: "set (concerns e) \<subseteq> {i}" and h: "happen e c = Some d"
  shows "alone i d"
proof (cases e)
  case (Tick j b)
  then obtain r calls where r: "election_tick b (cl_nodes c i) = Some (r, calls)" "d = leave i (r, calls) c"
    using e h by auto
  then show ?thesis
    using a election_tick_alone [of "cl_nodes c i" b r calls] by (simp add: alone_def leave_def)
next
  case (Beat j)
  then show ?thesis
    using a e h by (auto simp: alone_def leave_def heartbeat_tick_def broadcast_alone split: if_splits)
next
  case (Client j k v t)
  then show ?thesis
    using a e h by (auto simp: alone_def leave_def Submit_def Let_def broadcast_alone split: if_splits)
qed (use a e h in \<open>auto simp: alone_def leave_def Kill_def\<close>)

lemma run_alone:
  assumes "alone i c" "events_of [i] es" "run es c = Some d"
  shows "alone i d"
  using assms
proof (induction es arbitrary: c)
  case (Cons e es)
  then obtain c' where c': "happen e c = Some c'" "run es c' = Some d" by (auto split: option.splits)
  have "set (concerns e) \<subseteq> {i}" "events_of [i] es" using Cons.prems(2) by (auto simp: events_of_def)
  then show ?case using happen_alone [OF Cons.prems(1) _ c'(1)] Cons.IH [OF _ _ c'(2)] by blast
qed simp

text \<open>
  C19: A node without peers accepts commands and never commits one. At any time of any run, as long
  as it has not been shut down, a timeout makes it the leader unless it leads; and as the leader it
  accepts every command: it puts it at the end of its log and returns its index. But its commit index
  stays 0, and nothing is ever sent to the apply channel.
\<close>

theorem single_node_never_commits:
  assumes "events_of [i] es" "run es (boot [i]) = Some c"
  shows "(\<not> rn_killed (cl_nodes c i) \<longrightarrow> (\<exists>r. election_tick True (cl_nodes c i) = Some (r, []) \<and> rn_role r = Leader))
    \<and> (rn_role (cl_nodes c i) = Leader \<longrightarrow> (\<exists>r. Submit key val tomb (cl_nodes c i)
          = Some (r, [], int (length (rn_log (cl_nodes c i))), int (rn_currentTerm (cl_nodes c i)), True)
        \<and> rn_log r = rn_log (cl_nodes c i) @ [\<lparr>rl_Index = length (rn_log (cl_nodes c i)),
            rl_Term = rn_currentTerm (cl_nodes c i), rl_Key = key, rl_Value = val, rl_Tombstone = tomb\<rparr>]))
    \<and> rn_commitIndex (cl_nodes c i) = 0 \<and> rn_applyCh (cl_nodes c i) = Some []"
proof -
  have "alone i (boot [i])" by (simp add: alone_def boot_def NewRaftNode_def)
  from run_alone [OF this assms] have a: "rn_peers (cl_nodes c i) = []" "rn_log (cl_nodes c i) \<noteq> []"
    "rn_commitIndex (cl_nodes c i) = 0" "rn_applyCh (cl_nodes c i) = Some []" by (simp_all add: alone_def)
  then show ?thesis
    by (auto simp: election_tick_def startElection_def becomeLeader_def majorityNeeded_def Submit_def Let_def broadcast_alone)
qed

theorem single_node_never_commits_witness:
  "\<exists>c. run [Register 1, Tick 1 True, Client 1 [107] [118] False, Beat 1] (boot [1]) = Some c \<and> leads c 1 1
    \<and> length (rn_log (cl_nodes c 1)) = 2 \<and> rn_commitIndex (cl_nodes c 1) = 0 \<and> rn_applyCh (cl_nodes c 1) = Some []"
proof -
  let ?es = "[Register 1, Tick 1 True, Client 1 [107] [118] False, Beat 1]"
  have "map_option (\<lambda>c. (rn_role (cl_nodes c 1), rn_currentTerm (cl_nodes c 1), length (rn_log (cl_nodes c 1))))
      (run ?es (boot [1])) = Some (Leader, 1, 2)" by code_simp
  then obtain c where c: "run ?es (boot [1]) = Some c" "leads c 1 1" "length (rn_log (cl_nodes c 1)) = 2"
    by (auto simp: leads_def)
  moreover have "events_of [1] ?es" by (simp add: events_of_def)
  ultimately show ?thesis using single_node_never_commits [of 1 ?es c] by blast
qed

section \<open>Restarting a node\<close>

text \<open>
  C20: A restart loses the vote. A node that has granted its vote in a term refuses it to every other
  candidate of that term. After the process has been started again, with the same number and peers,
  the node that \<open>NewRaftNode\<close> makes grants its vote in that same term to any candidate that asks:
  nothing of the term and the vote is kept.
\<close>

theorem restarted_node_votes_again:
  assumes "RequestVote args r = Some (r1, reply)" "vr_VoteGranted reply"
    and "0 < rv_Term args" "0 \<le> rv_CandidateID args"
    and "rv_Term args' = rv_Term args" "rv_CandidateID args' \<noteq> rv_CandidateID args"
  shows "RequestVote args' r1 = Some (r1, \<lparr>vr_Term = rv_Term args, vr_VoteGranted = False\<rparr>)
    \<and> (\<exists>r2. RequestVote args' (NewRaftNode (rn_id r1) (rn_peers r1) applyCh)
          = Some (r2, \<lparr>vr_Term = rv_Term args, vr_VoteGranted = True\<rparr>) \<and> rn_votedFor r2 = rv_CandidateID args')"
proof -
  have "rn_votedFor r1 = rv_CandidateID args" "rn_currentTerm r1 = rv_Term args" "rn_log r1 \<noteq> []"
    using assms(1,2) unfolding RequestVote_def Let_def by (auto simp: becomeFollower_def split: if_splits)
  then have "RequestVote args' r1 = Some (r1, \<lparr>vr_Term = rv_Term args, vr_VoteGranted = False\<rparr>)"
    using assms(4-6) by (simp add: RequestVote_def)
  moreover have "\<exists>r2. RequestVote args' (NewRaftNode (rn_id r1) (rn_peers r1) applyCh)
      = Some (r2, \<lparr>vr_Term = rv_Term args, vr_VoteGranted = True\<rparr>) \<and> rn_votedFor r2 = rv_CandidateID args'"
    using assms(3,5) by (auto simp: RequestVote_def becomeFollower_def NewRaftNode_def dummy_entry_def Let_def)
  ultimately show ?thesis by blast
qed

definition ballot :: "int \<Rightarrow> RequestVoteArgs" where
  "ballot i = \<lparr>rv_Term = 1, rv_CandidateID = i, rv_LastLogIndex = 0, rv_LastLogTerm = 0\<rparr>"

theorem restarted_node_votes_again_witness:
  "\<exists>r1 r2. RequestVote (ballot 1) (NewRaftNode 3 [1, 2] None) = Some (r1, \<lparr>vr_Term = 1, vr_VoteGranted = True\<rparr>)
    \<and> RequestVote (ballot 2) r1 = Some (r1, \<lparr>vr_Term = 1, vr_VoteGranted = False\<rparr>)
    \<and> RequestVote (ballot 2) (NewRaftNode (rn_id r1) (rn_peers r1) None) = Some (r2, \<lparr>vr_Term = 1, vr_VoteGranted = True\<rparr>)"
proof -
  obtain r1 where r1: "RequestVote (ballot 1) (NewRaftNode 3 [1, 2] None) = Some (r1, \<lparr>vr_Term = 1, vr_VoteGranted = True\<rparr>)"
    by (simp add: RequestVote_def ballot_def becomeFollower_def NewRaftNode_def dummy_entry_def)
  from restarted_node_votes_again [OF r1, of "ballot 2" None] show ?thesis using r1 by (auto simp: ballot_def)
qed

section \<open>Repairing a follower\<close>

lemma heartbeat_calls_nth:
  "heartbeat_calls r ps = Some calls \<Longrightarrow>
   length calls = length ps \<and> (\<forall>k < length ps. heartbeat_call r (ps ! k) = Some (calls ! k))"
proof (induction ps arbitrary: calls)
  case (Cons p ps)
  then show ?case by (auto simp: less_Suc_eq_0_disj split: option.splits)
qed simp

lemma advance_from_keeps:
  assumes "advance_from r n = Some r'"
  shows "rn_role r' = rn_role r \<and> rn_currentTerm r' = rn_currentTerm r \<and> rn_log r' = rn_log r
    \<and> rn_killed r' = rn_killed r \<and> rn_nextIndex r' = rn_nextIndex r"
  using assms
proof (induction n)
  case (Suc n)
  have "r' = r \<or> advance_from r n = Some r' \<or> applyLogs (r\<lparr>rn_commitIndex := Suc n\<rparr>) = Some r'"
    using Suc.prems by (simp add: Let_def split: if_splits)
  then show ?case using Suc.IH applyLogs_result [of "r\<lparr>rn_commitIndex := Suc n\<rparr>" r'] by auto
qed simp

text \<open>The answer of a follower that is not ahead of the leader.\<close>

lemma AppendEntries_answer:
  assumes "AppendEntries args r = Some (r', reply)" "rn_currentTerm r \<le> ae_Term args"
  shows "ar_Term reply = ae_Term args \<and> rn_currentTerm r' = ae_Term args
    \<and> (ar_Success reply \<longleftrightarrow> ae_PrevLogIndex args < length (rn_log r)
        \<and> rl_Term (rn_log r ! ae_PrevLogIndex args) = ae_PrevLogTerm args)
    \<and> rn_log r' = (if ar_Success reply then append_entries (rn_log r) (Suc (ae_PrevLogIndex args)) (ae_Entries args) else rn_log r)"
proof -
  define r1 where "r1 = (if rn_currentTerm r < ae_Term args then becomeFollower (ae_Term args) r else r)"
  define r2 where "r2 = r1\<lparr>rn_role := Follower\<rparr>"
  have r1: "rn_currentTerm r1 = ae_Term args" "rn_log r1 = rn_log r"
    using assms(2) by (auto simp: r1_def becomeFollower_def)
  let ?ok = "ae_PrevLogIndex args < length (rn_log r) \<and> rl_Term (rn_log r ! ae_PrevLogIndex args) = ae_PrevLogTerm args"
  define L where "L = append_entries (rn_log r) (Suc (ae_PrevLogIndex args)) (ae_Entries args)"
  define r3 where "r3 = r2\<lparr>rn_log := L\<rparr>"
  have eq: "AppendEntries args r =
      (if \<not> ?ok then Some (r2, \<lparr>ar_Term = ae_Term args, ar_Success = False\<rparr>)
       else if rn_commitIndex r3 < ae_LeaderCommit args then
         map_option (\<lambda>r4. (r4, \<lparr>ar_Term = ae_Term args, ar_Success = True\<rparr>))
           (applyLogs (r3\<lparr>rn_commitIndex :=
              (if ae_LeaderCommit args < length (rn_log r3) - 1 then ae_LeaderCommit args else length (rn_log r3) - 1)\<rparr>))
       else Some (r3, \<lparr>ar_Term = ae_Term args, ar_Success = True\<rparr>))"
    unfolding AppendEntries_def r1_def [symmetric] Let_def r3_def L_def r2_def using r1 by simp
  have r2: "rn_currentTerm r2 = ae_Term args" "rn_log r2 = rn_log r" "rn_log r3 = L" "rn_currentTerm r3 = ae_Term args"
    using r1 by (simp_all add: r2_def r3_def)
  consider "\<not> ?ok" "r' = r2" "reply = \<lparr>ar_Term = ae_Term args, ar_Success = False\<rparr>"
    | "?ok" "r' = r3" "reply = \<lparr>ar_Term = ae_Term args, ar_Success = True\<rparr>"
    | k where "?ok" "applyLogs (r3\<lparr>rn_commitIndex := k\<rparr>) = Some r'" "reply = \<lparr>ar_Term = ae_Term args, ar_Success = True\<rparr>"
    using assms(1) unfolding eq by (auto split: if_splits)
  then show ?thesis
  proof cases
    case 3
    from applyLogs_result [OF 3(2)] 3 r2 show ?thesis by (simp add: L_def)
  qed (use r2 in \<open>simp_all add: L_def\<close>)
qed

text \<open>A leader that runs, and a follower it can reach and that is not ahead of it.\<close>

definition repairable :: "nat \<Rightarrow> int \<Rightarrow> int \<Rightarrow> cluster \<Rightarrow> bool" where
  "repairable t i q c \<longleftrightarrow> leads c t i \<and> \<not> rn_killed (cl_nodes c i)
     \<and> mn_nodes (cl_mock c) q = Some (Some q) \<and> rn_currentTerm (cl_nodes c q) \<le> t"

text \<open>The heartbeat of a leader to one of its followers.\<close>

definition heartbeat_args :: "cluster \<Rightarrow> int \<Rightarrow> int \<Rightarrow> AppendEntriesArgs" where
  "heartbeat_args c i q =
     (let r = cl_nodes c i; prev = rn_nextIndex r q - 1 in
      \<lparr>ae_Term = rn_currentTerm r, ae_LeaderID = i, ae_PrevLogIndex = prev, ae_PrevLogTerm = rl_Term (rn_log r ! prev),
       ae_Entries = drop (prev + 1) (rn_log r), ae_LeaderCommit = rn_commitIndex r\<rparr>)"

lemma heartbeat_for:
  assumes sm: "sim ids c s" "i \<in> ids" "q \<in> ids" "q \<noteq> i" and l: "repairable t i q c"
  shows "\<exists>pks. happen (Beat i) c = Some (c\<lparr>cl_net := cl_net c @ pks\<rparr>) \<and> AppReq i q (heartbeat_args c i q) \<in> set pks
    \<and> (\<forall>args. AppReq i q args \<in> set pks \<longrightarrow> args = heartbeat_args c i q) \<and> append_ok s i (heartbeat_args c i q)"
proof -
  let ?r = "cl_nodes c i" and ?args = "heartbeat_args c i q"
  note n = sim_node [OF sm(1,2)]
  obtain calls where calls: "broadcastHeartbeats ?r = Some calls" "\<forall>call \<in> set calls. packet_ok ids s (request i call)"
    using broadcast_ok [OF n(1) sm(2) n(2)] by blast
  have r: "rn_role ?r = Leader" "\<not> rn_killed ?r" "rn_id ?r = i" "set (rn_peers ?r) = ids - {i}"
    using l n(2) by (simp_all add: repairable_def leads_def node_ok_def)
  then have hc: "heartbeat_calls ?r (rn_peers ?r) = Some calls" using calls(1) by (simp add: broadcastHeartbeats_def)
  have call: "call = AppendCall p (heartbeat_args c i p)" if "heartbeat_call ?r p = Some call" for p call
    using that r(3) unfolding heartbeat_call_def heartbeat_args_def Let_def by (auto split: if_splits)
  obtain k where k: "k < length (rn_peers ?r)" "rn_peers ?r ! k = q"
    using r(4) sm(3,4) by (metis DiffI in_set_conv_nth singletonD)
  then have "calls ! k = AppendCall q ?args" "k < length calls" using heartbeat_calls_nth [OF hc] call by auto
  then have in_calls: "AppendCall q ?args \<in> set calls" by (metis nth_mem)
  then have "AppReq i q ?args \<in> set (map (request i) calls)" by force
  moreover have "append_ok s i ?args" using calls(2) in_calls by fastforce
  moreover have "args = ?args" if "AppReq i q args \<in> set (map (request i) calls)" for args
  proof -
    from that have "AppReq i q args \<in> request i ` set calls" by simp
    then obtain x where x: "x \<in> set calls" "request i x = AppReq i q args" by (elim imageE) simp
    obtain k where "k < length calls" "calls ! k = x" using x(1) by (metis in_set_conv_nth)
    then have "x = AppendCall (rn_peers ?r ! k) (heartbeat_args c i (rn_peers ?r ! k))"
      using heartbeat_calls_nth [OF hc] call by auto
    then show ?thesis using x(2) by auto
  qed
  moreover have "happen (Beat i) c = Some (c\<lparr>cl_net := cl_net c @ map (request i) calls\<rparr>)"
    using calls(1) r by (simp add: heartbeat_tick_def leave_def)
  ultimately show ?thesis by blast
qed

text \<open>What the leader does with the answer.\<close>

lemma answer_used:
  assumes "append_reply t q prev n reply r = Some r'" "rn_role r = Leader" "rn_currentTerm r = t"
    "ar_Term reply = t"
  shows "rn_role r' = Leader \<and> rn_currentTerm r' = t \<and> rn_log r' = rn_log r \<and> rn_killed r' = rn_killed r
    \<and> (\<not> ar_Success reply \<and> 1 < rn_nextIndex r q \<longrightarrow> rn_nextIndex r' q < rn_nextIndex r q)"
proof (cases "ar_Success reply")
  case True
  let ?r = "r\<lparr>rn_nextIndex := (rn_nextIndex r)(q := prev + n + 1), rn_matchIndex := (rn_matchIndex r)(q := prev + n)\<rparr>"
  have "advance_from ?r (length (rn_log r) - 1) = Some r'"
    using assms True by (simp add: append_reply_def checkAdvanceCommitIndex_def)
  from advance_from_keeps [OF this] show ?thesis using assms True by simp
next
  case False
  then show ?thesis using assms by (auto simp: append_reply_def split: if_splits)
qed

text \<open>A follower that accepts the rest of the log of the leader has it all, and one that refuses was asked beyond index 0.\<close>

lemma accepted_rest:
  assumes sm: "sim ids c s" "q \<in> ids"
    and l: "c_lead s t = Some i" "c_llog s t = L" "q \<noteq> i"
    and p: "prev < length (rn_log (cl_nodes c q))" "rl_Term (rn_log (cl_nodes c q) ! prev) = rl_Term (L ! prev)" "prev < length L"
  shows "agree (append_entries (rn_log (cl_nodes c q)) (Suc prev) (drop (Suc prev) L)) L (length L - 1)"
proof -
  have "c_log s q = rn_log (cl_nodes c q)" using sim_node(3) [OF sm(1,2)] by (simp add: same_node_def)
  then show ?thesis
    using accept_log(1) [OF sim_node(1) [OF sm(1,2)] sm(2), of t prev "length L - Suc prev"] l p by simp
qed

lemma refused_above_zero:
  assumes "sim ids c s" "i \<in> ids" "q \<in> ids"
    and "\<not> (prev < length (rn_log (cl_nodes c q)) \<and> rl_Term (rn_log (cl_nodes c q) ! prev) = rl_Term (rn_log (cl_nodes c i) ! prev))"
  shows "prev \<noteq> 0"
proof -
  have "rn_log (cl_nodes c q) ! 0 = rn_log (cl_nodes c i) ! 0" "rn_log (cl_nodes c q) \<noteq> []"
    using sim_covered(2) [OF assms(1,2)] sim_covered(2) [OF assms(1,3)] by (auto simp: wf_log_def)
  then show ?thesis using assms(4) by (cases prev) auto
qed

text \<open>
  One answered heartbeat: the leader sends heartbeats, the one to the follower, message number \<open>k\<close> among
  the new ones, is delivered, and then the answer, which is the last message on the network.
\<close>

inductive answered :: "int \<Rightarrow> int \<Rightarrow> cluster \<Rightarrow> cluster \<Rightarrow> bool" for i q where
  answeredI: "happen (Beat i) c = Some c1 \<Longrightarrow> length (cl_net c) \<le> k \<Longrightarrow> k < length (cl_net c1)
    \<Longrightarrow> cl_net c1 ! k = AppReq i q args \<Longrightarrow> happen (Deliver k) c1 = Some c2
    \<Longrightarrow> happen (Deliver (length (cl_net c1))) c2 = Some d \<Longrightarrow> answered i q c d"

inductive answered_times :: "int \<Rightarrow> int \<Rightarrow> nat \<Rightarrow> cluster \<Rightarrow> cluster \<Rightarrow> bool" for i q where
  answered_none: "answered_times i q 0 c c"
| answered_more: "answered i q c d \<Longrightarrow> answered_times i q n d e \<Longrightarrow> answered_times i q (Suc n) c e"

inductive_cases answered_timesE: "answered_times i q n c d"

lemma answered_reached:
  assumes "sim ids c s" "i \<in> ids" "answered i q c d"
  shows "\<exists>s'. sim ids d s'"
  using assms(3)
proof cases
  case (answeredI c1 k args c2)
  then have "run [Beat i, Deliver k, Deliver (length (cl_net c1))] c = Some d" by (simp del: happen.simps)
  moreover have "events_of [i] [Beat i, Deliver k, Deliver (length (cl_net c1))]" by (simp add: events_of_def)
  ultimately show ?thesis using run_sim [OF assms(1)] assms(2) by fastforce
qed

text \<open>The two deliveries: what the follower and then the leader make of the heartbeat.\<close>

lemma heartbeat_answered:
  assumes sm: "sim ids c s" "i \<in> ids" "q \<in> ids" "q \<noteq> i" and l: "repairable t i q c"
    and c1: "c1 = c\<lparr>cl_net := cl_net c @ pks\<rparr>" "k < length (cl_net c1)" "cl_net c1 ! k = AppReq i q (heartbeat_args c i q)"
    and ok: "append_ok s i (heartbeat_args c i q)"
  shows "\<exists>rq reply c2. AppendEntries (heartbeat_args c i q) (cl_nodes c q) = Some (rq, reply)
    \<and> happen (Deliver k) c1 = Some c2 \<and> cl_mock c2 = cl_mock c \<and> cl_nodes c2 = (cl_nodes c)(q := rq)
    \<and> happen (Deliver (length (cl_net c1))) c2 = map_option (\<lambda>r. leave i (r, []) c2) (append_reply t q
        (rn_nextIndex (cl_nodes c i) q - 1) (length (ae_Entries (heartbeat_args c i q))) reply (cl_nodes c i))"
proof -
  let ?args = "heartbeat_args c i q"
  have r: "rn_currentTerm (cl_nodes c i) = t" "mn_nodes (cl_mock c) q = Some (Some q)"
    using l by (simp_all add: repairable_def leads_def)
  obtain rq reply where a: "AppendEntries ?args (cl_nodes c q) = Some (rq, reply)"
    using AppendEntries_ok [OF sim_node(1) [OF sm(1,3)] sm(3) sim_node(2) [OF sm(1,3)] ok] sm(4) by blast
  define c2 where "c2 = c\<lparr>cl_nodes := (cl_nodes c)(q := rq), cl_net := cl_net c1 @ [AppRep i q ?args reply]\<rparr>"
  have "happen (Deliver k) c1 = Some c2"
    using c1 a r(2) by (simp add: SendAppendEntries_def c2_def)
  moreover have "happen (Deliver (length (cl_net c1))) c2 = deliver (AppRep i q ?args reply) c2" by (simp add: c2_def)
  moreover have "ae_Term ?args = t" "ae_PrevLogIndex ?args = rn_nextIndex (cl_nodes c i) q - 1" "cl_nodes c2 i = cl_nodes c i"
    using r(1) sm(4) by (simp_all add: heartbeat_args_def Let_def c2_def)
  ultimately show ?thesis using a by (intro exI [of _ rq] exI [of _ reply] exI [of _ c2]) (simp add: c2_def)
qed

lemma answered_possible:
  assumes "sim ids c s" "i \<in> ids" "q \<in> ids" "q \<noteq> i" "repairable t i q c"
  shows "\<exists>d. answered i q c d"
proof -
  obtain pks where b: "happen (Beat i) c = Some (c\<lparr>cl_net := cl_net c @ pks\<rparr>)" "AppReq i q (heartbeat_args c i q) \<in> set pks"
    "append_ok s i (heartbeat_args c i q)" using heartbeat_for [OF assms] by blast
  let ?c1 = "c\<lparr>cl_net := cl_net c @ pks\<rparr>"
  obtain k where k: "k < length pks" "pks ! k = AppReq i q (heartbeat_args c i q)" using b(2) by (metis in_set_conv_nth)
  then have k1: "length (cl_net c) + k < length (cl_net ?c1)" "cl_net ?c1 ! (length (cl_net c) + k) = AppReq i q (heartbeat_args c i q)"
    by simp_all
  obtain c2 where c2: "happen (Deliver (length (cl_net c) + k)) ?c1 = Some c2"
    using heartbeat_answered [OF assms refl k1 b(3)] by blast
  have "events_of [i] [Beat i, Deliver (length (cl_net c) + k), Deliver (length (cl_net ?c1))]" by (simp add: events_of_def)
  then obtain d where "run [Beat i, Deliver (length (cl_net c) + k), Deliver (length (cl_net ?c1))] c = Some d"
    using run_sim [OF assms(1)] assms(2) by fastforce
  then have "happen (Deliver (length (cl_net ?c1))) c2 = Some d" using b(1) c2 by (simp del: happen.simps split: option.splits)
  then show ?thesis using answeredI [OF b(1) _ k1 c2] by auto
qed

text \<open>
  An answered heartbeat either makes the log of the follower begin with the log of the leader, or the
  leader tries an earlier index next time; and a follower that has the log keeps it.
\<close>

lemma answered_effect:
  assumes sm: "sim ids c s" "i \<in> ids" "q \<in> ids" "q \<noteq> i" and l: "repairable t i q c" and a: "answered i q c d"
  defines "L \<equiv> rn_log (cl_nodes c i)"
  shows "repairable t i q d" "rn_log (cl_nodes d i) = L"
    "agree (rn_log (cl_nodes d q)) L (length L - 1) \<or>
      rn_nextIndex (cl_nodes d i) q < rn_nextIndex (cl_nodes c i) q \<and> rn_log (cl_nodes d q) = rn_log (cl_nodes c q)"
proof -
  let ?r = "cl_nodes c i" and ?rq = "cl_nodes c q" and ?args = "heartbeat_args c i q"
  define prev where "prev = rn_nextIndex ?r q - 1"
  obtain pks where b: "happen (Beat i) c = Some (c\<lparr>cl_net := cl_net c @ pks\<rparr>)"
    "\<forall>args. AppReq i q args \<in> set pks \<longrightarrow> args = ?args" "append_ok s i ?args" using heartbeat_for [OF sm l] by blast
  let ?c1 = "c\<lparr>cl_net := cl_net c @ pks\<rparr>"
  obtain k c2' where k: "length (cl_net c) \<le> k" "k < length (cl_net ?c1)" "cl_net ?c1 ! k = AppReq i q ?args"
    "happen (Deliver k) ?c1 = Some c2'" "happen (Deliver (length (cl_net ?c1))) c2' = Some d"
    using a
  proof cases
    case (answeredI c1 k args c2)
    then have "c1 = ?c1" using b(1) by (simp del: happen.simps)
    moreover from this have "AppReq i q args \<in> set pks"
      using answeredI(2-4) by (auto simp: nth_append intro!: nth_mem simp flip: answeredI(4))
    ultimately show ?thesis using that answeredI b(2) by metis
  qed
  obtain rq reply c2 where h: "AppendEntries ?args ?rq = Some (rq, reply)" "happen (Deliver k) ?c1 = Some c2" "cl_mock c2 = cl_mock c"
    "cl_nodes c2 = (cl_nodes c)(q := rq)"
    "happen (Deliver (length (cl_net ?c1))) c2 = map_option (\<lambda>r. leave i (r, []) c2) (append_reply t q prev (length (ae_Entries ?args)) reply ?r)"
    using heartbeat_answered [OF sm l refl k(2,3) b(3)] unfolding prev_def by blast
  have "c2' = c2" using h(2) k(4) by (simp del: happen.simps)
  then have "map_option (\<lambda>r. leave i (r, []) c2) (append_reply t q prev (length (ae_Entries ?args)) reply ?r) = Some d"
    using h(5) k(5) by (simp del: happen.simps)
  then obtain r' where r': "append_reply t q prev (length (ae_Entries ?args)) reply ?r = Some r'" "d = leave i (r', []) c2"
    by blast
  have r: "rn_role ?r = Leader" "rn_currentTerm ?r = t" "\<not> rn_killed ?r" "mn_nodes (cl_mock c) q = Some (Some q)"
    "rn_currentTerm ?rq \<le> t" using l by (simp_all add: repairable_def leads_def)
  have ld: "c_lead s t = Some i" "c_llog s t = L"
    using sim_node(2) [OF sm(1,2)] r(1,2) by (auto simp: node_ok_def leading_def L_def)
  have args: "ae_Term ?args = t" "ae_PrevLogIndex ?args = prev" "ae_PrevLogTerm ?args = rl_Term (L ! prev)"
    "ae_Entries ?args = drop (Suc prev) L" using r(2) by (simp_all add: heartbeat_args_def Let_def prev_def L_def)
  note ans = AppendEntries_answer [OF h(1), unfolded args, OF r(5)]
  have "ar_Term reply = t" using ans by blast
  note used = answer_used [OF r'(1) r(1,2) this]
  have d: "cl_nodes d i = r'" "cl_nodes d q = rq" "cl_mock d = cl_mock c" using r'(2) h(3,4) sm(4) by (simp_all add: leave_def)
  show "repairable t i q d" using used r ans by (simp add: repairable_def leads_def d)
  show "rn_log (cl_nodes d i) = L" using used by (simp add: d L_def)
  show "agree (rn_log (cl_nodes d q)) L (length L - 1) \<or>
      rn_nextIndex (cl_nodes d i) q < rn_nextIndex ?r q \<and> rn_log (cl_nodes d q) = rn_log ?rq"
  proof (cases "ar_Success reply")
    case True
    have "ae_PrevLogIndex ?args + length (ae_Entries ?args) < length (c_llog s (ae_Term ?args))"
      using b(3) unfolding append_ok_def by blast
    then have "prev < length L" using ld(2) args by simp
    then show ?thesis using accepted_rest [OF sm(1,3) ld sm(4)] True ans by (simp add: d)
  next
    case False
    then have "prev \<noteq> 0" using refused_above_zero [OF sm(1-3)] ans unfolding L_def by blast
    then have "rn_nextIndex r' q < rn_nextIndex ?r q" using used False by (simp add: prev_def)
    moreover have "rn_log rq = rn_log ?rq" using ans False by presburger
    ultimately show ?thesis by (simp add: d)
  qed
qed

lemma answered_times_possible:
  assumes "sim ids c s" "i \<in> ids" "q \<in> ids" "q \<noteq> i" "repairable t i q c"
  shows "\<exists>d. answered_times i q n c d"
  using assms(1,5)
proof (induction n arbitrary: c s)
  case (Suc n)
  obtain d where d: "answered i q c d" using answered_possible [OF Suc.prems(1) assms(2-4) Suc.prems(2)] by blast
  then show ?case
    using Suc.IH answered_effect(1) [OF Suc.prems(1) assms(2-4) Suc.prems(2) d] answered_reached [OF Suc.prems(1) assms(2) d]
    by (blast intro: answered_more)
qed (blast intro: answered_none)

lemma answered_times_effect:
  assumes "answered_times i q n c d" "sim ids c s" "i \<in> ids" "q \<in> ids" "q \<noteq> i" "repairable t i q c"
  defines "L \<equiv> rn_log (cl_nodes c i)"
  shows "leads d t i \<and> rn_log (cl_nodes d i) = L \<and>
    (rn_nextIndex (cl_nodes c i) q \<le> n \<or> agree (rn_log (cl_nodes c q)) L (length L - 1)
      \<longrightarrow> agree (rn_log (cl_nodes d q)) L (length L - 1))"
  using assms(1,2,6) unfolding L_def
proof (induction arbitrary: s rule: answered_times.induct)
  case (answered_none c)
  have "1 \<le> rn_nextIndex (cl_nodes c i) q"
    using sim_node(2) [OF answered_none.prems(1) assms(3)] answered_none.prems(2) assms(4,5)
    by (auto simp: node_ok_def leading_def repairable_def leads_def)
  then show ?case using answered_none.prems(2) by (simp add: repairable_def)
next
  case (answered_more c d n e)
  note eff = answered_effect [OF answered_more.prems(1) assms(3-5) answered_more.prems(2) answered_more.hyps(1)]
  obtain s' where s': "sim ids d s'" using answered_reached [OF answered_more.prems(1) assms(3) answered_more.hyps(1)] by blast
  from answered_more.IH [OF s' eff(1)] show ?case using eff(2,3) by auto
qed

text \<open>
  C16: Repair terminates. Let a leader and a follower that is not ahead of it be able to reach each
  other, and let nothing else happen in between. Then any number of heartbeats can be sent, each
  delivered to the follower and answered. Whenever that has happened at least as often as the log of
  the leader is long, whatever the follower's log was, it begins with the whole log of the leader,
  who still leads and has the same log.
\<close>

theorem follower_is_repaired:
  assumes "numbering ns" "events_of ns es" "run es (boot ns) = Some c" "i \<in> set ns" "q \<in> set ns" "q \<noteq> i"
    and "repairable t i q c"
  shows "(\<exists>d. answered_times i q n c d)
    \<and> (\<forall>d. answered_times i q n c d \<and> length (rn_log (cl_nodes c i)) \<le> n \<longrightarrow>
          leads d t i \<and> rn_log (cl_nodes d i) = rn_log (cl_nodes c i) \<and> prefix (rn_log (cl_nodes c i)) (rn_log (cl_nodes d q)))"
proof -
  let ?L = "rn_log (cl_nodes c i)"
  obtain s where s: "sim (set ns) c s" using reached [OF assms(1-3)] by blast
  note n = sim_node [OF s assms(4)]
  have nxt: "rn_nextIndex (cl_nodes c i) q \<le> length ?L"
    using n(2) assms(5-7) by (auto simp: node_ok_def leading_def repairable_def leads_def)
  have "?L \<noteq> []" using node_commit_bound(1) [OF n(1) assms(4) n(2)] by auto
  then have p: "prefix ?L xs" if "agree xs ?L (length ?L - 1)" for xs
    using that by (metis agree_def Suc_pred' length_greater_0_conv take_is_prefix take_all_iff le_refl)
  have "leads d t i \<and> rn_log (cl_nodes d i) = ?L \<and> prefix ?L (rn_log (cl_nodes d q))"
    if "answered_times i q n c d" "length ?L \<le> n" for d
    using answered_times_effect [OF that(1) s assms(4-7)] that(2) nxt p by auto
  then show ?thesis using answered_times_possible [OF s assms(4-7)] by blast
qed

theorem follower_is_repaired_witness:
  "\<exists>c d. run (meeting @ writing) (boot [1, 2, 3]) = Some c \<and> repairable 1 1 3 c
    \<and> length (rn_log (cl_nodes c 1)) = 2 \<and> length (rn_log (cl_nodes c 3)) = 1
    \<and> answered_times 1 3 2 c d \<and> prefix (rn_log (cl_nodes c 1)) (rn_log (cl_nodes d 3))"
proof -
  let ?f = "\<lambda>c. (rn_role (cl_nodes c 1), rn_currentTerm (cl_nodes c 1), rn_killed (cl_nodes c 1),
      mn_nodes (cl_mock c) 3, rn_currentTerm (cl_nodes c 3), length (rn_log (cl_nodes c 1)), length (rn_log (cl_nodes c 3)))"
  have "map_option ?f (run (meeting @ writing) (boot [1, 2, 3])) = Some (Leader, 1, False, Some (Some 3), 0, 2, 1)"
    by code_simp
  then obtain c where c: "run (meeting @ writing) (boot [1, 2, 3]) = Some c" "repairable 1 1 3 c"
    "length (rn_log (cl_nodes c 1)) = 2" "length (rn_log (cl_nodes c 3)) = 1"
    by (auto simp: repairable_def leads_def)
  have "(\<exists>d. answered_times 1 3 2 c d) \<and> (\<forall>d. answered_times 1 3 2 c d \<and> length (rn_log (cl_nodes c 1)) \<le> 2 \<longrightarrow>
      leads d 1 1 \<and> rn_log (cl_nodes d 1) = rn_log (cl_nodes c 1) \<and> prefix (rn_log (cl_nodes c 1)) (rn_log (cl_nodes d 3)))"
    by (rule follower_is_repaired [OF group_of_three(1,4) c(1) _ _ _ c(2)]) simp_all
  then show ?thesis using c by (metis le_refl)
qed

end
