(* ===== verification/Flags.thy ===== *)
theory Flags
  imports KV_Prelude
begin

text \<open>
  What the two programs use of Go's packages \<open>flag\<close>, \<open>strconv\<close> and \<open>fmt\<close>: parsing a command line with
  string and integer flags, \<open>strconv.ParseInt\<close> with base 0, and printing an integer in decimal. A
  printed integer is read back, which gives the round trip through a command line.
\<close>

section \<open>Integers\<close>

text \<open>The verb \<open>%d\<close>.\<close>

fun digits :: "nat \<Rightarrow> string" where
  "digits n = (if n < 10 then [char_of (48 + n)] else digits (n div 10) @ [char_of (48 + n mod 10)])"

declare digits.simps [simp del]

definition decimal :: "int \<Rightarrow> string" where
  "decimal n = (if n < 0 then ''-'' @ digits (nat (- n)) else digits (nat n))"

text \<open>The code of a character, and \<open>c | 0x20\<close>, which turns an upper-case letter into lower case.\<close>

definition code :: "char \<Rightarrow> nat" where
  "code c = of_char c"

definition lower :: "char \<Rightarrow> nat" where
  "lower c = or (code c) 32"

definition digit_value :: "char \<Rightarrow> nat option" where
  "digit_value c =
     (if 48 \<le> code c \<and> code c \<le> 57 then Some (code c - 48)
      else if 97 \<le> lower c \<and> lower c \<le> 122 then Some (lower c - 97 + 10)
      else None)"

text \<open>The loop of \<open>ParseUint\<close> over the digits, with the result of 64 bits; \<open>None\<close> is an error.\<close>

fun parse_digits :: "nat \<Rightarrow> string \<Rightarrow> nat \<Rightarrow> nat option" where
  "parse_digits base [] n = Some n"
| "parse_digits base (c # cs) n =
     (if c = CHR ''_'' then parse_digits base cs n
      else case digit_value c of
        None \<Rightarrow> None
      | Some d \<Rightarrow> if base \<le> d \<or> 2 ^ 64 \<le> n * base + d then None else parse_digits base cs (n * base + d))"

definition base_prefix :: "string \<Rightarrow> nat \<times> string" where
  "base_prefix s =
     (if take 1 s \<noteq> ''0'' then (10, s)
      else if 3 \<le> length s \<and> lower (s ! 1) = 98 then (2, drop 2 s)
      else if 3 \<le> length s \<and> lower (s ! 1) = 111 then (8, drop 2 s)
      else if 3 \<le> length s \<and> lower (s ! 1) = 120 then (16, drop 2 s)
      else (8, drop 1 s))"

text \<open>\<open>underscoreOK\<close>: underscores only between digits, or between the prefix and a digit.\<close>

fun separators_ok :: "bool \<Rightarrow> char \<Rightarrow> string \<Rightarrow> bool" where
  "separators_ok hex saw [] = (saw \<noteq> CHR ''_'')"
| "separators_ok hex saw (c # cs) =
     (if (48 \<le> code c \<and> code c \<le> 57) \<or> (hex \<and> 97 \<le> lower c \<and> lower c \<le> 102) then separators_ok hex CHR ''0'' cs
      else if c = CHR ''_'' then saw = CHR ''0'' \<and> separators_ok hex CHR ''_'' cs
      else saw \<noteq> CHR ''_'' \<and> separators_ok hex CHR ''!'' cs)"

definition underscoreOK :: "string \<Rightarrow> bool" where
  "underscoreOK s =
     (if 2 \<le> length s \<and> hd s = CHR ''0'' \<and> lower (s ! 1) \<in> {98, 111, 120}
      then separators_ok (lower (s ! 1) = 120) CHR ''0'' (drop 2 s)
      else separators_ok False CHR ''^'' s)"

definition ParseUint :: "string \<Rightarrow> nat option" where
  "ParseUint s =
     (if s = '''' then None
      else let (base, ds) = base_prefix s in
        case parse_digits base ds 0 of
          None \<Rightarrow> None
        | Some n \<Rightarrow> if CHR ''_'' \<in> set ds \<and> \<not> underscoreOK s then None else Some n)"

definition ParseInt :: "string \<Rightarrow> int option" where
  "ParseInt s =
     (let neg = (take 1 s = ''-'');
          s' = (if take 1 s = ''+'' \<or> take 1 s = ''-'' then drop 1 s else s)
      in case ParseUint s' of
           None \<Rightarrow> None
         | Some un \<Rightarrow>
             if neg then (if 2 ^ 63 < un then None else Some (- int un))
             else if 2 ^ 63 \<le> un then None else Some (int un))"

section \<open>Flags\<close>

text \<open>
  \<open>FlagSet.Parse\<close>: the flags with the test that their values must pass, the arguments left and the
  values set so far, the latest first. A request for help exits with 0, a wrong flag or value with 2
  (\<open>ExitOnError\<close>).
\<close>

datatype flags = Flags "(string \<times> string) list" | FlagExit int

type_synonym formal = "(string \<times> (string \<Rightarrow> bool)) list"

definition string_flag :: "string \<Rightarrow> string \<times> (string \<Rightarrow> bool)" where
  "string_flag name = (name, \<lambda>_. True)"

definition int_flag :: "string \<Rightarrow> string \<times> (string \<Rightarrow> bool)" where
  "int_flag name = (name, \<lambda>v. ParseInt v \<noteq> None)"

definition flag_name :: "string \<Rightarrow> string" where
  "flag_name s = (if take 1 (drop 1 s) = ''-'' then drop 2 s else drop 1 s)"

function Parse :: "formal \<Rightarrow> string list \<Rightarrow> (string \<times> string) list \<Rightarrow> flags" where
  "Parse formal [] vals = Flags vals"
| "Parse formal (s # args) vals =
     (if length s < 2 \<or> hd s \<noteq> CHR ''-'' \<or> s = ''--'' then Flags vals
      else let nm = flag_name s in
        if nm = '''' \<or> hd nm = CHR ''-'' \<or> hd nm = CHR ''='' then FlagExit 2
        else let name = takeWhile (\<lambda>c. c \<noteq> CHR ''='') nm;
                 rest = dropWhile (\<lambda>c. c \<noteq> CHR ''='') nm
             in case map_of formal name of
                  None \<Rightarrow> if name = ''help'' \<or> name = ''h'' then FlagExit 0 else FlagExit 2
                | Some good \<Rightarrow>
                    if rest \<noteq> '''' then
                      (if good (tl rest) then Parse formal args ((name, tl rest) # vals) else FlagExit 2)
                    else (case args of
                            [] \<Rightarrow> FlagExit 2
                          | v # args' \<Rightarrow>
                              if good v then Parse formal args' ((name, v) # vals) else FlagExit 2))"
  by pat_completeness auto
termination
  by (relation "measure (\<lambda>(_, args, _). length args)") auto

definition flag_value :: "(string \<times> string) list \<Rightarrow> string \<Rightarrow> string \<Rightarrow> string" where
  "flag_value vals name dflt = (case map_of vals name of None \<Rightarrow> dflt | Some v \<Rightarrow> v)"

definition flag_int :: "(string \<times> string) list \<Rightarrow> string \<Rightarrow> int \<Rightarrow> int" where
  "flag_int vals name dflt =
     (case map_of vals name of None \<Rightarrow> dflt | Some v \<Rightarrow> (case ParseInt v of None \<Rightarrow> dflt | Some n \<Rightarrow> n))"

section \<open>Reading what was printed\<close>

lemma code_digit: "d < 10 \<Longrightarrow> code (char_of (48 + d)) = 48 + d"
  by (simp add: code_def)

lemma digit_value_digit: "d < 10 \<Longrightarrow> digit_value (char_of (48 + d)) = Some d"
  by (simp add: digit_value_def code_digit)

lemma digit_chars:
  assumes "(d :: nat) < 10"
  shows "char_of (48 + d) \<noteq> CHR ''_''" "char_of (48 + d) \<noteq> CHR ''-''" "char_of (48 + d) \<noteq> CHR ''+''"
    "0 < d \<Longrightarrow> char_of (48 + d) \<noteq> CHR ''0''"
proof -
  have c: "code CHR ''_'' = 95" "code CHR ''-'' = 45" "code CHR ''+'' = 43" "code CHR ''0'' = 48" by (simp_all add: code_def)
  show "char_of (48 + d) \<noteq> CHR ''_''" using c(1) code_digit [OF assms] assms by (intro notI) simp
  show "char_of (48 + d) \<noteq> CHR ''-''" using c(2) code_digit [OF assms] assms by (intro notI) simp
  show "char_of (48 + d) \<noteq> CHR ''+''" using c(3) code_digit [OF assms] assms by (intro notI) simp
  show "char_of (48 + d) \<noteq> CHR ''0''" if "0 < d" using c(4) code_digit [OF assms] that by (intro notI) simp
qed

lemmas digit_no_separator = digit_chars(1)

lemma parse_digits_append:
  "parse_digits b (xs @ ys) n = (case parse_digits b xs n of None \<Rightarrow> None | Some m \<Rightarrow> parse_digits b ys m)"
  by (induction xs arbitrary: n) (auto split: option.split)

lemma parse_digits_digits: "m < 2 ^ 64 \<Longrightarrow> parse_digits 10 (digits m) 0 = Some m"
proof (induction m rule: digits.induct)
  case (1 m)
  show ?case
  proof (cases "m < 10")
    case True
    then show ?thesis by (subst digits.simps) (simp add: digit_value_digit digit_no_separator)
  next
    case False
    have d: "m mod 10 < 10" "m div 10 * 10 + m mod 10 = m" by simp_all
    have "parse_digits 10 (digits (m div 10)) 0 = Some (m div 10)" using 1 False by simp
    then show ?thesis
      using False 1(2) d by (subst digits.simps) (simp add: parse_digits_append digit_value_digit digit_no_separator)
  qed
qed

lemma digits_start: "0 < m \<Longrightarrow> \<exists>d cs. digits m = char_of (48 + d) # cs \<and> 0 < d \<and> d < (10 :: nat)"
proof (induction m rule: digits.induct)
  case (1 m)
  show ?case
  proof (cases "m < 10")
    case True
    then show ?thesis using 1(2) by (subst digits.simps) (auto intro!: exI [of _ m])
  next
    case False
    then have "0 < m div 10" by simp
    then obtain d :: nat and cs where "digits (m div 10) = char_of (48 + d) # cs" "0 < d" "d < 10" using 1(1) False by auto
    then show ?thesis using False by (subst digits.simps) (auto intro!: exI [of _ d])
  qed
qed

lemma digits_no_separator: "CHR ''_'' \<notin> set (digits m)"
proof (induction m rule: digits.induct)
  case (1 m)
  then show ?case
    using digit_no_separator [of "m mod 10"] digit_no_separator [of m] by (subst digits.simps) auto
qed

lemma ParseUint_digits:
  assumes "m < 2 ^ 64"
  shows "ParseUint (digits m) = Some m"
proof (cases "m = 0")
  case True
  have "digits 0 = ''0''" by code_simp
  then show ?thesis using True by (simp add: ParseUint_def base_prefix_def)
next
  case False
  then obtain d :: nat and cs where d: "digits m = char_of (48 + d) # cs" "0 < d" "d < 10" using digits_start [of m] by auto
  then have "base_prefix (digits m) = (10, digits m)" using digit_chars(4) [OF d(3)] by (simp add: base_prefix_def)
  then show ?thesis
    using parse_digits_digits [OF assms] digits_no_separator [of m] d(1) by (simp add: ParseUint_def)
qed

lemma digits_no_sign: "take 1 (digits m) \<noteq> ''-''" "take 1 (digits m) \<noteq> ''+''" "digits m \<noteq> []"
proof -
  have "\<exists>d cs. digits m = char_of (48 + d) # cs \<and> d < (10 :: nat)"
  proof (cases "m = 0")
    case True
    then show ?thesis by (subst digits.simps) (auto intro!: exI [of _ 0])
  next
    case False
    then show ?thesis using digits_start [of m] by auto
  qed
  then obtain d :: nat and cs where d: "digits m = char_of (48 + d) # cs" "d < 10" by blast
  then show "take 1 (digits m) \<noteq> ''-''" "take 1 (digits m) \<noteq> ''+''" "digits m \<noteq> []"
    using digit_chars(2,3) [OF d(2)] by simp_all
qed

lemma ParseInt_decimal:
  assumes "- (2 ^ 63) \<le> n" "n < 2 ^ 63"
  shows "ParseInt (decimal n) = Some n"
proof (cases "n < 0")
  case True
  then have "ParseUint (digits (nat (- n))) = Some (nat (- n))" using assms by (intro ParseUint_digits) simp
  then show ?thesis using True assms by (simp add: ParseInt_def decimal_def nat_less_iff)
next
  case False
  then have "ParseUint (digits (nat n)) = Some (nat n)" using assms by (intro ParseUint_digits) simp
  then show ?thesis using False assms digits_no_sign [of "nat n"] by (simp add: ParseInt_def decimal_def nat_less_iff le_nat_iff)
qed

text \<open>The two forms \<open>--name=value\<close> and \<open>-name value\<close>.\<close>

lemma Parse_flag:
  assumes "map_of formal name = Some good" "good v" "name \<noteq> ''''" "hd name \<noteq> CHR ''-''" "CHR ''='' \<notin> set name"
  shows "Parse formal ((''--'' @ name @ ''='' @ v) # args) vals = Parse formal args ((name, v) # vals)"
    "Parse formal ((''-'' @ name) # v # args) vals = Parse formal args ((name, v) # vals)"
proof -
  obtain c cs where "name = c # cs" using assms(3) by (cases name) simp_all
  then have h: "hd (name @ CHR ''='' # v) = hd name" "hd name \<noteq> CHR ''=''" "0 < length name"
    using assms(5) by auto
  have w: "takeWhile (\<lambda>c. c \<noteq> CHR ''='') (name @ CHR ''='' # v) = name"
    "dropWhile (\<lambda>c. c \<noteq> CHR ''='') (name @ CHR ''='' # v) = CHR ''='' # v"
    "takeWhile (\<lambda>c. c \<noteq> CHR ''='') name = name" "dropWhile (\<lambda>c. c \<noteq> CHR ''='') name = ''''"
    using assms(5) by (auto simp: takeWhile_append dropWhile_append)
  have t: "take 1 name \<noteq> ''-''" "name \<noteq> ''-''" using assms(3,4) by (cases name; auto)+
  show "Parse formal ((''--'' @ name @ ''='' @ v) # args) vals = Parse formal args ((name, v) # vals)"
    using assms h by (simp add: flag_name_def Let_def w)
  show "Parse formal ((''-'' @ name) # v # args) vals = Parse formal args ((name, v) # vals)"
    using assms h t by (simp add: flag_name_def Let_def w)
qed

end
