(* ===== verification/Radiance_Timer.thy ===== *)
theory Radiance_Timer
  imports Radiance_Safety Flags
begin

text \<open>
  The election timers of \<open>pkg/consensus/raft_node.go\<close>. \<open>Radiance\<close> leaves the field \<open>electionDeadline\<close>
  out and lets a timeout fire at any time; here the deadline of every node is kept beside the group
  of \<open>Radiance_Cluster\<close>, every critical section runs at a time, and the loop fires when that time is
  after the deadline. Durations and times are in nanoseconds, as in \<open>time.Duration\<close>. The clock is
  read once per critical section. The runs with timers are runs of the group, the deadlines stay
  within their bounds, a follower that hears nothing stands for election, and a leader whose
  followers hear from it in time stays the leader.
\<close>

text \<open>How \<open>raft_types.go\<close> names a node in a log line.\<close>

definition fmtNode :: "int \<Rightarrow> int \<Rightarrow> Role \<Rightarrow> string" where
  "fmtNode i t role = ''[Node '' @ decimal i @ '' | Term '' @ decimal t @ '' | '' @ Role_String role @ '']''"

section \<open>Deadlines\<close>

definition Millisecond :: int where
  "Millisecond = 1000000"

definition MinElectionTimeout :: int where
  "MinElectionTimeout = 150 * Millisecond"

definition MaxElectionTimeout :: int where
  "MaxElectionTimeout = 300 * Millisecond"

text \<open>\<open>rnd.Int63n(n)\<close> is the remainder by \<open>n\<close> of a random number, the argument \<open>draw\<close>.\<close>

definition randomElectionDuration :: "nat \<Rightarrow> int" where
  "randomElectionDuration draw =
     (let delta = MaxElectionTimeout - MinElectionTimeout;
          extra = int draw mod delta
      in MinElectionTimeout + extra)"

definition resetElectionTimeout :: "int \<Rightarrow> nat \<Rightarrow> int" where
  "resetElectionTimeout now draw = now + randomElectionDuration draw"

text \<open>
  Whether a critical section resets the deadline: \<open>RequestVote\<close> when it makes the node a follower of
  a new term or grants the vote, \<open>AppendEntries\<close> unless the term of the sender is over, and the
  goroutines behind the RPCs when they make the node a follower.
\<close>

definition RequestVote_resets :: "RequestVoteArgs \<Rightarrow> RaftNode \<Rightarrow> bool" where
  "RequestVote_resets args r \<longleftrightarrow> rn_currentTerm r < rv_Term args
     \<or> (case RequestVote args r of None \<Rightarrow> False | Some (_, reply) \<Rightarrow> vr_VoteGranted reply)"

definition AppendEntries_resets :: "AppendEntriesArgs \<Rightarrow> RaftNode \<Rightarrow> bool" where
  "AppendEntries_resets args r \<longleftrightarrow> rn_currentTerm r \<le> ae_Term args"

definition vote_reply_resets :: "nat \<Rightarrow> RequestVoteReply \<Rightarrow> RaftNode \<Rightarrow> bool" where
  "vote_reply_resets t reply r \<longleftrightarrow> rn_role r = Candidate \<and> rn_currentTerm r = t \<and> rn_currentTerm r < vr_Term reply"

definition append_reply_resets :: "nat \<Rightarrow> AppendEntriesReply \<Rightarrow> RaftNode \<Rightarrow> bool" where
  "append_reply_resets t reply r \<longleftrightarrow> rn_role r = Leader \<and> rn_currentTerm r = t \<and> rn_currentTerm r < ar_Term reply"

section \<open>The group with timers\<close>

text \<open>The node whose deadline is reset when a message is handed over, and when anything happens.\<close>

fun packet_resets :: "packet \<Rightarrow> cluster \<Rightarrow> int option" where
  "packet_resets (VoteReq i p args) c =
     (case mn_nodes (cl_mock c) p of
        Some (Some node) \<Rightarrow> if RequestVote_resets args (cl_nodes c node) then Some node else None
      | _ \<Rightarrow> None)"
| "packet_resets (AppReq i p args) c =
     (case mn_nodes (cl_mock c) p of
        Some (Some node) \<Rightarrow> if AppendEntries_resets args (cl_nodes c node) then Some node else None
      | _ \<Rightarrow> None)"
| "packet_resets (VoteRep i p args reply) c =
     (if (i, rv_Term args, p) \<notin> set (cl_finished c) \<and> vote_reply_resets (rv_Term args) reply (cl_nodes c i)
      then Some i else None)"
| "packet_resets (AppRep i p args reply) c =
     (if append_reply_resets (ae_Term args) reply (cl_nodes c i) then Some i else None)"

fun event_resets :: "event \<Rightarrow> cluster \<Rightarrow> int option" where
  "event_resets (Tick i expired) c =
     (if \<not> rn_killed (cl_nodes c i) \<and> rn_role (cl_nodes c i) \<noteq> Leader \<and> expired then Some i else None)"
| "event_resets (Deliver n) c = (if n < length (cl_net c) then packet_resets (cl_net c ! n) c else None)"
| "event_resets _ c = None"

text \<open>\<open>tg_reset\<close> records for every node when its deadline was last reset; the code does not keep it.\<close>

record timed_group =
  tg_group :: cluster
  tg_deadline :: "int \<Rightarrow> int"
  tg_reset :: "int \<Rightarrow> int"

text \<open>The loop decides by the clock whether the deadline has passed.\<close>

fun by_clock :: "int \<Rightarrow> (int \<Rightarrow> int) \<Rightarrow> event \<Rightarrow> event" where
  "by_clock now deadline (Tick i _) = Tick i (deadline i < now)"
| "by_clock now deadline e = e"

type_synonym timed_event = "int \<times> nat \<times> event"

fun set_timer :: "int \<Rightarrow> nat \<Rightarrow> int option \<Rightarrow> timed_group \<Rightarrow> timed_group" where
  "set_timer now draw None g = g"
| "set_timer now draw (Some i) g =
     g\<lparr>tg_deadline := (tg_deadline g)(i := resetElectionTimeout now draw), tg_reset := (tg_reset g)(i := now)\<rparr>"

fun timed_happen :: "timed_event \<Rightarrow> timed_group \<Rightarrow> timed_group option" where
  "timed_happen (now, draw, e) g =
     (let e' = by_clock now (tg_deadline g) e
      in map_option (\<lambda>c. set_timer now draw (event_resets e' (tg_group g)) (g\<lparr>tg_group := c\<rparr>))
           (happen e' (tg_group g)))"

declare timed_happen.simps [simp del]

fun timed_run :: "timed_event list \<Rightarrow> timed_group \<Rightarrow> timed_group option" where
  "timed_run [] g = Some g"
| "timed_run (te # tes) g = (case timed_happen te g of None \<Rightarrow> None | Some g' \<Rightarrow> timed_run tes g')"

definition timed_boot :: "int \<Rightarrow> (int \<Rightarrow> nat) \<Rightarrow> int list \<Rightarrow> timed_group" where
  "timed_boot now draws ns =
     \<lparr>tg_group = boot ns, tg_deadline = (\<lambda>i. resetElectionTimeout now (draws i)), tg_reset = (\<lambda>_. now)\<rparr>"

definition timed_events_of :: "int list \<Rightarrow> timed_event list \<Rightarrow> bool" where
  "timed_events_of ns tes \<longleftrightarrow> events_of ns (map (snd \<circ> snd) tes)"

text \<open>The deadlines lie between the two timeouts behind the last reset.\<close>

definition deadlines_ok :: "timed_group \<Rightarrow> bool" where
  "deadlines_ok g \<longleftrightarrow> (\<forall>i. MinElectionTimeout \<le> tg_deadline g i - tg_reset g i
     \<and> tg_deadline g i - tg_reset g i < MaxElectionTimeout)"

lemmas timeout_defs = MinElectionTimeout_def MaxElectionTimeout_def Millisecond_def

lemma randomElectionDuration_bounds:
  "MinElectionTimeout \<le> randomElectionDuration draw" "randomElectionDuration draw < MaxElectionTimeout"
  by (simp_all add: randomElectionDuration_def timeout_defs)

lemma timed_boot_ok: "deadlines_ok (timed_boot now draws ns)" "tg_group (timed_boot now draws ns) = boot ns"
  using randomElectionDuration_bounds by (simp_all add: deadlines_ok_def timed_boot_def resetElectionTimeout_def)

lemma concerns_by_clock [simp]: "concerns (by_clock now dl e) = concerns e"
  by (cases e) simp_all

lemma set_timer_group [simp]: "tg_group (set_timer now draw i g) = tg_group g"
  by (cases i) simp_all

lemma set_timer_ok: "deadlines_ok g \<Longrightarrow> deadlines_ok (set_timer now draw i g)"
  using randomElectionDuration_bounds by (cases i) (simp_all add: deadlines_ok_def resetElectionTimeout_def)

lemma timed_happen_group:
  "map_option tg_group (timed_happen (now, draw, e) g) = happen (by_clock now (tg_deadline g) e) (tg_group g)"
  unfolding timed_happen.simps Let_def option.map_comp comp_def by (simp add: option.map_ident)

lemma timed_happen_deadlines:
  assumes "deadlines_ok g" "timed_happen te g = Some g'"
  shows "deadlines_ok g'"
proof -
  obtain now draw e where te: "te = (now, draw, e)" by (cases te)
  have "deadlines_ok (g\<lparr>tg_group := c\<rparr>)" for c using assms(1) by (simp add: deadlines_ok_def)
  then show ?thesis using assms(2) set_timer_ok unfolding te timed_happen.simps Let_def by auto
qed

lemma timed_run_group:
  assumes "timed_events_of ns tes" "deadlines_ok g" "sim (set ns) (tg_group g) s"
  shows "\<exists>g' es. timed_run tes g = Some g' \<and> events_of ns es \<and> length es = length tes
    \<and> run es (tg_group g) = Some (tg_group g') \<and> deadlines_ok g'"
  using assms
proof (induction tes arbitrary: g s)
  case (Cons te tes)
  obtain now draw e where te: "te = (now, draw, e)" by (cases te)
  let ?e = "by_clock now (tg_deadline g) e"
  have ev: "set (concerns ?e) \<subseteq> set ns" "timed_events_of ns tes"
    using Cons.prems(1) by (auto simp: timed_events_of_def events_of_def te)
  obtain c s' where c: "happen ?e (tg_group g) = Some c" "sim (set ns) c s'"
    using happen_sim [OF Cons.prems(3) ev(1)] by blast
  then obtain g1 where g1: "timed_happen te g = Some g1" "tg_group g1 = c"
    using timed_happen_group [of now draw e g] by (auto simp: te)
  have "sim (set ns) (tg_group g1) s'" using c(2) g1(2) by simp
  from Cons.IH [OF ev(2) timed_happen_deadlines [OF Cons.prems(2) g1(1)] this]
  obtain g' es where g': "timed_run tes g1 = Some g'" "events_of ns es" "length es = length tes"
    "run es c = Some (tg_group g')" "deadlines_ok g'"
    using g1(2) by auto
  have "events_of ns (?e # es)" using ev(1) g'(2) by (simp add: events_of_def)
  then show ?case using g' g1 c(1) by (intro exI [of _ g'] exI [of _ "?e # es"]) simp
qed (auto simp: events_of_def)

section \<open>Timeouts\<close>

text \<open>Node 1 times out after 400 milliseconds and is elected by node 2; nodes 2 and 3 hear of it.\<close>

definition timed_meeting :: "timed_event list" where
  "timed_meeting = [(0, 0, Register 1), (0, 0, Register 2), (0, 0, Register 3),
     (400 * Millisecond, 7, Tick 1 False), (401 * Millisecond, 7, Deliver 0), (402 * Millisecond, 7, Deliver 2),
     (403 * Millisecond, 7, Deliver 3), (403 * Millisecond, 7, Deliver 4)]"

lemma timed_reached:
  assumes "numbering ns" "timed_events_of ns tes" "timed_run tes (timed_boot now draws ns) = Some g"
  shows "\<exists>s. sim (set ns) (tg_group g) s" "deadlines_ok g"
proof -
  have "sim (set ns) (tg_group (timed_boot now draws ns)) core_init" using boot_sim [OF assms(1)] timed_boot_ok(2) by simp
  from timed_run_group [OF assms(2) timed_boot_ok(1) this] obtain es where
    "events_of ns es" "run es (boot ns) = Some (tg_group g)" "deadlines_ok g"
    using assms(3) by (auto simp: timed_boot_ok(2))
  then show "\<exists>s. sim (set ns) (tg_group g) s" "deadlines_ok g" using reached [OF assms(1)] by blast+
qed

lemma startElection_stands:
  assumes "node_ok ids s fin i r" "core_inv ids s" "i \<in> ids" "rn_peers r \<noteq> []"
  shows "\<exists>r' calls. startElection r = Some (r', calls) \<and> rn_role r' = Candidate
    \<and> rn_currentTerm r' = Suc (rn_currentTerm r) \<and> rn_votedFor r' = i
    \<and> (\<forall>p \<in> ids - {i}. \<exists>args. VoteCall p args \<in> set calls \<and> rv_Term args = Suc (rn_currentTerm r) \<and> rv_CandidateID args = i)"
proof -
  have r: "rn_id r = i" "set (rn_peers r) = ids - {i}" using assms(1) unfolding node_ok_def by blast+
  have "c_log s i = rn_log r" using assms(1) by (simp add: node_ok_def same_node_def)
  then have "rn_log r \<noteq> []" using inv_node_log(1) [OF assms(2,3)] by (auto simp: wf_log_def)
  moreover have "\<not> majorityNeeded r \<le> 1" using assms(4) by (cases "rn_peers r") (simp_all add: majorityNeeded_def)
  ultimately show ?thesis using r by (auto simp: startElection_def Let_def majorityNeeded_def)
qed

text \<open>
  C23: A node of a group of at least two that runs, does not lead and whose deadline was last reset
  300 milliseconds ago or earlier stands for election when its loop runs next: it enters the next
  term, votes for itself, asks every other node for its vote and resets its deadline. If the last
  reset is not more than 150 milliseconds ago, the loop changes nothing.
\<close>

theorem election_timeout_bounds:
  assumes "numbering ns" "timed_events_of ns tes" "timed_run tes (timed_boot now0 draws ns) = Some g"
    and "i \<in> set ns" "1 < length ns" "\<not> rn_killed (cl_nodes (tg_group g) i)" "rn_role (cl_nodes (tg_group g) i) \<noteq> Leader"
  shows "(tg_reset g i + 300 * Millisecond \<le> now \<longrightarrow>
      (\<exists>g'. timed_happen (now, draw, Tick i b) g = Some g' \<and> tg_reset g' i = now
        \<and> rn_role (cl_nodes (tg_group g') i) = Candidate \<and> rn_votedFor (cl_nodes (tg_group g') i) = i
        \<and> rn_currentTerm (cl_nodes (tg_group g') i) = Suc (rn_currentTerm (cl_nodes (tg_group g) i))
        \<and> (\<forall>p \<in> set ns - {i}. \<exists>args. VoteReq i p args \<in> set (cl_net (tg_group g'))
             \<and> rv_Term args = Suc (rn_currentTerm (cl_nodes (tg_group g) i)))))
    \<and> (now \<le> tg_reset g i + 150 * Millisecond \<longrightarrow> timed_happen (now, draw, Tick i b) g = Some g)"
proof -
  let ?r = "cl_nodes (tg_group g) i"
  obtain s where s: "sim (set ns) (tg_group g) s" using timed_reached(1) [OF assms(1-3)] by blast
  have dl: "MinElectionTimeout \<le> tg_deadline g i - tg_reset g i" "tg_deadline g i - tg_reset g i < MaxElectionTimeout"
    using timed_reached(2) [OF assms(1-3)] by (auto simp: deadlines_ok_def)
  note n = sim_node [OF s assms(4)]
  have "set ns \<noteq> {i}" using assms(1,4,5) distinct_card [of ns] by (auto simp: numbering_def)
  then have "set ns - {i} \<noteq> {}" using assms(4) by blast
  moreover have "set (rn_peers ?r) = set ns - {i}" using n(2) unfolding node_ok_def by (elim conjE)
  ultimately have "rn_peers ?r \<noteq> []" by (metis set_empty)
  from startElection_stands [OF n(2,1) assms(4) this] obtain r' calls where
    r': "startElection ?r = Some (r', calls)" "rn_role r' = Candidate" "rn_currentTerm r' = Suc (rn_currentTerm ?r)"
      "rn_votedFor r' = i" and calls: "\<forall>p \<in> set ns - {i}. \<exists>args. VoteCall p args \<in> set calls
        \<and> rv_Term args = Suc (rn_currentTerm ?r) \<and> rv_CandidateID args = i" by blast
  let ?c = "leave i (r', calls) (tg_group g)"
  have c: "cl_nodes ?c i = r'" "set (cl_net ?c) = set (cl_net (tg_group g)) \<union> request i ` set calls"
    by (simp_all add: leave_def)
  have req: "\<exists>args. VoteReq i p args \<in> set (cl_net ?c) \<and> rv_Term args = Suc (rn_currentTerm ?r)" if p: "p \<in> set ns - {i}" for p
  proof -
    obtain args where "VoteCall p args \<in> set calls" "rv_Term args = Suc (rn_currentTerm ?r)" using calls p by blast
    then show ?thesis unfolding c(2) using image_eqI [of "VoteReq i p args" "request i" "VoteCall p args"] by auto
  qed
  have fires: "\<exists>g'. timed_happen (now, draw, Tick i b) g = Some g' \<and> tg_reset g' i = now \<and> tg_group g' = ?c"
    if late: "tg_reset g i + 300 * Millisecond \<le> now"
  proof -
    have "tg_deadline g i < now" using late dl(2) by (simp add: MaxElectionTimeout_def)
    then show ?thesis using r'(1) assms(6,7) by (simp add: timed_happen.simps Let_def election_tick_def)
  qed
  have waits: "timed_happen (now, draw, Tick i b) g = Some g" if early: "now \<le> tg_reset g i + 150 * Millisecond"
  proof -
    have "\<not> tg_deadline g i < now" using early dl(1) by (simp add: MinElectionTimeout_def)
    then show ?thesis using assms(6,7) by (simp add: timed_happen.simps Let_def election_tick_def leave_def)
  qed
  show ?thesis
  proof (intro conjI impI)
    assume "tg_reset g i + 300 * Millisecond \<le> now"
    then obtain g' where "timed_happen (now, draw, Tick i b) g = Some g'" "tg_reset g' i = now" "tg_group g' = ?c"
      using fires by blast
    then show "\<exists>g'. timed_happen (now, draw, Tick i b) g = Some g' \<and> tg_reset g' i = now
        \<and> rn_role (cl_nodes (tg_group g') i) = Candidate \<and> rn_votedFor (cl_nodes (tg_group g') i) = i
        \<and> rn_currentTerm (cl_nodes (tg_group g') i) = Suc (rn_currentTerm ?r)
        \<and> (\<forall>p \<in> set ns - {i}. \<exists>args. VoteReq i p args \<in> set (cl_net (tg_group g'))
             \<and> rv_Term args = Suc (rn_currentTerm ?r))"
      using r' c(1) req by (intro exI [of _ g']) simp
  qed (rule waits)
qed

lemma timed_meeting_run:
  "\<exists>g. timed_run timed_meeting (timed_boot 0 (\<lambda>_. 5) [1, 2, 3]) = Some g \<and> leads (tg_group g) 1 1
    \<and> map (\<lambda>i. (rn_role (cl_nodes (tg_group g) i), rn_currentTerm (cl_nodes (tg_group g) i), rn_killed (cl_nodes (tg_group g) i), tg_reset g i)) [2, 3]
      = [(Follower, 1, False, 403 * Millisecond), (Follower, 1, False, 403 * Millisecond)]"
proof -
  have "map_option (\<lambda>g. map (\<lambda>i. (rn_role (cl_nodes (tg_group g) i), rn_currentTerm (cl_nodes (tg_group g) i),
        rn_killed (cl_nodes (tg_group g) i), tg_reset g i)) [1, 2, 3])
      (timed_run timed_meeting (timed_boot 0 (\<lambda>_. 5) [1, 2, 3]))
    = Some [(Leader, 1, False, 400 * Millisecond), (Follower, 1, False, 403 * Millisecond), (Follower, 1, False, 403 * Millisecond)]"
    by code_simp
  then show ?thesis by (auto simp: leads_def)
qed

theorem election_timeout_bounds_witness:
  "\<exists>g g'. timed_run timed_meeting (timed_boot 0 (\<lambda>_. 5) [1, 2, 3]) = Some g
    \<and> timed_happen (703 * Millisecond, 9, Tick 2 False) g = Some g' \<and> rn_role (cl_nodes (tg_group g') 2) = Candidate
    \<and> timed_happen (553 * Millisecond, 9, Tick 2 False) g = Some g"
proof -
  have ev: "numbering [1, 2, 3]" "timed_events_of [1, 2, 3] timed_meeting"
    by (simp_all add: numbering_def timed_events_of_def events_of_def timed_meeting_def)
  obtain g where g: "timed_run timed_meeting (timed_boot 0 (\<lambda>_. 5) [1, 2, 3]) = Some g"
    "rn_role (cl_nodes (tg_group g) 2) = Follower" "\<not> rn_killed (cl_nodes (tg_group g) 2)" "tg_reset g 2 = 403 * Millisecond"
    using timed_meeting_run by auto
  have "tg_reset g 2 + 300 * Millisecond \<le> 703 * Millisecond" "553 * Millisecond \<le> tg_reset g 2 + 150 * Millisecond"
    using g(4) by (simp_all add: Millisecond_def)
  then show ?thesis
    using election_timeout_bounds [OF ev g(1), of 2 "703 * Millisecond" 9 False]
      election_timeout_bounds [OF ev g(1), of 2 "553 * Millisecond" 9 False] g(1,2,3) by auto
qed

section \<open>A leader that is heard\<close>

fun packet_within :: "nat \<Rightarrow> packet \<Rightarrow> bool" where
  "packet_within t (VoteReq i p args) \<longleftrightarrow> rv_Term args \<le> t"
| "packet_within t (VoteRep i p args reply) \<longleftrightarrow> vr_Term reply \<le> t"
| "packet_within t (AppReq i p args) \<longleftrightarrow> ae_Term args \<le> t"
| "packet_within t (AppRep i p args reply) \<longleftrightarrow> ar_Term reply \<le> t"

text \<open>Node \<open>l\<close> leads in term \<open>t\<close>, and no node and no message is beyond that term.\<close>

definition settled :: "int list \<Rightarrow> nat \<Rightarrow> int \<Rightarrow> cluster \<Rightarrow> bool" where
  "settled ns t l c \<longleftrightarrow> leads c t l \<and> (\<forall>i \<in> set ns. rn_currentTerm (cl_nodes c i) \<le> t)
     \<and> (\<forall>pk \<in> set (cl_net c). packet_within t pk)"

text \<open>The loop of no node but a leader runs later than 150 milliseconds after the last reset of its deadline.\<close>

fun heard_in_time :: "timed_event list \<Rightarrow> timed_group \<Rightarrow> bool" where
  "heard_in_time [] g \<longleftrightarrow> True"
| "heard_in_time (te # tes) g \<longleftrightarrow>
     (case te of (now, draw, Tick i b) \<Rightarrow>
        rn_role (cl_nodes (tg_group g) i) = Leader \<or> now \<le> tg_reset g i + MinElectionTimeout | _ \<Rightarrow> True)
     \<and> (case timed_happen te g of None \<Rightarrow> True | Some g' \<Rightarrow> heard_in_time tes g')"

lemma heartbeat_calls_within:
  "heartbeat_calls r ps = Some calls \<Longrightarrow> rn_currentTerm r \<le> t \<Longrightarrow> call \<in> set calls \<Longrightarrow> packet_within t (request i call)"
  by (induction ps arbitrary: calls) (auto simp: heartbeat_call_def Let_def split: option.splits if_splits)

lemma broadcast_within:
  "broadcastHeartbeats r = Some calls \<Longrightarrow> rn_currentTerm r \<le> t \<Longrightarrow> call \<in> set calls \<Longrightarrow> packet_within t (request i call)"
  using heartbeat_calls_within by (auto simp: broadcastHeartbeats_def split: if_splits)

text \<open>What a section that sees only terms up to \<open>t\<close> makes of a node: a leader of term \<open>t\<close> stays one.\<close>

definition kept :: "nat \<Rightarrow> RaftNode \<Rightarrow> RaftNode \<Rightarrow> bool" where
  "kept t r r' \<longleftrightarrow> rn_currentTerm r' \<le> t
     \<and> (rn_role r = Leader \<and> rn_currentTerm r = t \<longrightarrow> rn_role r' = Leader \<and> rn_currentTerm r' = t)"

lemma RequestVote_kept:
  assumes "RequestVote args r = Some (r', reply)" "rv_Term args \<le> t" "rn_currentTerm r \<le> t"
  shows "kept t r r'" "vr_Term reply \<le> t"
  using assms by (auto simp: RequestVote_def Let_def becomeFollower_def kept_def split: if_splits)

lemma AppendEntries_kept:
  assumes "AppendEntries args r = Some (r', reply)" "ae_Term args \<le> t" "rn_currentTerm r \<le> t"
    and "\<not> (rn_role r = Leader \<and> rn_currentTerm r = t \<and> ae_Term args = t)"
  shows "kept t r r'" "ar_Term reply \<le> t"
proof -
  show "kept t r r'"
  proof (cases "ae_Term args < rn_currentTerm r")
    case True
    then have "r' = r" using assms(1) by (simp add: AppendEntries_def Let_def)
    then show ?thesis using assms(3) by (simp add: kept_def)
  next
    case False
    then have "rn_currentTerm r' = ae_Term args" using AppendEntries_answer [OF assms(1)] by simp
    then show ?thesis using assms False by (auto simp: kept_def)
  qed
  show "ar_Term reply \<le> t"
  proof (cases "ae_Term args < rn_currentTerm r")
    case True
    then show ?thesis using assms(1,3) by (auto simp: AppendEntries_def Let_def)
  next
    case False
    then show ?thesis using AppendEntries_answer [OF assms(1)] assms(2) by simp
  qed
qed

lemma vote_reply_kept:
  assumes "vote_reply u reply r = Some (r', calls)" "vr_Term reply \<le> t" "rn_currentTerm r \<le> t"
  shows "kept t r r'" "\<forall>call \<in> set calls. packet_within t (request i call)"
  using assms broadcast_within [of _ calls t _ i]
  by (auto simp: vote_reply_def becomeLeader_def Let_def becomeFollower_def kept_def split: if_splits)

lemma append_reply_kept:
  assumes "append_reply u p n k reply r = Some r'" "ar_Term reply \<le> t" "rn_currentTerm r \<le> t"
  shows "kept t r r'"
  using assms advance_from_keeps
  by (fastforce simp: append_reply_def checkAdvanceCommitIndex_def becomeFollower_def kept_def split: if_splits)

lemma settled_update:
  assumes "settled ns t l c" "kept t (cl_nodes c i) r" "\<forall>pk \<in> set pks. packet_within t pk"
    and "cl_nodes c' = (cl_nodes c)(i := r)" "cl_net c' = cl_net c @ pks"
  shows "settled ns t l c'"
  using assms by (auto simp: settled_def leads_def kept_def)

lemma settled_leave:
  assumes "settled ns t l c" "kept t (cl_nodes c i) r" "\<forall>call \<in> set calls. packet_within t (request i call)"
  shows "settled ns t l (leave i (r, calls) c)"
  by (rule settled_update [OF assms(1,2), of "map (request i) calls"]) (use assms(3) in \<open>auto simp: leave_def\<close>)

lemma kept_refl: "rn_currentTerm r \<le> t \<Longrightarrow> kept t r r"
  by (simp add: kept_def)

lemma settled_vote:
  assumes sm: "sim (set ns) c s" and se: "settled ns t l c" and p: "packet_ok (set ns) s (VoteReq i p args)" "rv_Term args \<le> t"
    and d: "deliver (VoteReq i p args) c = Some c'"
  shows "settled ns t l c'"
proof (cases "mn_nodes (cl_mock c) p = Some (Some p)")
  case True
  then obtain r reply where r: "RequestVote args (cl_nodes c p) = Some (r, reply)"
    "c' = c\<lparr>cl_nodes := (cl_nodes c)(p := r), cl_net := cl_net c @ [VoteRep i p args reply]\<rparr>"
    using d by (auto simp: SendRequestVote_def)
  have "rn_currentTerm (cl_nodes c p) \<le> t" using p(1) se by (auto simp: settled_def)
  note k = RequestVote_kept [OF r(1) p(2) this]
  show ?thesis by (rule settled_update [OF se k(1), of "[VoteRep i p args reply]"]) (simp_all add: r(2) k(2))
next
  case False
  then have "c' = c" using d sm by (auto simp: SendRequestVote_def sim_def split: option.splits)
  then show ?thesis using se by simp
qed

lemma settled_append:
  assumes sm: "sim (set ns) c s" and se: "settled ns t l c" and p: "packet_ok (set ns) s (AppReq i p args)" "ae_Term args \<le> t"
    and d: "deliver (AppReq i p args) c = Some c'"
  shows "settled ns t l c'"
proof (cases "mn_nodes (cl_mock c) p = Some (Some p)")
  case True
  then obtain r reply where r: "AppendEntries args (cl_nodes c p) = Some (r, reply)"
    "c' = c\<lparr>cl_nodes := (cl_nodes c)(p := r), cl_net := cl_net c @ [AppRep i p args reply]\<rparr>"
    using d by (auto simp: SendAppendEntries_def)
  have p': "p \<in> set ns" "p \<noteq> i" "c_lead s (ae_Term args) = Some i" using p(1) by (auto simp: append_ok_def)
  have "\<not> (rn_role (cl_nodes c p) = Leader \<and> rn_currentTerm (cl_nodes c p) = t \<and> ae_Term args = t)"
    using sim_leads(1) [OF sm p'(1), of t] p'(2,3) by (auto simp: leads_def)
  moreover have "rn_currentTerm (cl_nodes c p) \<le> t" using p'(1) se by (auto simp: settled_def)
  ultimately have k: "kept t (cl_nodes c p) r" "ar_Term reply \<le> t" using AppendEntries_kept [OF r(1) p(2)] by blast+
  show ?thesis by (rule settled_update [OF se k(1), of "[AppRep i p args reply]"]) (simp_all add: r(2) k(2))
next
  case False
  then have "c' = c" using d sm by (auto simp: SendAppendEntries_def sim_def split: option.splits)
  then show ?thesis using se by simp
qed

lemma settled_deliver:
  assumes sm: "sim (set ns) c s" and se: "settled ns t l c" and pk: "pk \<in> set (cl_net c)" and d: "deliver pk c = Some c'"
  shows "settled ns t l c'"
proof -
  have ok: "packet_ok (set ns) s pk" using sm pk by (simp add: sim_def)
  have w: "packet_within t pk" using se pk by (simp add: settled_def)
  show ?thesis
  proof (cases pk)
    case (VoteReq i p args)
    then show ?thesis using settled_vote [OF sm se] ok w d by simp
  next
    case (AppReq i p args)
    then show ?thesis using settled_append [OF sm se] ok w d by simp
  next
    case (VoteRep i p args reply)
    have le: "rn_currentTerm (cl_nodes c i) \<le> t" "vr_Term reply \<le> t" using VoteRep ok w se by (auto simp: settled_def)
    show ?thesis
    proof (cases "(i, rv_Term args, p) \<in> set (cl_finished c)")
      case True
      then show ?thesis using d se VoteRep by simp
    next
      case False
      let ?c = "c\<lparr>cl_finished := (i, rv_Term args, p) # cl_finished c\<rparr>"
      obtain r calls where r: "vote_reply (rv_Term args) reply (cl_nodes c i) = Some (r, calls)" "c' = leave i (r, calls) ?c"
        using d False VoteRep by auto
      have "settled ns t l ?c" using se by (simp add: settled_def leads_def)
      from settled_leave [OF this, of i r calls] show ?thesis
        using vote_reply_kept [OF r(1) le(2,1)] r(2) by simp
    qed
  next
    case (AppRep i p args reply)
    have le: "rn_currentTerm (cl_nodes c i) \<le> t" "ar_Term reply \<le> t" using AppRep ok w se by (auto simp: settled_def)
    then show ?thesis using d AppRep settled_leave [OF se append_reply_kept [OF _ le(2,1)], of _ _ _ _ _ "[]"] by auto
  qed
qed

lemma settled_happen:
  assumes sm: "sim (set ns) c s" and se: "settled ns t l c" and e: "set (concerns e) \<subseteq> set ns" "happen e c = Some c'"
    and quiet: "\<And>i expired. e = Tick i expired \<Longrightarrow> \<not> expired \<or> rn_role (cl_nodes c i) = Leader"
  shows "settled ns t l c'"
proof -
  have le: "rn_currentTerm (cl_nodes c i) \<le> t" if "i \<in> set ns" for i using se that by (simp add: settled_def)
  show ?thesis
  proof (cases e)
    case (Tick i expired)
    then have "election_tick expired (cl_nodes c i) = Some (cl_nodes c i, [])" using quiet by (auto simp: election_tick_def)
    then show ?thesis using e(2) Tick se by (auto simp: leave_def settled_def leads_def)
  next
    case (Beat i)
    then obtain calls where "heartbeat_tick (cl_nodes c i) = Some calls" "c' = leave i (cl_nodes c i, calls) c" using e(2) by auto
    then show ?thesis
      using settled_leave [OF se kept_refl, of i calls] broadcast_within [of "cl_nodes c i" calls t _ i] le e(1) Beat
      by (auto simp: heartbeat_tick_def split: if_splits)
  next
    case (Client i key val tomb)
    then obtain r calls x where r: "Submit key val tomb (cl_nodes c i) = Some (r, calls, x)" "c' = leave i (r, calls) c" using e(2) by auto
    have i: "rn_currentTerm (cl_nodes c i) \<le> t" using le e(1) Client by simp
    have "kept t (cl_nodes c i) r" "\<forall>call \<in> set calls. packet_within t (request i call)"
      using r(1) i broadcast_within [of _ calls t _ i] by (auto simp: Submit_def Let_def kept_def split: if_splits)
    then show ?thesis using settled_leave [OF se] r(2) by blast
  next
    case (Shutdown i)
    then show ?thesis using e settled_leave [OF se, of i "Kill (cl_nodes c i)" "[]"] le by (auto simp: kept_def Kill_def)
  next
    case (Register i)
    then show ?thesis using e(2) se by (auto simp: settled_def leads_def)
  next
    case (Deliver n)
    then show ?thesis using e(2) se settled_deliver [OF sm se, of "cl_net c ! n" c'] by (auto split: if_splits)
  qed
qed

lemma settled_run:
  assumes "timed_events_of ns tes" "deadlines_ok g" "sim (set ns) (tg_group g) s" "settled ns t l (tg_group g)"
    and "heard_in_time tes g" "timed_run tes g = Some g'"
  shows "settled ns t l (tg_group g')"
  using assms
proof (induction tes arbitrary: g s)
  case (Cons te tes)
  obtain now draw e where te: "te = (now, draw, e)" by (cases te)
  let ?e = "by_clock now (tg_deadline g) e"
  obtain g1 where g1: "timed_happen te g = Some g1" "timed_run tes g1 = Some g'"
    using Cons.prems(6) by (auto split: option.splits)
  have ev: "set (concerns ?e) \<subseteq> set ns" "timed_events_of ns tes"
    using Cons.prems(1) by (auto simp: timed_events_of_def events_of_def te)
  have h: "happen ?e (tg_group g) = Some (tg_group g1)" using timed_happen_group [of now draw e g] g1(1) te by simp
  then obtain s' where s': "sim (set ns) (tg_group g1) s'" using happen_sim [OF Cons.prems(3) ev(1)] by auto
  have "\<not> expired \<or> rn_role (cl_nodes (tg_group g) i) = Leader" if "?e = Tick i expired" for i expired
  proof -
    have "MinElectionTimeout \<le> tg_deadline g i - tg_reset g i" using Cons.prems(2) by (simp add: deadlines_ok_def)
    then show ?thesis using that Cons.prems(5) by (cases e) (auto simp: te)
  qed
  then have "settled ns t l (tg_group g1)" using settled_happen [OF Cons.prems(3,4) ev(1) h] by blast
  moreover have "heard_in_time tes g1" using Cons.prems(5) g1(1) by simp
  ultimately show ?case
    using Cons.IH [OF ev(2) timed_happen_deadlines [OF Cons.prems(2) g1(1)] s'] g1(2) by blast
qed simp

text \<open>
  C24: A leader that is heard stays the leader. Once a node leads and neither a node nor a message is
  beyond its term, it leads in the same term as long as the loop of no other node runs later than
  150 milliseconds after the last reset of its deadline; every \<open>AppendEntries\<close> of the leader that is
  handed over to a node resets it. Nothing else, old messages included, can depose the leader.
\<close>

theorem heard_leader_stays:
  assumes "numbering ns" "timed_events_of ns tes" "timed_run tes (timed_boot now draws ns) = Some g"
    and "l \<in> set ns" "settled ns t l (tg_group g)"
    and "timed_events_of ns tes'" "heard_in_time tes' g" "timed_run tes' g = Some g'"
  shows "leads (tg_group g') t l \<and> (\<forall>i \<in> set ns. rn_currentTerm (cl_nodes (tg_group g') i) \<le> t)
    \<and> (\<forall>i \<in> set ns. \<forall>args k. mn_nodes (cl_mock (tg_group g')) i = Some (Some i) \<and> k < length (cl_net (tg_group g'))
         \<and> cl_net (tg_group g') ! k = AppReq l i args \<and> ae_Term args = t
         \<longrightarrow> map_option (\<lambda>h. tg_reset h i) (timed_happen (at, draw, Deliver k) g') = Some at)"
proof -
  obtain s where s: "sim (set ns) (tg_group g) s" using timed_reached(1) [OF assms(1-3)] by blast
  note dl = timed_reached(2) [OF assms(1-3)]
  have se: "settled ns t l (tg_group g')" by (rule settled_run [OF assms(6) dl s assms(5,7,8)])
  obtain es where "events_of ns es" "run es (tg_group g) = Some (tg_group g')"
    using timed_run_group [OF assms(6) dl s] assms(8) by auto
  then obtain s' where s': "sim (set ns) (tg_group g') s'" using run_sim [OF s _ order_refl] by fastforce
  have "map_option (\<lambda>h. tg_reset h i) (timed_happen (at, draw, Deliver k) g') = Some at"
    if i: "i \<in> set ns" and k: "mn_nodes (cl_mock (tg_group g')) i = Some (Some i)" "k < length (cl_net (tg_group g'))"
      "cl_net (tg_group g') ! k = AppReq l i args" "ae_Term args = t" for i args k
  proof -
    obtain c where "happen (Deliver k) (tg_group g') = Some c" using happen_sim [OF s', of "Deliver k"] by auto
    moreover have "event_resets (Deliver k) (tg_group g') = Some i"
      using k se i by (auto simp: AppendEntries_resets_def settled_def)
    ultimately show ?thesis by (simp add: timed_happen.simps Let_def del: happen.simps event_resets.simps)
  qed
  then show ?thesis using se unfolding settled_def by blast
qed

text \<open>A heartbeat of node 1 after the election, and the loops of the other nodes 150 milliseconds later.\<close>

definition timed_beat :: "timed_event list" where
  "timed_beat = [(450 * Millisecond, 0, Beat 1), (452 * Millisecond, 3, Deliver 7), (453 * Millisecond, 3, Deliver 8),
     (600 * Millisecond, 0, Tick 2 False), (601 * Millisecond, 0, Tick 3 False)]"

theorem heard_leader_stays_witness:
  "\<exists>g g'. timed_run timed_meeting (timed_boot 0 (\<lambda>_. 5) [1, 2, 3]) = Some g \<and> settled [1, 2, 3] 1 1 (tg_group g)
    \<and> timed_run timed_beat g = Some g' \<and> heard_in_time timed_beat g \<and> leads (tg_group g') 1 1"
proof -
  have ev: "numbering [1, 2, 3]" "timed_events_of [1, 2, 3] timed_meeting" "timed_events_of [1, 2, 3] timed_beat"
    by (simp_all add: numbering_def timed_events_of_def events_of_def timed_meeting_def timed_beat_def)
  have "(case timed_run timed_meeting (timed_boot 0 (\<lambda>_. 5) [1, 2, 3]) of None \<Rightarrow> False
      | Some g \<Rightarrow> settled [1, 2, 3] 1 1 (tg_group g) \<and> heard_in_time timed_beat g \<and> \<not> Option.is_none (timed_run timed_beat g))"
    by code_simp
  then obtain g g' where g: "timed_run timed_meeting (timed_boot 0 (\<lambda>_. 5) [1, 2, 3]) = Some g"
    "settled [1, 2, 3] 1 1 (tg_group g)" "heard_in_time timed_beat g" "timed_run timed_beat g = Some g'"
    by (auto simp: Option.is_none_def split: option.splits)
  have "leads (tg_group g') 1 1"
    using heard_leader_stays [OF ev(1,2) g(1) _ g(2) ev(3) g(3,4)] by simp
  then show ?thesis using g by blast
qed

end
