(* ===== verification/Stagway.thy ===== *)
theory Stagway
  imports Bench Soul Radiance
begin

text \<open>
  The Stagway transport server, \<open>pkg/network/server.go\<close>. A connection is the bytes the client has
  sent and that are not read yet; a turn of the loop of \<open>handleConnection\<close> reads one request off
  them, runs the operation and writes a response. The server holds pointers to the consensus node,
  the MemTable and the log; these objects are the fields of the record, and a nil pointer is
  \<open>None\<close>. What the operating system answers is an argument. \<open>None\<close> as a result is a panic, which
  in Go ends the whole process, whichever goroutine it happens in. An operation here runs alone; the
  mutex of the server, the accept loop and operations that run at the same time are in
  \<open>Stagway_Threads\<close>.
\<close>

section \<open>Data\<close>

datatype stagway_error = ErrServerClosed | ErrNotLeader

datatype net_error = ErrListen | ErrCloseListener

definition OpPut :: byte where "OpPut = 1"
definition OpGet :: byte where "OpGet = 2"
definition OpTombstone :: byte where "OpTombstone = 3"

record StagwayServerOptions =
  so_Addr :: string
  so_NodeID :: int

definition DefaultStagwayServerOptions :: "string \<Rightarrow> int \<Rightarrow> StagwayServerOptions" where
  "DefaultStagwayServerOptions addr nodeID =
     \<lparr>so_Addr = (if addr = '''' then ''127.0.0.1:50051'' else addr), so_NodeID = nodeID\<rparr>"

record StagwayServer =
  sv_opts :: StagwayServerOptions
  sv_listener :: bool
  sv_raft :: "RaftNode option"
  sv_memTable :: "MemTable option"
  sv_wal :: "WAL option"
  sv_running :: bool

definition NewStagwayServer ::
  "StagwayServerOptions \<Rightarrow> RaftNode option \<Rightarrow> MemTable option \<Rightarrow> WAL option \<Rightarrow> StagwayServer" where
  "NewStagwayServer opts raft memTable wal =
     \<lparr>sv_opts = opts, sv_listener = False, sv_raft = raft, sv_memTable = memTable, sv_wal = wal,
      sv_running = False\<rparr>"

section \<open>Starting and stopping\<close>

text \<open>\<open>sv_listener\<close> says whether the listener is set; \<open>listen_ok\<close> and \<open>close_ok\<close> whether the calls succeed.\<close>

definition Start :: "bool \<Rightarrow> StagwayServer \<Rightarrow> StagwayServer \<times> net_error option" where
  "Start listen_ok s =
     (if \<not> listen_ok then (s, Some ErrListen)
      else (s\<lparr>sv_listener := True, sv_running := True\<rparr>, None))"

definition Stop :: "bool \<Rightarrow> StagwayServer \<Rightarrow> StagwayServer \<times> net_error option" where
  "Stop close_ok s =
     (if \<not> sv_running s then (s, None)
      else let s1 = s\<lparr>sv_running := False\<rparr> in
        if sv_listener s1 then (s1, if close_ok then None else Some ErrCloseListener) else (s1, None))"

section \<open>Operations\<close>

text \<open>
  The write to the log and the write to the MemTable, each under the mutex of its own; the results of
  both are ignored.
\<close>

definition log_part :: "io \<Rightarrow> bytes \<Rightarrow> bytes \<Rightarrow> bool \<Rightarrow> StagwayServer \<Rightarrow> StagwayServer option" where
  "log_part os key val tomb s =
     (case sv_wal s of
        None \<Rightarrow> Some s
      | Some w \<Rightarrow> map_option (\<lambda>(w', _). s\<lparr>sv_wal := Some w'\<rparr>) (Append os w key val tomb))"

definition store_part :: "bytes \<Rightarrow> bytes \<Rightarrow> bool \<Rightarrow> StagwayServer \<Rightarrow> StagwayServer option" where
  "store_part key val tomb s =
     (case sv_memTable s of
        None \<Rightarrow> Some s
      | Some m \<Rightarrow> map_option (\<lambda>(m', _). s\<lparr>sv_memTable := Some m'\<rparr>)
                    (if tomb then Delete m key else Put m key val))"

definition log_and_store ::
  "io \<Rightarrow> bytes \<Rightarrow> bytes \<Rightarrow> bool \<Rightarrow> StagwayServer \<Rightarrow> StagwayServer option" where
  "log_and_store os key val tomb s =
     (case log_part os key val tomb s of None \<Rightarrow> None | Some s1 \<Rightarrow> store_part key val tomb s1)"

text \<open>
  The results of a write: the server, the RPCs that the consensus node starts, the index, the term,
  whether this node leads, and the error.
\<close>

type_synonym write_result = "StagwayServer \<times> rpc list \<times> int \<times> int \<times> bool \<times> stagway_error option"

definition PutGeo :: "io \<Rightarrow> bytes \<Rightarrow> bytes \<Rightarrow> StagwayServer \<Rightarrow> write_result option" where
  "PutGeo os key val s =
     (if \<not> sv_running s then Some (s, [], -1, -1, False, Some ErrServerClosed)
      else case sv_raft s of
        Some r \<Rightarrow>
          (case Submit key val False r of
             None \<Rightarrow> None
           | Some (r', calls, idx, t, isLeader) \<Rightarrow>
               let s1 = s\<lparr>sv_raft := Some r'\<rparr> in
               if \<not> isLeader then Some (s1, calls, -1, t, False, Some ErrNotLeader)
               else map_option (\<lambda>s2. (s2, calls, idx, t, True, None)) (log_and_store os key val False s1))
      | None \<Rightarrow> map_option (\<lambda>s1. (s1, [], 1, 1, True, None)) (log_and_store os key val False s))"

definition FocusTombstone :: "io \<Rightarrow> bytes \<Rightarrow> StagwayServer \<Rightarrow> write_result option" where
  "FocusTombstone os key s =
     (if \<not> sv_running s then Some (s, [], -1, -1, False, Some ErrServerClosed)
      else case sv_raft s of
        Some r \<Rightarrow>
          (case Submit key [] True r of
             None \<Rightarrow> None
           | Some (r', calls, idx, t, isLeader) \<Rightarrow>
               let s1 = s\<lparr>sv_raft := Some r'\<rparr> in
               if \<not> isLeader then Some (s1, calls, -1, t, False, Some ErrNotLeader)
               else map_option (\<lambda>s2. (s2, calls, idx, t, True, None)) (log_and_store os key [] True s1))
      | None \<Rightarrow> map_option (\<lambda>s1. (s1, [], 1, 1, True, None)) (log_and_store os key [] True s))"

text \<open>The value, the tombstone flag, whether the key was found, and the error.\<close>

definition GetGeo :: "bytes \<Rightarrow> StagwayServer \<Rightarrow> (bytes \<times> bool \<times> bool \<times> stagway_error option) option" where
  "GetGeo key s =
     (if \<not> sv_running s then Some ([], False, False, Some ErrServerClosed)
      else case sv_memTable s of
        None \<Rightarrow> Some ([], False, False, None)
      | Some m \<Rightarrow> map_option (\<lambda>(val, tombstone, found). (val, tombstone, found, None)) (Get m key))"

section \<open>Connections\<close>

definition sendWriteResponse :: "int \<Rightarrow> int \<Rightarrow> bool \<Rightarrow> stagway_error option \<Rightarrow> bytes" where
  "sendWriteResponse index t isLeader err =
     [if isLeader \<and> err = None then 1 else 0] @ PutUint32 (of_int index) @ PutUint32 (of_int t)
       @ [if isLeader then 1 else 0]"

text \<open>The buffer has \<open>6+valLen\<close> bytes, a 32-bit sum; \<open>resp[2:6]\<close> panics when it wrapped around.\<close>

definition sendReadResponse :: "bytes \<Rightarrow> bool \<Rightarrow> bool \<Rightarrow> stagway_error option \<Rightarrow> bytes option" where
  "sendReadResponse val tombstone found err =
     (let valLen = of_nat (length val) :: u32 in
      if 6 + valLen < 6 then None
      else Some ([if found \<and> err = None then 1 else 0, if tombstone then 1 else 0]
                 @ PutUint32 valLen @ take (unat valLen) val))"

text \<open>The two frames for an HTTP/2 client.\<close>

definition handleGRPCConnection :: bytes where
  "handleGRPCConnection = [0, 0, 0, 4, 0, 0, 0, 0, 0] @ [0, 0, 0, 4, 1, 0, 0, 0, 0]"

text \<open>
  Reading one request: the operation, key and value; \<open>Bad\<close> is the HTTP/2 preface, and \<open>Crash\<close> the
  panic of \<open>bodyBuf[:keyLen]\<close> when the 32-bit sum \<open>keyLen+valLen\<close> wrapped around.
\<close>

datatype preface = Preface

definition read_request :: "bytes \<Rightarrow> (preface, byte \<times> bytes \<times> bytes) scan" where
  "read_request bs =
     (case readFull 9 bs of
        None \<Rightarrow> End
      | Some (headerBuf, bs1) \<Rightarrow>
          if headerBuf ! 0 = 80 \<and> headerBuf ! 1 = 82 \<and> headerBuf ! 2 = 73 \<and> headerBuf ! 3 = 32 then Bad Preface
          else let op = headerBuf ! 0;
                   keyLen = Uint32 (take 4 (drop 1 headerBuf));
                   valLen = Uint32 (take 4 (drop 5 headerBuf))
               in (case readFull (unat (keyLen + valLen)) bs1 of
                     None \<Rightarrow> End
                   | Some (bodyBuf, bs2) \<Rightarrow>
                       if keyLen + valLen < keyLen then Crash
                       else Got (op, take (unat keyLen) bodyBuf, drop (unat keyLen) bodyBuf) bs2))"

text \<open>The operation of a request: the server afterwards, the RPCs started and the response.\<close>

definition dispatch ::
  "io \<Rightarrow> byte \<Rightarrow> bytes \<Rightarrow> bytes \<Rightarrow> StagwayServer \<Rightarrow> (StagwayServer \<times> rpc list \<times> bytes) option" where
  "dispatch os op key val s =
     (if op = OpPut then
        map_option (\<lambda>(s', calls, idx, t, isLeader, err). (s', calls, sendWriteResponse idx t isLeader err))
          (PutGeo os key val s)
      else if op = OpGet then
        (case GetGeo key s of
           None \<Rightarrow> None
         | Some (resVal, tombstone, found, err) \<Rightarrow>
             map_option (\<lambda>resp. (s, [], resp)) (sendReadResponse resVal tombstone found err))
      else if op = OpTombstone then
        map_option (\<lambda>(s', calls, idx, t, isLeader, err). (s', calls, sendWriteResponse idx t isLeader err))
          (FocusTombstone os key s)
      else Some (s, [], []))"

lemma read_request_shrinks: "read_request bs = Got r rest \<Longrightarrow> length rest < length bs"
  by (auto simp: read_request_def Let_def split: option.splits if_splits dest!: readFull_SomeD)

text \<open>
  \<open>handleConnection\<close> on all the bytes a client sends, with nothing else happening in between. \<open>os n\<close>
  are the answers of the operating system to request number \<open>n\<close>. The results are the server, the
  RPCs started and the bytes written to the connection.
\<close>

function handleConnection ::
  "(nat \<Rightarrow> io) \<Rightarrow> nat \<Rightarrow> bytes \<Rightarrow> StagwayServer \<Rightarrow> (StagwayServer \<times> rpc list \<times> bytes) option" where
  "handleConnection os n bs s =
     (case read_request bs of
        End \<Rightarrow> Some (s, [], [])
      | Bad Preface \<Rightarrow> Some (s, [], handleGRPCConnection)
      | Crash \<Rightarrow> None
      | Got (op, key, val) rest \<Rightarrow>
          (case dispatch (os n) op key val s of
             None \<Rightarrow> None
           | Some (s1, calls, resp) \<Rightarrow>
               map_option (\<lambda>(s2, calls', resp'). (s2, calls @ calls', resp @ resp'))
                 (handleConnection os (Suc n) rest s1)))"
  by pat_completeness auto
termination
  by (relation "measure (\<lambda>(_, _, bs, _). length bs)") (auto dest: read_request_shrinks)

declare handleConnection.simps [simp del]

section \<open>The server as a store\<close>

text \<open>A leader that can send heartbeats to all its peers.\<close>

definition ready :: "RaftNode \<Rightarrow> bool" where
  "ready r \<longleftrightarrow> rn_role r = Leader \<and> (\<forall>p \<in> set (rn_peers r). rn_nextIndex r p - 1 < length (rn_log r))"

lemma heartbeat_calls_total:
  "\<forall>p \<in> set ps. rn_nextIndex r p - 1 < length (rn_log r) \<Longrightarrow> \<exists>calls. heartbeat_calls r ps = Some calls"
  by (induction ps) (auto simp: heartbeat_call_def Let_def)

lemma Submit_ready:
  assumes "ready r"
  shows "\<exists>r' calls. Submit key val tomb r = Some (r', calls, int (length (rn_log r)), int (rn_currentTerm r), True)
    \<and> ready r' \<and> rn_currentTerm r' = rn_currentTerm r"
proof -
  define r1 where "r1 = r\<lparr>rn_log := rn_log r @ [\<lparr>rl_Index = length (rn_log r), rl_Term = rn_currentTerm r,
    rl_Key = key, rl_Value = val, rl_Tombstone = tomb\<rparr>]\<rparr>"
  have r1: "ready r1" using assms by (auto simp: ready_def r1_def less_Suc_eq)
  then obtain calls where "broadcastHeartbeats r1 = Some calls"
    using heartbeat_calls_total [of "rn_peers r1" r1] by (auto simp: ready_def broadcastHeartbeats_def)
  then show ?thesis
    using assms r1 unfolding Submit_def Let_def r1_def [symmetric]
    by (intro exI [of _ r1] exI [of _ calls]) (simp add: ready_def r1_def)
qed

lemma Submit_follower:
  "rn_role r \<noteq> Leader \<Longrightarrow> Submit key val tomb r = Some (r, [], -1, int (rn_currentTerm r), False)"
  by (simp add: Submit_def)

definition server_ok :: "StagwayServer \<Rightarrow> bool" where
  "server_ok s \<longleftrightarrow> sv_running s \<and> (\<exists>m. sv_memTable s = Some m \<and> mem_inv m)
     \<and> (case sv_raft s of None \<Rightarrow> True | Some r \<Rightarrow> ready r)"

definition server_view :: "StagwayServer \<Rightarrow> bytes \<Rightarrow> (bytes \<times> bool) option" where
  "server_view s key = (case sv_memTable s of None \<Rightarrow> None | Some m \<Rightarrow> mem_view m key)"

text \<open>A write: a value, or no value and the tombstone.\<close>

definition write_fits :: "bytes \<Rightarrow> bytes \<times> bool \<Rightarrow> bool" where
  "write_fits key vt \<longleftrightarrow> small key (fst vt) \<and> (snd vt \<longrightarrow> fst vt = [])"

definition do_write :: "io \<Rightarrow> StagwayServer \<Rightarrow> bytes \<Rightarrow> bytes \<times> bool \<Rightarrow> write_result option" where
  "do_write os s key vt = (if snd vt then FocusTombstone os key s else PutGeo os key (fst vt) s)"

definition srv_ins :: "io \<Rightarrow> StagwayServer \<Rightarrow> bytes \<Rightarrow> bytes \<times> bool \<Rightarrow> StagwayServer option" where
  "srv_ins os s key vt = map_option fst (do_write os s key vt)"

definition srv_look :: "StagwayServer \<Rightarrow> bytes \<Rightarrow> (bytes \<times> bool) option option" where
  "srv_look s key = map_option (\<lambda>(v, t, found, _). if found then Some (v, t) else None) (GetGeo key s)"

lemma log_part_total:
  assumes "small key val"
  shows "\<exists>w. log_part os key val tomb s = Some (s\<lparr>sv_wal := w\<rparr>)"
proof (cases "sv_wal s")
  case None
  have "s\<lparr>sv_wal := None\<rparr> = s" using None by (cases s) simp
  then show ?thesis using None by (intro exI [of _ None]) (simp add: log_part_def)
next
  case (Some w)
  have "\<exists>x. Append os w key val tomb = Some x"
    using EncodeRecord_small [OF assms] by (auto simp: Append_def Let_def split: option.splits)
  then show ?thesis using Some by (auto simp: log_part_def)
qed

lemma store_part_ok:
  assumes "sv_memTable s = Some m" "mem_inv m" "tomb \<longrightarrow> val = []"
  shows "\<exists>m'. store_part key val tomb s = Some (s\<lparr>sv_memTable := Some m'\<rparr>) \<and> mem_inv m'
    \<and> mem_view m' = (mem_view m)(key \<mapsto> (val, tomb))"
  using mem_insert_inv [OF assms(2), of key val tomb] assms(1,3)
  by (auto simp: store_part_def Put_def Delete_def mem_view_def map_of_assoc_put)

lemma log_and_store_ok:
  assumes "sv_memTable s = Some m" "mem_inv m" "write_fits key (val, tomb)"
  shows "\<exists>m' w. log_and_store os key val tomb s = Some (s\<lparr>sv_wal := w, sv_memTable := Some m'\<rparr>) \<and> mem_inv m'
    \<and> mem_view m' = (mem_view m)(key \<mapsto> (val, tomb))"
proof -
  have f: "small key val" "tomb \<longrightarrow> val = []" using assms(3) by (auto simp: write_fits_def)
  obtain w where "log_part os key val tomb s = Some (s\<lparr>sv_wal := w\<rparr>)" using log_part_total [OF f(1)] by blast
  moreover obtain m' where "store_part key val tomb (s\<lparr>sv_wal := w\<rparr>) = Some (s\<lparr>sv_wal := w, sv_memTable := Some m'\<rparr>)"
    "mem_inv m'" "mem_view m' = (mem_view m)(key \<mapsto> (val, tomb))"
    using store_part_ok [of "s\<lparr>sv_wal := w\<rparr>" m tomb val key] assms(1,2) f(2) by auto
  ultimately show ?thesis by (auto simp: log_and_store_def)
qed

lemma do_write_eq:
  assumes "sv_running s" "write_fits key (val, tomb)"
  shows "do_write os s key (val, tomb) = (case sv_raft s of
      Some r \<Rightarrow> (case Submit key val tomb r of None \<Rightarrow> None
        | Some (r', calls, idx, t, isLeader) \<Rightarrow>
            if \<not> isLeader then Some (s\<lparr>sv_raft := Some r'\<rparr>, calls, -1, t, False, Some ErrNotLeader)
            else map_option (\<lambda>s2. (s2, calls, idx, t, True, None)) (log_and_store os key val tomb (s\<lparr>sv_raft := Some r'\<rparr>)))
    | None \<Rightarrow> map_option (\<lambda>s1. (s1, [], 1, 1, True, None)) (log_and_store os key val tomb s))"
  using assms unfolding do_write_def PutGeo_def FocusTombstone_def Let_def write_fits_def
  by (simp split: option.split)

text \<open>An accepted write.\<close>

lemma do_write_ok:
  assumes s: "server_ok s" and f: "write_fits key vt"
  shows "\<exists>s' calls idx t. do_write os s key vt = Some (s', calls, idx, t, True, None) \<and> server_ok s'
    \<and> server_view s' = (server_view s)(key \<mapsto> vt)
    \<and> (\<exists>s0. sv_wal s0 = sv_wal s \<and> log_and_store os key (fst vt) (snd vt) s0 = Some s')"
proof -
  obtain val tomb where vt: "vt = (val, tomb)" by (cases vt)
  obtain m where m: "sv_memTable s = Some m" "mem_inv m" "sv_running s"
    using s by (auto simp: server_ok_def)
  note w = do_write_eq [OF m(3) f [unfolded vt], of os, folded vt]
  show ?thesis
  proof (cases "sv_raft s")
    case None
    obtain m' w' where "log_and_store os key val tomb s = Some (s\<lparr>sv_wal := w', sv_memTable := Some m'\<rparr>)" "mem_inv m'"
      "mem_view m' = (mem_view m)(key \<mapsto> (val, tomb))"
      using log_and_store_ok [OF m(1,2), of key val tomb] f vt by blast
    then show ?thesis using None w m vt by (auto simp: server_ok_def server_view_def fun_eq_iff intro: exI [of _ s])
  next
    case (Some r)
    then have "ready r" using s by (simp add: server_ok_def)
    then obtain r' calls idx t where r': "Submit key val tomb r = Some (r', calls, idx, t, True)" "ready r'"
      using Submit_ready by blast
    let ?s = "s\<lparr>sv_raft := Some r'\<rparr>"
    obtain m' w' where "log_and_store os key val tomb ?s = Some (?s\<lparr>sv_wal := w', sv_memTable := Some m'\<rparr>)" "mem_inv m'"
      "mem_view m' = (mem_view m)(key \<mapsto> (val, tomb))"
      using log_and_store_ok [of ?s m key val tomb os] m(1,2) f vt by auto
    then show ?thesis using Some w m r' vt by (auto simp: server_ok_def server_view_def fun_eq_iff intro: exI [of _ ?s])
  qed
qed

lemma GetGeo_ok:
  assumes "server_ok s"
  shows "GetGeo key s = Some (case server_view s key of None \<Rightarrow> ([], False, False, None) | Some (v, t) \<Rightarrow> (v, t, True, None))"
  using assms Get_inv by (auto simp: server_ok_def GetGeo_def server_view_def split: option.splits)

interpretation srv: kv_store server_ok server_view write_fits "srv_ins os" srv_look for os
proof
  show "\<exists>s'. srv_ins os s k v = Some s' \<and> server_ok s' \<and> server_view s' = (server_view s)(k \<mapsto> v)"
    if "server_ok s" "write_fits k v" for s k v
    using do_write_ok [OF that, of os] by (auto simp: srv_ins_def)
  show "srv_look s k = Some (server_view s k)" if "server_ok s" for s k
    using GetGeo_ok [OF that, of k] by (auto simp: srv_look_def split: option.splits)
qed

section \<open>The request format\<close>

definition request_bytes :: "byte \<times> bytes \<times> bytes \<Rightarrow> bytes" where
  "request_bytes = (\<lambda>(op, key, val).
     [op] @ PutUint32 (of_nat (length key)) @ PutUint32 (of_nat (length val)) @ key @ val)"

definition request_fits :: "byte \<times> bytes \<times> bytes \<Rightarrow> bool" where
  "request_fits = (\<lambda>(op, key, val). op \<in> {OpPut, OpGet, OpTombstone} \<and> length key + length val < 2 ^ 32)"

lemma header_split:
  "length a = 4 \<Longrightarrow> length b = 4 \<Longrightarrow> readFull 9 (op # a @ b @ rest) = Some (op # a @ b, rest)"
  by (simp add: readFull_def)

lemma op_no_preface: "op \<in> {OpPut, OpGet, OpTombstone} \<Longrightarrow> op \<noteq> 80"
  by (auto simp: OpPut_def OpGet_def OpTombstone_def)

text \<open>Reading behind a header that is not the preface.\<close>

lemma read_request_header:
  assumes "op \<noteq> 80"
  shows "read_request (op # PutUint32 k @ PutUint32 v @ bs) =
     (case readFull (unat (k + v)) bs of
        None \<Rightarrow> End
      | Some (body, rest) \<Rightarrow> if k + v < k then Crash else Got (op, take (unat k) body, drop (unat k) body) rest)"
  using assms header_split [of "PutUint32 k" "PutUint32 v" op bs]
  by (simp add: read_request_def Let_def)

lemma fits_lengths:
  assumes "length key + length val < 2 ^ 32"
  shows "unat (of_nat (length key) :: u32) = length key"
    "unat (of_nat (length key) + of_nat (length val) :: u32) = length key + length val"
  using assms unat_of_nat_u32 [of "length key"] unat_of_nat_u32 [of "length key + length val"]
  by (simp_all add: of_nat_add [symmetric] del: of_nat_add)

interpretation protocol: frame_codec request_bytes read_request request_fits
proof
  show "read_request (request_bytes r @ rest) = Got r rest" if "request_fits r" for r rest
  proof -
    obtain op key val where r: "r = (op, key, val)" by (cases r)
    have f: "op \<noteq> 80" "length key + length val < 2 ^ 32" using that op_no_preface by (auto simp: r request_fits_def)
    have "readFull (length key + length val) (key @ val @ rest) = Some (key @ val, rest)"
      using readFull_append [of "key @ val" "length key + length val" rest] by simp
    then show ?thesis
      using read_request_header [OF f(1), of "of_nat (length key)" "of_nat (length val)" "key @ val @ rest"] fits_lengths [OF f(2)]
      by (simp add: r request_bytes_def word_less_nat_alt)
  qed
  show "read_request (take n (request_bytes r)) = End" if "request_fits r" "n < length (request_bytes r)" for r n
  proof -
    obtain op key val where r: "r = (op, key, val)" by (cases r)
    have f: "op \<noteq> 80" "length key + length val < 2 ^ 32" using that(1) op_no_preface by (auto simp: r request_fits_def)
    show ?thesis
    proof (cases "n < 9")
      case True
      then have "readFull 9 (take n (request_bytes r)) = None" by (simp add: readFull_def)
      then show ?thesis by (simp add: read_request_def)
    next
      case False
      then obtain m where m: "n = 9 + m" by (metis le_add_diff_inverse not_less)
      let ?H = "op # PutUint32 (of_nat (length key)) @ PutUint32 (of_nat (length val))"
      have H: "length ?H = 9" "request_bytes r = ?H @ key @ val" by (simp_all add: r request_bytes_def)
      have "take n (request_bytes r) = ?H @ take m (key @ val)"
        unfolding H(2) m take_append [of _ ?H] H(1) by simp
      then have "take n (request_bytes r) = op # PutUint32 (of_nat (length key)) @ PutUint32 (of_nat (length val)) @ take m (key @ val)"
        by simp
      moreover have "m < length key + length val" using that(2) m by (simp add: r request_bytes_def)
      ultimately show ?thesis
        using read_request_header [OF f(1)] fits_lengths [OF f(2)] by (simp add: readFull_def)
    qed
  qed
  show "read_request [] = End" by (simp add: read_request_def readFull_def)
qed

section \<open>Properties\<close>

text \<open>The request for a write.\<close>

definition write_request :: "bytes \<times> bytes \<times> bool \<Rightarrow> byte \<times> bytes \<times> bytes" where
  "write_request = (\<lambda>(key, val, tomb). if tomb then (OpTombstone, key, []) else (OpPut, key, val))"

lemma ops_distinct [simp]: "OpPut \<noteq> OpGet" "OpTombstone \<noteq> OpPut" "OpTombstone \<noteq> OpGet"
  by (simp_all add: OpPut_def OpGet_def OpTombstone_def)

lemma write_request_fits: "write_fits key vt \<Longrightarrow> request_fits (write_request (key, vt))"
  by (cases vt) (auto simp: write_fits_def write_request_def request_fits_def small_def)

lemma dispatch_write:
  assumes "server_ok s" "write_fits key vt"
  shows "\<exists>s' calls resp. (case write_request (key, vt) of (op, k, v) \<Rightarrow> dispatch os op k v s) = Some (s', calls, resp)
    \<and> server_ok s' \<and> server_view s' = (server_view s)(key \<mapsto> vt) \<and> length resp = 10 \<and> resp ! 0 = 1"
proof -
  obtain val tomb where vt: "vt = (val, tomb)" by (cases vt)
  obtain s' calls idx t where w: "do_write os s key vt = Some (s', calls, idx, t, True, None)" "server_ok s'"
    "server_view s' = (server_view s)(key \<mapsto> vt)" using do_write_ok [OF assms] by blast
  have "(case write_request (key, vt) of (op, k, v) \<Rightarrow> dispatch os op k v s) = Some (s', calls, sendWriteResponse idx t True None)"
    using w(1) assms(2) by (cases tomb) (simp_all add: vt write_request_def dispatch_def do_write_def write_fits_def)
  then show ?thesis using w(2,3) by (auto simp: sendWriteResponse_def)
qed

lemma handleConnection_writes:
  assumes "server_ok s" "\<forall>(key, vt) \<in> set ws. write_fits key vt"
  shows "\<exists>s' calls rs. handleConnection os n (concat (map (request_bytes \<circ> write_request) ws)) s = Some (s', calls, concat rs)
    \<and> server_ok s' \<and> server_view s' = server_view s ++ map_of (rev ws)
    \<and> length rs = length ws \<and> (\<forall>r \<in> set rs. length r = 10 \<and> r ! 0 = 1)"
  using assms
proof (induction ws arbitrary: s n)
  case Nil
  have "handleConnection os n [] s = Some (s, [], concat [])"
    by (subst handleConnection.simps) (simp add: protocol.dec_nil)
  then show ?case using Nil.prems(1) by (intro exI [of _ s] exI [of _ "[]"]) simp
next
  case (Cons w ws)
  obtain key vt where w: "w = (key, vt)" by (cases w)
  obtain op k v where req: "write_request w = (op, k, v)" by (cases "write_request w")
  have f: "write_fits key vt" "\<forall>(key, vt) \<in> set ws. write_fits key vt" using Cons.prems(2) w by auto
  have rd: "read_request (concat (map (request_bytes \<circ> write_request) (w # ws)))
      = Got (op, k, v) (concat (map (request_bytes \<circ> write_request) ws))"
    using protocol.dec_enc [OF write_request_fits [OF f(1)]] req w by simp
  obtain s1 calls resp where d: "dispatch (os n) op k v s = Some (s1, calls, resp)" "server_ok s1"
    "server_view s1 = (server_view s)(key \<mapsto> vt)" "length resp = 10" "resp ! 0 = 1"
    using dispatch_write [OF Cons.prems(1) f(1), of "os n"] req w by auto
  obtain s' calls' rs where r: "handleConnection os (Suc n) (concat (map (request_bytes \<circ> write_request) ws)) s1
      = Some (s', calls', concat rs)" "server_ok s'" "server_view s' = server_view s1 ++ map_of (rev ws)"
    "length rs = length ws" "\<forall>r \<in> set rs. length r = 10 \<and> r ! 0 = 1"
    using Cons.IH [OF d(2) f(2), of "Suc n"] by blast
  have "handleConnection os n (concat (map (request_bytes \<circ> write_request) (w # ws))) s
      = Some (s', calls @ calls', concat (resp # rs))"
    using rd d(1) r(1) by (subst handleConnection.simps) simp
  moreover have "server_view s' = server_view s ++ map_of (rev (w # ws))" using r(3) d(3) w by simp
  ultimately show ?case using r(2,4,5) d(4,5)
    by (intro exI [of _ s'] exI [of _ "calls @ calls'"] exI [of _ "resp # rs"]) (simp add: comp_def)
qed

text \<open>
  C8: A server that leads answers any sequence of well-formed write requests on a connection with
  successes, one of ten bytes for each, and afterwards \<open>GetGeo\<close> returns for every key what the
  last write of that key left, and what was there before for the others.
\<close>

theorem served_writes_behave_as_map:
  assumes "server_ok s" "\<forall>(key, vt) \<in> set ws. write_fits key vt"
  shows "\<exists>s' calls rs. handleConnection os n (concat (map (request_bytes \<circ> write_request) ws)) s = Some (s', calls, concat rs)
    \<and> length rs = length ws \<and> (\<forall>r \<in> set rs. length r = 10 \<and> r ! 0 = 1)
    \<and> (\<forall>key. GetGeo key s' = (case map_of (rev ws) key of None \<Rightarrow> GetGeo key s | Some (v, t) \<Rightarrow> Some (v, t, True, None)))"
proof -
  obtain s' calls rs where s': "handleConnection os n (concat (map (request_bytes \<circ> write_request) ws)) s = Some (s', calls, concat rs)"
    "server_ok s'" "server_view s' = server_view s ++ map_of (rev ws)" "length rs = length ws"
    "\<forall>r \<in> set rs. length r = 10 \<and> r ! 0 = 1"
    using handleConnection_writes [OF assms] by blast
  have "GetGeo key s' = (case map_of (rev ws) key of None \<Rightarrow> GetGeo key s | Some (v, t) \<Rightarrow> Some (v, t, True, None))" for key
    unfolding GetGeo_ok [OF s'(2)] GetGeo_ok [OF assms(1)] s'(3) by (auto simp: map_add_def split: option.splits)
  then show ?thesis using s'(1,4,5) by blast
qed

definition sample_server :: StagwayServer where
  "sample_server = fst (Start True (NewStagwayServer (DefaultStagwayServerOptions '''' 1) None
     (Some (NewMemTable DefaultMemTableOptions (\<lambda>_. 0)))
     (Some \<lparr>w_opts = DefaultWALOptions ''d'', w_file = \<lparr>f_data = [], f_synced = 0\<rparr>, w_closed = False, w_size = 0\<rparr>)))"

lemma sample_server_ok: "server_ok sample_server"
  using NewMemTable_inv(1) by (simp add: sample_server_def server_ok_def Start_def NewStagwayServer_def)

theorem served_writes_behave_as_map_witness:
  "\<exists>s' calls rs. handleConnection (\<lambda>_. io_ok) 0 (concat (map (request_bytes \<circ> write_request)
        [([1], [2], False), ([3], [4], False), ([1], [], True)])) sample_server = Some (s', calls, concat rs)
    \<and> length rs = 3 \<and> GetGeo [3] s' = Some ([4], False, True, None) \<and> GetGeo [1] s' = Some ([], True, True, None)"
proof -
  let ?ws = "[([1], [2], False), ([3], [4], False), ([1], [], True)] :: (bytes \<times> bytes \<times> bool) list"
  have "\<forall>(key, vt) \<in> set ?ws. write_fits key vt" by (simp add: write_fits_def small_def)
  from served_writes_behave_as_map [OF sample_server_ok this, of "\<lambda>_. io_ok" 0] obtain s' calls rs where
    "handleConnection (\<lambda>_. io_ok) 0 (concat (map (request_bytes \<circ> write_request) ?ws)) sample_server = Some (s', calls, concat rs)"
    "length rs = length ?ws" "\<forall>key. GetGeo key s' = (case map_of (rev ?ws) key of None \<Rightarrow> GetGeo key sample_server
      | Some (v, t) \<Rightarrow> Some (v, t, True, None))" by blast
  then show ?thesis by (intro exI [of _ s'] exI [of _ calls] exI [of _ rs]) simp
qed

lemma refused_writes:
  assumes "sv_running s" "sv_raft s = Some r" "rn_role r \<noteq> Leader"
  shows "PutGeo os key val s = Some (s, [], -1, int (rn_currentTerm r), False, Some ErrNotLeader)"
    "FocusTombstone os key s = Some (s, [], -1, int (rn_currentTerm r), False, Some ErrNotLeader)"
proof -
  have s: "s\<lparr>sv_raft := Some r\<rparr> = s" using assms(2) by (cases s) simp
  show "PutGeo os key val s = Some (s, [], -1, int (rn_currentTerm r), False, Some ErrNotLeader)"
    "FocusTombstone os key s = Some (s, [], -1, int (rn_currentTerm r), False, Some ErrNotLeader)"
    using assms s by (simp_all add: PutGeo_def FocusTombstone_def Submit_follower)
qed

text \<open>
  C27: A server whose consensus node does not lead refuses every write and changes nothing: not the
  node, not the log, not the MemTable; the response says so.
\<close>

theorem follower_refuses_writes:
  assumes "sv_running s" "sv_raft s = Some r" "rn_role r \<noteq> Leader"
  shows "PutGeo os key val s = Some (s, [], -1, int (rn_currentTerm r), False, Some ErrNotLeader)
    \<and> FocusTombstone os key s = Some (s, [], -1, int (rn_currentTerm r), False, Some ErrNotLeader)
    \<and> dispatch os OpPut key val s = Some (s, [], [0] @ [255, 255, 255, 255] @ PutUint32 (of_nat (rn_currentTerm r)) @ [0])"
proof -
  have "PutUint32 (- 1) = [255, 255, 255, 255]" by code_simp
  then show ?thesis using refused_writes [OF assms] by (simp add: dispatch_def sendWriteResponse_def)
qed

theorem follower_refuses_writes_witness:
  "dispatch io_ok OpPut [1] [2] (sample_server\<lparr>sv_raft := Some (NewRaftNode 1 [2, 3] (Some []))\<rparr>)
    = Some (sample_server\<lparr>sv_raft := Some (NewRaftNode 1 [2, 3] (Some []))\<rparr>, [],
        [0, 255, 255, 255, 255] @ PutUint32 0 @ [0])"
  using follower_refuses_writes [of "sample_server\<lparr>sv_raft := Some (NewRaftNode 1 [2, 3] (Some []))\<rparr>"
      "NewRaftNode 1 [2, 3] (Some [])" io_ok "[1]" "[2]"]
  by (simp add: sample_server_def Start_def NewStagwayServer_def NewRaftNode_def)

text \<open>
  C39: The lengths of a request are added in 32 bits. A request whose lengths add up to \<open>2 ^ 32\<close> or
  more needs only the bytes of the wrapped sum, which may be none, to make the server panic, which
  ends the process.
\<close>

theorem wrapped_request_ends_the_process:
  assumes "op \<noteq> 80" "2 ^ 32 \<le> unat k + unat v" "unat (k + v) \<le> length body"
  shows "handleConnection os n (op # PutUint32 k @ PutUint32 v @ body) s = None"
proof -
  have "unat (k + v) = unat k + unat v - 2 ^ 32"
    using assms(2) unsigned_less [of k, where 'a = nat] unsigned_less [of v, where 'a = nat]
    by (simp add: unat_word_ariths le_mod_geq)
  then have "k + v < k" using unsigned_less [of v, where 'a = nat] assms(2) by (simp add: word_less_nat_alt)
  then have "read_request (op # PutUint32 k @ PutUint32 v @ body) = Crash"
    using read_request_header [OF assms(1)] assms(3) by (simp add: readFull_def)
  then show ?thesis by (subst handleConnection.simps) simp
qed

theorem wrapped_request_ends_the_process_witness:
  "handleConnection (\<lambda>_. io_ok) 0 [1, 0, 0, 0, 1, 255, 255, 255, 255] sample_server = None"
proof -
  have p: "PutUint32 1 = [0, 0, 0, 1]" "PutUint32 (- 1) = [255, 255, 255, 255]" by code_simp+
  have u: "unat (- 1 :: u32) = 4294967295" by (simp add: unsigned_minus_1_eq_mask mask_eq_exp_minus_1)
  have "handleConnection (\<lambda>_. io_ok) 0 (1 # PutUint32 1 @ PutUint32 (- 1) @ []) sample_server = None"
    by (rule wrapped_request_ends_the_process) (simp_all add: u)
  then show ?thesis by (simp add: p)
qed

text \<open>An append that returns an error puts nothing on disk.\<close>

lemma Append_failed:
  assumes "Append os w key val tomb = Some (w', n, Some e)"
  shows "f_synced (w_file w') = f_synced (w_file w) \<and> prefix (f_data (w_file w)) (f_data (w_file w'))"
  using assms by (auto simp: Append_def Let_def file_append_def file_sync_def split: if_splits option.splits)

text \<open>
  C37: The error of the log is ignored. Let the log hold some records, all of them on disk, and let
  the append for a write on a leading server fail in any way: the log is closed, the write to the file
  fails or is cut short, or \<open>fsync\<close> fails. The client is still told that its write succeeded, and it is
  read back; but after a crash that keeps just what \<open>fsync\<close> forced out, the log opened again holds the
  old records only.
\<close>

theorem unlogged_write_is_acknowledged:
  assumes "server_ok s" "sv_wal s = Some w" "small key val" "Append os w key val False = Some (w', n, Some e)"
    and "\<forall>e \<in> set es. entry_fits e" "f_data (w_file w) = concat (map entry_bytes es)"
    and "f_synced (w_file w) = length (f_data (w_file w))"
    and "OpenWAL True True True opts (Some (crash_to (f_synced (w_file w')) (w_file w'))) = Inr w2"
  shows "\<exists>s' calls idx t. PutGeo os key val s = Some (s', calls, idx, t, True, None)
    \<and> GetGeo key s' = Some (val, False, True, None) \<and> sv_wal s' = Some w' \<and> Recover True False True w2 = Ok es"
proof -
  have f: "write_fits key (val, False)" using assms(3) by (simp add: write_fits_def)
  obtain s' calls idx t s0 where w: "PutGeo os key val s = Some (s', calls, idx, t, True, None)" "server_ok s'"
    "server_view s' = (server_view s)(key \<mapsto> (val, False))" "sv_wal s0 = sv_wal s" "log_and_store os key val False s0 = Some s'"
    using do_write_ok [OF assms(1) f, of os] by (auto simp: do_write_def)
  have "sv_wal s' = Some w'"
    using w(4,5) assms(2,4) by (auto simp: log_and_store_def log_part_def store_part_def split: option.splits)
  moreover have "f_data (crash_to (f_synced (w_file w')) (w_file w')) = concat (map entry_bytes es)"
    using Append_failed [OF assms(4)] assms(6,7) by (auto simp: crash_to_def prefix_def)
  then have "Recover True False True w2 = Ok es"
    using assms(8) recover_complete [OF assms(5)] by (auto simp: OpenWAL_def Recover_def Let_def)
  ultimately show ?thesis using w GetGeo_ok [OF w(2), of key] by auto
qed

theorem unlogged_write_is_acknowledged_witness:
  "\<exists>s' calls idx t w' w2. PutGeo (io_ok\<lparr>io_sync := False\<rparr>) [1] [2] sample_server = Some (s', calls, idx, t, True, None)
    \<and> GetGeo [1] s' = Some ([2], False, True, None) \<and> sv_wal s' = Some w'
    \<and> OpenWAL True True True (DefaultWALOptions ''d'') (Some (crash_to (f_synced (w_file w')) (w_file w'))) = Inr w2
    \<and> Recover True False True w2 = Ok []"
proof -
  obtain w where w: "sv_wal sample_server = Some w" "f_data (w_file w) = []" "f_synced (w_file w) = 0" "\<not> w_closed w"
    "SyncOnWrite (w_opts w)"
    by (simp add: sample_server_def Start_def NewStagwayServer_def DefaultWALOptions_def)
  have sm: "small [1] [2]" by (simp add: small_def)
  obtain w' n e where a: "Append (io_ok\<lparr>io_sync := False\<rparr>) w [1] [2] False = Some (w', n, Some e)"
    using w(4,5) EncodeRecord_small [OF sm, of False] by (auto simp: Append_def Let_def)
  obtain w2 where w2: "OpenWAL True True True (DefaultWALOptions ''d'') (Some (crash_to (f_synced (w_file w')) (w_file w'))) = Inr w2"
    by (simp add: OpenWAL_def Let_def)
  have "\<exists>s' calls idx t. PutGeo (io_ok\<lparr>io_sync := False\<rparr>) [1] [2] sample_server = Some (s', calls, idx, t, True, None)
    \<and> GetGeo [1] s' = Some ([2], False, True, None) \<and> sv_wal s' = Some w' \<and> Recover True False True w2 = Ok []"
    by (rule unlogged_write_is_acknowledged [OF sample_server_ok w(1) sm a _ _ _ w2]) (simp_all add: w)
  then show ?thesis using w2 by blast
qed

lemma log_part_written:
  assumes "sv_wal s = Some w" "\<not> w_closed w" "SyncOnWrite (w_opts w)" "small key val"
  shows "\<exists>w'. log_part io_ok key val tomb s = Some (s\<lparr>sv_wal := Some w'\<rparr>) \<and> \<not> w_closed w' \<and> w_opts w' = w_opts w
    \<and> f_data (w_file w') = f_data (w_file w) @ entry_bytes (entry_of key val tomb)
    \<and> f_synced (w_file w') = length (f_data (w_file w'))"
proof -
  have "log_part io_ok key val tomb s = Some (s\<lparr>sv_wal := Some (fst (the (Append io_ok w key val tomb)))\<rparr>)"
    using assms EncodeRecord_small [OF assms(4)] by (simp add: log_part_def Append_def Let_def file_append_def)
  then show ?thesis
    using assms EncodeRecord_small [OF assms(4)]
    by (intro exI [of _ "fst (the (Append io_ok w key val tomb))"])
      (simp add: Append_def Let_def file_append_def file_sync_def entry_bytes_def)
qed

end
