(* ===== verification/Stagway_Threads.thy ===== *)
theory Stagway_Threads
  imports Stagway
begin

text \<open>
  The goroutines of the Stagway server and its \<open>sync.RWMutex\<close>, \<open>pkg/network/server.go\<close>: client
  calls of \<open>PutGeo\<close>, \<open>FocusTombstone\<close> and \<open>GetGeo\<close>, calls of \<open>Stop\<close>, and the accept loop, whose
  steps interleave in any order. A step is a call of the mutex, or a call on one of the objects the
  server holds, each of which has a mutex of its own.
\<close>

section \<open>Goroutines\<close>

text \<open>
  The mutex as Go has it: \<open>Lock\<close> first announces the writer, which keeps new readers out, and then
  waits for the readers that are inside. \<open>sh_writer\<close> says that a writer is announced.
\<close>

record shared =
  sh_readers :: nat
  sh_writer :: bool
  sh_server :: StagwayServer
  sh_calls :: "rpc list"

definition RLock :: "shared \<Rightarrow> shared option" where
  "RLock sh = (if sh_writer sh then None else Some (sh\<lparr>sh_readers := Suc (sh_readers sh)\<rparr>))"

definition RUnlock :: "shared \<Rightarrow> shared" where
  "RUnlock sh = sh\<lparr>sh_readers := sh_readers sh - 1\<rparr>"

type_synonym write_answer = "int \<times> int \<times> bool \<times> stagway_error option"
type_synonym read_answer = "bytes \<times> bool \<times> bool \<times> stagway_error option"

text \<open>Where a goroutine is: the name says what it does next.\<close>

datatype write_pc = WriteLock | WriteCheck | WriteSubmit | WriteLog int int | WriteStore int int
  | WriteUnlock write_answer | WriteReturned write_answer

datatype read_pc = ReadLock | ReadGet | ReadUnlock read_answer | ReadReturned read_answer

datatype stop_pc = StopLock | StopWait | StopBody | StopUnlock "net_error option" | StopReturned "net_error option"

datatype accept_pc = LoopCheck | LoopAccept | LoopRecheck | LoopEnded

text \<open>
  A write has the key, the value, the tombstone flag and the answers of the operating system; the
  accept loop has the connections handed to a handler so far.
\<close>

datatype goroutine =
    Write_Call bytes bytes bool io write_pc
  | Read_Call bytes read_pc
  | Stop_Call bool stop_pc
  | Accept_Loop accept_pc "bytes list"

text \<open>\<open>None\<close> is a goroutine that waits, has ended, or panics.\<close>

fun write_step :: "bytes \<Rightarrow> bytes \<Rightarrow> bool \<Rightarrow> io \<Rightarrow> write_pc \<Rightarrow> shared \<Rightarrow> (write_pc \<times> shared) option" where
  "write_step key val tomb os WriteLock sh = map_option (Pair WriteCheck) (RLock sh)"
| "write_step key val tomb os WriteCheck sh =
     Some (if \<not> sv_running (sh_server sh) then WriteUnlock (-1, -1, False, Some ErrServerClosed)
           else if sv_raft (sh_server sh) = None then WriteLog 1 1 else WriteSubmit, sh)"
| "write_step key val tomb os WriteSubmit sh =
     (case sv_raft (sh_server sh) of
        None \<Rightarrow> None
      | Some r \<Rightarrow>
          (case Submit key val tomb r of
             None \<Rightarrow> None
           | Some (r', calls, idx, t, isLeader) \<Rightarrow>
               Some (if isLeader then WriteLog idx t else WriteUnlock (-1, t, False, Some ErrNotLeader),
                     sh\<lparr>sh_server := (sh_server sh)\<lparr>sv_raft := Some r'\<rparr>, sh_calls := sh_calls sh @ calls\<rparr>)))"
| "write_step key val tomb os (WriteLog idx t) sh =
     map_option (\<lambda>s. (WriteStore idx t, sh\<lparr>sh_server := s\<rparr>)) (log_part os key val tomb (sh_server sh))"
| "write_step key val tomb os (WriteStore idx t) sh =
     map_option (\<lambda>s. (WriteUnlock (idx, t, True, None), sh\<lparr>sh_server := s\<rparr>)) (store_part key val tomb (sh_server sh))"
| "write_step key val tomb os (WriteUnlock answer) sh = Some (WriteReturned answer, RUnlock sh)"
| "write_step key val tomb os (WriteReturned answer) sh = None"

fun read_step :: "bytes \<Rightarrow> read_pc \<Rightarrow> shared \<Rightarrow> (read_pc \<times> shared) option" where
  "read_step key ReadLock sh = map_option (Pair ReadGet) (RLock sh)"
| "read_step key ReadGet sh = map_option (\<lambda>answer. (ReadUnlock answer, sh)) (GetGeo key (sh_server sh))"
| "read_step key (ReadUnlock answer) sh = Some (ReadReturned answer, RUnlock sh)"
| "read_step key (ReadReturned answer) sh = None"

fun stop_step :: "bool \<Rightarrow> stop_pc \<Rightarrow> shared \<Rightarrow> (stop_pc \<times> shared) option" where
  "stop_step close_ok StopLock sh = (if sh_writer sh then None else Some (StopWait, sh\<lparr>sh_writer := True\<rparr>))"
| "stop_step close_ok StopWait sh = (if sh_readers sh = 0 then Some (StopBody, sh) else None)"
| "stop_step close_ok StopBody sh =
     (case Stop close_ok (sh_server sh) of (s, err) \<Rightarrow> Some (StopUnlock err, sh\<lparr>sh_server := s\<rparr>))"
| "stop_step close_ok (StopUnlock err) sh = Some (StopReturned err, sh\<lparr>sh_writer := False\<rparr>)"
| "stop_step close_ok (StopReturned err) sh = None"

text \<open>
  The accept loop. It holds the mutex only to read \<open>running\<close> and the listener, so the three calls
  are one step. \<open>conn\<close> is what \<open>Accept\<close> returns: a connection, here the bytes the client sends on
  it, or an error.
\<close>

fun acceptLoop :: "bytes option \<Rightarrow> accept_pc \<Rightarrow> bytes list \<Rightarrow> shared \<Rightarrow> (accept_pc \<times> bytes list) option" where
  "acceptLoop conn LoopCheck handed sh =
     map_option (\<lambda>sh1. (if sv_running (sh_server sh1) then LoopAccept else LoopEnded, handed)) (RLock sh)"
| "acceptLoop conn LoopAccept handed sh =
     Some (case conn of None \<Rightarrow> (LoopRecheck, handed) | Some c \<Rightarrow> (LoopCheck, handed @ [c]))"
| "acceptLoop conn LoopRecheck handed sh =
     map_option (\<lambda>sh1. (if sv_running (sh_server sh1) then LoopCheck else LoopEnded, handed)) (RLock sh)"
| "acceptLoop conn LoopEnded handed sh = None"

fun go_step :: "bytes option \<Rightarrow> goroutine \<Rightarrow> shared \<Rightarrow> (goroutine \<times> shared) option" where
  "go_step conn (Write_Call key val tomb os pc) sh = map_option (apfst (Write_Call key val tomb os)) (write_step key val tomb os pc sh)"
| "go_step conn (Read_Call key pc) sh = map_option (apfst (Read_Call key)) (read_step key pc sh)"
| "go_step conn (Stop_Call close_ok pc) sh = map_option (apfst (Stop_Call close_ok)) (stop_step close_ok pc sh)"
| "go_step conn (Accept_Loop pc handed) sh = map_option (\<lambda>(pc', handed'). (Accept_Loop pc' handed', sh)) (acceptLoop conn pc handed sh)"

type_synonym system = "goroutine list \<times> shared"

text \<open>A schedule says which goroutine takes each step, and what \<open>Accept\<close> returns if that is what it calls.\<close>

fun turn :: "nat \<times> bytes option \<Rightarrow> system \<Rightarrow> system option" where
  "turn (i, conn) (gs, sh) =
     (if i < length gs then map_option (\<lambda>(g, sh'). (gs[i := g], sh')) (go_step conn (gs ! i) sh) else None)"

fun schedule :: "(nat \<times> bytes option) list \<Rightarrow> system \<Rightarrow> system option" where
  "schedule [] sys = Some sys"
| "schedule (e # es) sys = (case turn e sys of None \<Rightarrow> None | Some sys' \<Rightarrow> schedule es sys')"

fun at_start :: "goroutine \<Rightarrow> bool" where
  "at_start (Write_Call key val tomb os pc) = (pc = WriteLock)"
| "at_start (Read_Call key pc) = (pc = ReadLock)"
| "at_start (Stop_Call close_ok pc) = (pc = StopLock)"
| "at_start (Accept_Loop pc handed) = (pc = LoopCheck \<and> handed = [])"

definition spawn :: "StagwayServer \<Rightarrow> goroutine list \<Rightarrow> system" where
  "spawn s gs = (gs, \<lparr>sh_readers = 0, sh_writer = False, sh_server = s, sh_calls = []\<rparr>)"

lemma schedule_append:
  "schedule (es @ es') sys = (case schedule es sys of None \<Rightarrow> None | Some sys' \<Rightarrow> schedule es' sys')"
  by (induction es arbitrary: sys) (auto split: option.splits)

lemma turn_cases:
  assumes "turn (i, conn) (gs, sh) = Some (gs', sh')"
  obtains g where "i < length gs" "go_step conn (gs ! i) sh = Some (g, sh')" "gs' = gs[i := g]"
  using assms by (auto split: if_splits)

section \<open>A call on its own\<close>

text \<open>The steps of a write that nothing interrupts are the operation \<open>PutGeo\<close> or \<open>FocusTombstone\<close>.\<close>

definition write_operation :: "io \<Rightarrow> bytes \<Rightarrow> bytes \<Rightarrow> bool \<Rightarrow> StagwayServer \<Rightarrow> write_result option" where
  "write_operation os key val tomb s = (if tomb then FocusTombstone os key s else PutGeo os key val s)"

lemma write_alone:
  assumes "write_operation os key val tomb s = Some (s', calls, answer)" "tomb \<longrightarrow> val = []"
  shows "\<exists>n. schedule (replicate n (0, None)) (spawn s [Write_Call key val tomb os WriteLock])
    = Some ([Write_Call key val tomb os (WriteReturned answer)],
        \<lparr>sh_readers = 0, sh_writer = False, sh_server = s', sh_calls = calls\<rparr>)"
proof -
  have short: "\<not> sv_running s \<Longrightarrow> ?thesis"
    using assms by (intro exI [of _ 3])
      (auto simp: write_operation_def PutGeo_def FocusTombstone_def spawn_def RLock_def RUnlock_def numeral_eq_Suc split: if_splits)
  have standalone: "sv_running s \<Longrightarrow> sv_raft s = None \<Longrightarrow> ?thesis"
    using assms by (intro exI [of _ 5])
      (auto simp: write_operation_def PutGeo_def FocusTombstone_def log_and_store_def spawn_def RLock_def RUnlock_def numeral_eq_Suc
        split: if_splits option.splits)
  have refused: ?thesis if "sv_running s" "sv_raft s = Some r" "Submit key val tomb r = Some (r', cs, i, t, False)" for r r' cs i t
    using assms that by (intro exI [of _ 4])
      (auto simp: write_operation_def PutGeo_def FocusTombstone_def spawn_def RLock_def RUnlock_def Let_def numeral_eq_Suc split: if_splits)
  have led: ?thesis if "sv_running s" "sv_raft s = Some r" "Submit key val tomb r = Some (r', cs, i, t, True)" for r r' cs i t
    using assms that by (intro exI [of _ 6])
      (auto simp: write_operation_def PutGeo_def FocusTombstone_def log_and_store_def spawn_def RLock_def RUnlock_def Let_def numeral_eq_Suc
        split: if_splits option.splits)
  have "\<exists>x. Submit key val tomb r = Some x" if "sv_running s" "sv_raft s = Some r" for r
    using assms that by (auto simp: write_operation_def PutGeo_def FocusTombstone_def split: if_splits option.splits)
  then show ?thesis
    using short standalone refused led by (cases "sv_running s"; cases "sv_raft s") (auto, metis (full_types) prod_cases5)
qed

section \<open>The lock\<close>

text \<open>The goroutines that hold the mutex for reading, those between the announcement of \<open>Lock\<close> and \<open>Unlock\<close>, and those that hold it for writing.\<close>

fun in_rlock :: "goroutine \<Rightarrow> bool" where
  "in_rlock (Write_Call key val tomb os pc) = (case pc of WriteLock \<Rightarrow> False | WriteReturned _ \<Rightarrow> False | _ \<Rightarrow> True)"
| "in_rlock (Read_Call key pc) = (case pc of ReadLock \<Rightarrow> False | ReadReturned _ \<Rightarrow> False | _ \<Rightarrow> True)"
| "in_rlock g = False"

fun at_lock :: "goroutine \<Rightarrow> bool" where
  "at_lock (Stop_Call close_ok pc) = (case pc of StopLock \<Rightarrow> False | StopReturned _ \<Rightarrow> False | _ \<Rightarrow> True)"
| "at_lock g = False"

fun in_lock :: "goroutine \<Rightarrow> bool" where
  "in_lock (Stop_Call close_ok pc) = (case pc of StopBody \<Rightarrow> True | StopUnlock _ \<Rightarrow> True | _ \<Rightarrow> False)"
| "in_lock g = False"

abbreviation closed_write :: write_answer where
  "closed_write \<equiv> (-1, -1, False, Some ErrServerClosed)"

abbreviation closed_read :: read_answer where
  "closed_read \<equiv> ([], False, False, Some ErrServerClosed)"

text \<open>A call inside the mutex that saw the server running.\<close>

fun admitted :: "goroutine \<Rightarrow> bool" where
  "admitted (Write_Call key val tomb os pc) =
     (case pc of WriteSubmit \<Rightarrow> True | WriteLog _ _ \<Rightarrow> True | WriteStore _ _ \<Rightarrow> True
      | WriteUnlock answer \<Rightarrow> answer \<noteq> closed_write | _ \<Rightarrow> False)"
| "admitted (Read_Call key pc) = (case pc of ReadUnlock answer \<Rightarrow> answer \<noteq> closed_read | _ \<Rightarrow> False)"
| "admitted g = False"

text \<open>A goroutine that shows that the server was stopped.\<close>

fun saw_stop :: "goroutine \<Rightarrow> bool" where
  "saw_stop (Stop_Call close_ok pc) = (case pc of StopUnlock _ \<Rightarrow> True | StopReturned _ \<Rightarrow> True | _ \<Rightarrow> False)"
| "saw_stop (Accept_Loop pc handed) = (pc = LoopEnded)"
| "saw_stop g = False"

definition lock_inv :: "goroutine list \<Rightarrow> shared \<Rightarrow> bool" where
  "lock_inv gs sh \<longleftrightarrow>
     sh_readers sh = length (filter in_rlock gs)
     \<and> length (filter at_lock gs) = of_bool (sh_writer sh)
     \<and> (list_ex in_lock gs \<longrightarrow> sh_readers sh = 0)
     \<and> (list_ex admitted gs \<longrightarrow> sv_running (sh_server sh))
     \<and> (list_ex saw_stop gs \<longrightarrow> \<not> sv_running (sh_server sh))"

lemma length_filter_update:
  "i < length xs \<Longrightarrow> length (filter Q (xs[i := y])) + of_bool (Q (xs ! i)) = length (filter Q xs) + of_bool (Q y)"
proof (induction xs arbitrary: i)
  case (Cons x xs)
  then show ?case by (cases i) auto
qed simp

lemma list_ex_update: "list_ex Q (xs[i := y]) \<Longrightarrow> list_ex Q xs \<or> Q y"
  by (auto simp: list_ex_iff dest: set_update_subset_insert [THEN subsetD])

lemma list_ex_nth: "i < length xs \<Longrightarrow> Q (xs ! i) \<Longrightarrow> list_ex Q xs"
  by (auto simp: list_ex_iff)

lemma length_filter_pos: "list_ex Q xs \<Longrightarrow> 0 < length (filter Q xs)"
  by (auto simp: list_ex_iff filter_empty_conv)

lemma admitted_in_rlock: "admitted g \<Longrightarrow> in_rlock g"
  by (cases g) (auto split: write_pc.splits read_pc.splits)

lemma in_lock_at_lock: "in_lock g \<Longrightarrow> at_lock g"
  by (cases g) (auto split: stop_pc.splits)

lemma part_keeps:
  "log_part os key val tomb s = Some s' \<Longrightarrow> sv_running s' = sv_running s"
  "store_part key val tomb s = Some s' \<Longrightarrow> sv_running s' = sv_running s"
  by (auto simp: log_part_def store_part_def split: option.splits if_splits)

text \<open>What one step does to the counters, and when it changes \<open>running\<close>.\<close>

lemma step_counts:
  assumes "go_step conn g sh = Some (g', sh')"
  shows "sh_readers sh' = sh_readers sh + of_bool (in_rlock g') - of_bool (in_rlock g)"
    and "of_bool (sh_writer sh') = of_bool (sh_writer sh) + (of_bool (at_lock g') :: nat) - of_bool (at_lock g)"
    and "in_rlock g' \<Longrightarrow> \<not> in_rlock g \<Longrightarrow> \<not> sh_writer sh"
    and "at_lock g' \<Longrightarrow> \<not> at_lock g \<Longrightarrow> \<not> sh_writer sh"
    and "in_lock g' \<Longrightarrow> \<not> in_lock g \<Longrightarrow> sh_readers sh = 0"
  using assms
  by (cases g; auto simp: RLock_def RUnlock_def Stop_def Let_def elim!: write_step.elims read_step.elims stop_step.elims
      split: if_splits option.splits)+

lemma step_running:
  assumes "go_step conn g sh = Some (g', sh')"
  shows "sv_running (sh_server sh') \<longleftrightarrow> sv_running (sh_server sh) \<and> \<not> (\<exists>ok. g = Stop_Call ok StopBody)"
    and "admitted g' \<Longrightarrow> admitted g \<or> sv_running (sh_server sh')"
    and "saw_stop g' \<Longrightarrow> saw_stop g \<or> \<not> sv_running (sh_server sh')"
  using assms
  by (cases g; auto simp: RLock_def RUnlock_def Stop_def GetGeo_def Let_def part_keeps
      elim!: write_step.elims read_step.elims stop_step.elims acceptLoop.elims split: if_splits option.splits)+

lemma in_lock_not_rlock: "in_lock g \<Longrightarrow> \<not> in_rlock g"
  by (cases g) auto

lemma lock_inv_turn:
  assumes "lock_inv gs sh" "turn (i, conn) (gs, sh) = Some (gs', sh')"
  shows "lock_inv gs' sh'"
proof -
  from assms(2) obtain g where g: "i < length gs" "go_step conn (gs ! i) sh = Some (g, sh')" "gs' = gs[i := g]"
    by (rule turn_cases)
  note inv = assms(1) [unfolded lock_inv_def]
  note counts = step_counts [OF g(2)] and running = step_running [OF g(2)]
  have readers: "sh_readers sh' = length (filter in_rlock gs')"
    using length_filter_update [OF g(1), of in_rlock g] counts(1) inv list_ex_nth [OF g(1), of in_rlock] length_filter_pos [of in_rlock gs]
    by (auto simp: g(3))
  have writer: "length (filter at_lock gs') = of_bool (sh_writer sh')"
    using length_filter_update [OF g(1), of at_lock g] counts(2) inv list_ex_nth [OF g(1), of at_lock]
      length_filter_pos [of at_lock gs]
    by (auto simp: g(3))
  have "sh_readers sh' = 0" if "list_ex in_lock gs'"
  proof (cases "list_ex in_lock gs")
    case True
    then have "list_ex at_lock gs" using in_lock_at_lock by (auto simp: list_ex_iff)
    then have "sh_writer sh" using inv length_filter_pos [of at_lock gs] by (auto split: if_splits)
    then show ?thesis using True inv counts(1,3) by (auto simp: of_bool_def)
  next
    case False
    then have "in_lock g" "\<not> in_lock (gs ! i)" using that list_ex_update [of in_lock gs i g] list_ex_nth [OF g(1)] by (auto simp: g(3))
    then show ?thesis using counts(1,5) in_lock_not_rlock [of g] by simp
  qed
  moreover have still: "sv_running (sh_server sh')" if "list_ex admitted gs"
  proof -
    have "list_ex in_rlock gs" using that admitted_in_rlock by (auto simp: list_ex_iff)
    then have "\<not> list_ex in_lock gs" using inv length_filter_pos [of in_rlock gs] by auto
    then have "\<not> (\<exists>ok. gs ! i = Stop_Call ok StopBody)" using list_ex_nth [OF g(1), of in_lock] by fastforce
    then show ?thesis using running(1) that inv by simp
  qed
  moreover have "sv_running (sh_server sh')" if "list_ex admitted gs'"
    using that still list_ex_update [of admitted gs i g] running(2) list_ex_nth [OF g(1), of admitted] by (auto simp: g(3))
  moreover have "\<not> sv_running (sh_server sh')" if "list_ex saw_stop gs'"
    using that inv list_ex_update [of saw_stop gs i g] running(1,3) list_ex_nth [OF g(1), of saw_stop] by (auto simp: g(3))
  ultimately show ?thesis using readers writer by (simp add: lock_inv_def)
qed

lemma schedule_induct [consumes 1, case_names Nil Cons]:
  assumes "schedule es (gs, sh) = Some (gs', sh')"
    and "\<And>gs sh. R [] gs sh gs sh"
    and "\<And>i conn es gs sh gs1 sh1 gs' sh'. turn (i, conn) (gs, sh) = Some (gs1, sh1)
      \<Longrightarrow> schedule es (gs1, sh1) = Some (gs', sh') \<Longrightarrow> R es gs1 sh1 gs' sh' \<Longrightarrow> R ((i, conn) # es) gs sh gs' sh'"
  shows "R es gs sh gs' sh'"
  using assms(1)
proof (induction es arbitrary: gs sh)
  case (Cons e es)
  obtain i conn where e: "e = (i, conn)" by (cases e)
  obtain gs1 sh1 where "turn e (gs, sh) = Some (gs1, sh1)" "schedule es (gs1, sh1) = Some (gs', sh')"
    using Cons.prems by (auto split: option.splits)
  then show ?case using Cons.IH assms(3) by (simp add: e)
qed (use assms(2) in auto)

lemma lock_inv_schedule: "schedule es (gs, sh) = Some (gs', sh') \<Longrightarrow> lock_inv gs sh \<Longrightarrow> lock_inv gs' sh'"
  by (induction rule: schedule_induct) (auto simp del: turn.simps intro: lock_inv_turn)

lemma lock_inv_spawn:
  assumes "list_all at_start gs" "schedule es (spawn s gs) = Some (gs', sh')"
  shows "lock_inv gs' sh'"
proof (rule lock_inv_schedule [OF assms(2) [unfolded spawn_def]])
  have "\<not> in_rlock g \<and> \<not> at_lock g \<and> \<not> in_lock g \<and> \<not> admitted g \<and> \<not> saw_stop g" if "at_start g" for g
    using that by (cases g) auto
  then show "lock_inv gs \<lparr>sh_readers = 0, sh_writer = False, sh_server = s, sh_calls = []\<rparr>"
    using assms(1) by (auto simp: lock_inv_def list_ex_iff list_all_iff filter_empty_conv)
qed

section \<open>Stopping\<close>

lemma step_stopped:
  assumes "go_step conn g sh = Some (g', sh')" "\<not> sv_running (sh_server sh)" "\<not> admitted g"
  shows "sh_server sh' = sh_server sh \<and> sh_calls sh' = sh_calls sh
    \<and> (\<forall>key val tomb os answer. g' = Write_Call key val tomb os (WriteReturned answer) \<longrightarrow> answer = closed_write)
    \<and> (\<forall>key answer. g' = Read_Call key (ReadReturned answer) \<longrightarrow> answer = closed_read)"
  using assms
  by (cases g; auto simp: RLock_def RUnlock_def Stop_def GetGeo_def elim!: write_step.elims read_step.elims stop_step.elims
      split: if_splits option.splits)

definition late :: "goroutine \<Rightarrow> goroutine \<Rightarrow> bool" where
  "late g g' \<longleftrightarrow> g' \<noteq> g \<longrightarrow>
     (\<forall>key val tomb os answer. g' = Write_Call key val tomb os (WriteReturned answer) \<longrightarrow> answer = closed_write)
     \<and> (\<forall>key answer. g' = Read_Call key (ReadReturned answer) \<longrightarrow> answer = closed_read)"

lemma stopped_schedule:
  assumes "schedule es (gs, sh) = Some (gs', sh')" "lock_inv gs sh" "\<not> sv_running (sh_server sh)"
  shows "sh_server sh' = sh_server sh \<and> sh_calls sh' = sh_calls sh \<and> length gs' = length gs
    \<and> (\<forall>i < length gs. late (gs ! i) (gs' ! i))"
  using assms
proof (induction rule: schedule_induct)
  case (Cons i conn es gs sh gs1 sh1 gs' sh')
  from Cons.hyps(1) obtain g where g: "i < length gs" "go_step conn (gs ! i) sh = Some (g, sh1)" "gs1 = gs[i := g]"
    by (rule turn_cases)
  have "\<not> admitted (gs ! i)" using Cons.prems list_ex_nth [OF g(1), of admitted] by (auto simp: lock_inv_def)
  note one = step_stopped [OF g(2) Cons.prems(2) this]
  have rest: "sh_server sh' = sh_server sh1" "sh_calls sh' = sh_calls sh1" "length gs' = length gs"
    "\<And>j. j < length gs \<Longrightarrow> late (gs1 ! j) (gs' ! j)"
    using Cons.IH Cons.prems lock_inv_turn [OF Cons.prems(1) Cons.hyps(1)] one by (auto simp: g(3))
  have "late (gs ! j) (gs' ! j)" if "j < length gs" for j
    using rest(4) [OF that] one by (cases "j = i") (auto simp: g(1,3) late_def)
  then show ?case using rest one by simp
qed (simp add: late_def)



section \<open>The accept loop\<close>

lemma other_kept: "turn (i, conn) (gs, sh) = Some (gs', sh') \<Longrightarrow> j \<noteq> i \<Longrightarrow> gs' ! j = gs ! j"
  by (auto split: if_splits)

fun stops :: "goroutine \<Rightarrow> bool" where
  "stops (Stop_Call close_ok pc) = True"
| "stops g = False"

lemma step_stops: "go_step conn g sh = Some (g', sh') \<Longrightarrow> stops g' = stops g"
  by (cases g) auto

lemma no_stop_schedule:
  assumes "schedule es (gs, sh) = Some (gs', sh')" "\<not> list_ex stops gs" "sv_running (sh_server sh)"
  shows "\<not> list_ex stops gs' \<and> sv_running (sh_server sh')"
  using assms
proof (induction rule: schedule_induct)
  case (Cons i conn es gs sh gs1 sh1 gs' sh')
  from Cons.hyps(1) obtain g where g: "i < length gs" "go_step conn (gs ! i) sh = Some (g, sh1)" "gs1 = gs[i := g]"
    by (rule turn_cases)
  have "\<not> stops (gs ! i)" using Cons.prems(1) list_ex_nth [OF g(1), of stops] by blast
  then have "\<not> list_ex stops gs1" "sv_running (sh_server sh1)"
    using step_stops [OF g(2)] step_running(1) [OF g(2)] Cons.prems list_ex_update [of stops gs i g] by (auto simp: g(3))
  then show ?case by (rule Cons.IH)
qed simp

text \<open>The steps the loop still takes once the server is stopped.\<close>

fun steps_left :: "accept_pc \<Rightarrow> nat" where
  "steps_left LoopCheck = 1"
| "steps_left LoopAccept = 2"
| "steps_left LoopRecheck = 1"
| "steps_left LoopEnded = 0"

lemma accept_step_stopped:
  assumes "acceptLoop conn pc handed sh = Some (pc', handed')" "\<not> sv_running (sh_server sh)"
  shows "Suc (steps_left pc') = steps_left pc \<and> pc' \<noteq> LoopAccept
    \<and> (\<exists>new. handed' = handed @ new \<and> length new \<le> of_bool (pc = LoopAccept))"
  using assms by (cases pc) (auto simp: RLock_def split: if_splits option.splits)

lemma accept_loop_stopped:
  assumes "schedule es (gs, sh) = Some (gs', sh')" "lock_inv gs sh" "\<not> sv_running (sh_server sh)" "gs ! k = Accept_Loop pc handed"
  shows "\<exists>pc' new. gs' ! k = Accept_Loop pc' (handed @ new) \<and> length new \<le> of_bool (pc = LoopAccept)
    \<and> length (filter (\<lambda>e. fst e = k) es) + steps_left pc' = steps_left pc"
  using assms
proof (induction arbitrary: pc handed rule: schedule_induct)
  case (Cons i conn es gs sh gs1 sh1 gs' sh')
  have stopped: "lock_inv gs1 sh1" "\<not> sv_running (sh_server sh1)"
    using lock_inv_turn [OF Cons.prems(1) Cons.hyps(1)] stopped_schedule [of "[(i, conn)]" gs sh gs1 sh1] Cons.prems Cons.hyps(1)
    by (auto simp del: turn.simps)
  show ?case
  proof (cases "i = k")
    case True
    obtain pc1 handed1 where one: "acceptLoop conn pc handed sh = Some (pc1, handed1)" "gs1 ! k = Accept_Loop pc1 handed1"
      using Cons.hyps(1) Cons.prems(3) by (auto simp: True split: if_splits)
    note step = accept_step_stopped [OF one(1) Cons.prems(2)]
    then obtain new where new: "handed1 = handed @ new" "length new \<le> of_bool (pc = LoopAccept)" by blast
    from Cons.IH [OF stopped one(2)] show ?thesis using step new by (auto simp: True)
  next
    case False
    then have "gs1 ! k = Accept_Loop pc handed" using other_kept [OF Cons.hyps(1)] Cons.prems(3) by simp
    from Cons.IH [OF stopped this] show ?thesis using False by simp
  qed
qed simp

lemma accept_loop_moves:
  "gs ! k = Accept_Loop pc handed \<Longrightarrow> k < length gs \<Longrightarrow> pc \<noteq> LoopEnded \<Longrightarrow> \<not> sh_writer sh \<Longrightarrow> turn (k, conn) (gs, sh) \<noteq> None"
  by (cases pc) (auto simp: RLock_def split: option.splits)

lemma no_stop_no_writer: "lock_inv gs sh \<Longrightarrow> \<not> list_ex stops gs \<Longrightarrow> \<not> sh_writer sh"
proof -
  assume "lock_inv gs sh" "\<not> list_ex stops gs"
  moreover have "at_lock g \<Longrightarrow> stops g" for g by (cases g) auto
  ultimately have "filter at_lock gs = []" "length (filter at_lock gs) = of_bool (sh_writer sh)"
    by (auto simp: lock_inv_def list_ex_iff filter_empty_conv)
  then show ?thesis by simp
qed

text \<open>
  C29: The accept loop runs as long as the server does. Without a call of \<open>Stop\<close> it never ends and
  never has to wait for the mutex, whatever \<open>Accept\<close> returns and however the client calls interleave
  with it. Once a call of \<open>Stop\<close> has returned it takes at most two more steps and hands over at most
  one more connection, and until it has ended only another call of \<open>Stop\<close> in the mutex can hold it up.
\<close>

theorem accept_loop_ends_when_stopped:
  assumes "list_all at_start gs" "k < length gs" "sv_running s"
    and "schedule es (spawn s gs) = Some (gs1, sh1)" "gs1 ! k = Accept_Loop pc handed"
  shows "((\<forall>close_ok. Stop_Call close_ok StopLock \<notin> set gs) \<longrightarrow>
       pc \<noteq> LoopEnded \<and> (\<forall>conn. turn (k, conn) (gs1, sh1) \<noteq> None))
    \<and> (\<forall>close_ok err es' gs2 sh2. Stop_Call close_ok (StopReturned err) \<in> set gs1 \<and> schedule es' (gs1, sh1) = Some (gs2, sh2) \<longrightarrow>
       (\<exists>pc' new. gs2 ! k = Accept_Loop pc' (handed @ new) \<and> length new \<le> 1 \<and> length (filter (\<lambda>e. fst e = k) es') \<le> 2
         \<and> (pc' = LoopEnded \<or> sh_writer sh2 \<or> (\<forall>conn. turn (k, conn) (gs2, sh2) \<noteq> None))))"
proof -
  note inv = lock_inv_spawn [OF assms(1,4)]
  have len: "length gs' = length gs0" if "schedule es0 (gs0, sh0) = Some (gs', sh')" for es0 gs0 sh0 gs' sh'
    using that by (induction rule: schedule_induct) (auto split: if_splits)
  have k: "k < length gs1" using len [OF assms(4) [unfolded spawn_def]] assms(2) by simp
  have "pc \<noteq> LoopEnded \<and> (\<forall>conn. turn (k, conn) (gs1, sh1) \<noteq> None)" if no: "\<forall>close_ok. Stop_Call close_ok StopLock \<notin> set gs"
  proof -
    have "at_start g \<Longrightarrow> stops g \<Longrightarrow> \<exists>close_ok. g = Stop_Call close_ok StopLock" for g by (cases g) auto
    then have "\<not> list_ex stops gs" using no assms(1) by (auto simp: list_ex_iff list_all_iff)
    from no_stop_schedule [OF assms(4) [unfolded spawn_def] this] assms(3)
    have run: "\<not> list_ex stops gs1" "sv_running (sh_server sh1)" by simp_all
    then have "pc \<noteq> LoopEnded" using inv list_ex_nth [OF k, of saw_stop] assms(5) by (auto simp: lock_inv_def)
    then show ?thesis using accept_loop_moves [OF assms(5) k] no_stop_no_writer [OF inv run(1)] by blast
  qed
  moreover have "\<exists>pc' new. gs2 ! k = Accept_Loop pc' (handed @ new) \<and> length new \<le> 1 \<and> length (filter (\<lambda>e. fst e = k) es') \<le> 2
         \<and> (pc' = LoopEnded \<or> sh_writer sh2 \<or> (\<forall>conn. turn (k, conn) (gs2, sh2) \<noteq> None))"
    if stop: "Stop_Call close_ok (StopReturned err) \<in> set gs1" and go: "schedule es' (gs1, sh1) = Some (gs2, sh2)" for close_ok err es' gs2 sh2
  proof -
    have "list_ex saw_stop gs1" using stop by (force simp: list_ex_iff)
    then have "\<not> sv_running (sh_server sh1)" using inv by (simp add: lock_inv_def)
    from accept_loop_stopped [OF go inv this assms(5)] obtain pc' new where
      p: "gs2 ! k = Accept_Loop pc' (handed @ new)" "length new \<le> of_bool (pc = LoopAccept)"
      "length (filter (\<lambda>e. fst e = k) es') + steps_left pc' = steps_left pc" by blast
    have "steps_left pc \<le> 2" by (cases pc) auto
    then have "length (filter (\<lambda>e. fst e = k) es') \<le> 2" using p(3) by linarith
    moreover have "length new \<le> 1" using p(2) by (cases "pc = LoopAccept") simp_all
    ultimately show ?thesis using p(1) accept_loop_moves [OF p(1)] k len [OF go] by metis
  qed
  ultimately show ?thesis by blast
qed

theorem accept_loop_ends_when_stopped_witness:
  "\<exists>gs1 sh1 gs2 sh2. schedule [(0, None), (1, None), (1, None), (1, None), (1, None)]
        (spawn sample_server [Accept_Loop LoopCheck [], Stop_Call True StopLock]) = Some (gs1, sh1)
    \<and> schedule [(0, Some [80]), (0, None)] (gs1, sh1) = Some (gs2, sh2) \<and> gs2 ! 0 = Accept_Loop LoopEnded [[80]]
    \<and> (\<exists>pc' new. gs2 ! 0 = Accept_Loop pc' ([] @ new) \<and> length new \<le> 1)"
proof -
  let ?gs = "[Accept_Loop LoopCheck [], Stop_Call True StopLock]"
  obtain gs1 sh1 where one: "schedule [(0, None), (1, None), (1, None), (1, None), (1, None)] (spawn sample_server ?gs) = Some (gs1, sh1)"
      "gs1 ! 0 = Accept_Loop LoopAccept []" "Stop_Call True (StopReturned None) \<in> set gs1"
    and "\<exists>gs2 sh2. schedule [(0, Some [80]), (0, None)] (gs1, sh1) = Some (gs2, sh2) \<and> gs2 ! 0 = Accept_Loop LoopEnded [[80]]"
    by (simp add: spawn_def sample_server_def Start_def NewStagwayServer_def Stop_def RLock_def Let_def)
  then obtain gs2 sh2 where two: "schedule [(0, Some [80]), (0, None)] (gs1, sh1) = Some (gs2, sh2)"
    "gs2 ! 0 = Accept_Loop LoopEnded [[80]]" by blast
  have at: "list_all at_start ?gs" "0 < length ?gs" "sv_running sample_server"
    by (simp_all add: sample_server_def Start_def NewStagwayServer_def)
  from accept_loop_ends_when_stopped [OF at one(1,2)] one(3) two(1)
  have "\<exists>pc' new. gs2 ! 0 = Accept_Loop pc' ([] @ new) \<and> length new \<le> 1" by blast
  then show ?thesis using one(1) two by blast
qed

section \<open>Two writes at the same time\<close>

lemma write_reaches_store:
  assumes "i < length gs" "gs ! i = Write_Call key val False io_ok WriteLock" "\<not> sh_writer sh" "server_ok (sh_server sh)"
    and "sv_wal (sh_server sh) = Some w" "\<not> w_closed w" "SyncOnWrite (w_opts w)" "small key val"
  shows "\<exists>n idx t sh' w'. schedule (replicate n (i, None)) (gs, sh) = Some (gs[i := Write_Call key val False io_ok (WriteStore idx t)], sh')
    \<and> \<not> sh_writer sh' \<and> sh_readers sh' = Suc (sh_readers sh) \<and> server_ok (sh_server sh')
    \<and> sv_wal (sh_server sh') = Some w' \<and> \<not> w_closed w' \<and> w_opts w' = w_opts w
    \<and> f_data (w_file w') = f_data (w_file w) @ entry_bytes (entry_of key val False)
    \<and> f_synced (w_file w') = length (f_data (w_file w'))"
proof (cases "sv_raft (sh_server sh)")
  case None
  obtain w' where w': "log_part io_ok key val False (sh_server sh) = Some ((sh_server sh)\<lparr>sv_wal := Some w'\<rparr>)" "\<not> w_closed w'"
    "w_opts w' = w_opts w" "f_data (w_file w') = f_data (w_file w) @ entry_bytes (entry_of key val False)"
    "f_synced (w_file w') = length (f_data (w_file w'))"
    using log_part_written [OF assms(5-8)] by blast
  show ?thesis
    using assms(1-4) None w'
    by (intro exI [of _ 3] exI [of _ 1] exI [of _ "sh\<lparr>sh_readers := Suc (sh_readers sh), sh_server := (sh_server sh)\<lparr>sv_wal := Some w'\<rparr>\<rparr>"] exI [of _ w'])
      (simp add: numeral_eq_Suc RLock_def server_ok_def)
next
  case (Some r)
  obtain r' calls idx t where r': "Submit key val False r = Some (r', calls, idx, t, True)" "ready r'"
    using Submit_ready [of r key val False] assms(4) Some by (auto simp: server_ok_def)
  let ?s = "(sh_server sh)\<lparr>sv_raft := Some r'\<rparr>"
  have wal: "sv_wal ?s = Some w" using assms(5) by simp
  obtain w' where w': "log_part io_ok key val False ?s = Some (?s\<lparr>sv_wal := Some w'\<rparr>)" "\<not> w_closed w'"
    "w_opts w' = w_opts w" "f_data (w_file w') = f_data (w_file w) @ entry_bytes (entry_of key val False)"
    "f_synced (w_file w') = length (f_data (w_file w'))"
    using log_part_written [OF wal assms(6-8)] by blast
  show ?thesis
    using assms(1-4) Some r' w'
    by (intro exI [of _ 4] exI [of _ idx] exI [of _ t] exI [of _ w']
        exI [of _ "sh\<lparr>sh_readers := Suc (sh_readers sh), sh_server := ?s\<lparr>sv_wal := Some w'\<rparr>, sh_calls := sh_calls sh @ calls\<rparr>"])
      (simp add: numeral_eq_Suc RLock_def server_ok_def)
qed

lemma write_finishes:
  assumes "i < length gs" "gs ! i = Write_Call key val False os (WriteStore idx t)" "server_ok (sh_server sh)"
  shows "\<exists>sh'. schedule (replicate 2 (i, None)) (gs, sh) = Some (gs[i := Write_Call key val False os (WriteReturned (idx, t, True, None))], sh')
    \<and> server_ok (sh_server sh') \<and> sv_wal (sh_server sh') = sv_wal (sh_server sh)
    \<and> server_view (sh_server sh') = (server_view (sh_server sh))(key \<mapsto> (val, False))"
proof -
  obtain m where m: "sv_memTable (sh_server sh) = Some m" "mem_inv m" using assms(3) by (auto simp: server_ok_def)
  obtain m' where m': "store_part key val False (sh_server sh) = Some ((sh_server sh)\<lparr>sv_memTable := Some m'\<rparr>)" "mem_inv m'"
    "mem_view m' = (mem_view m)(key \<mapsto> (val, False))"
    using store_part_ok [of "sh_server sh" m False val key] m by auto
  show ?thesis
    using assms m m'
    by (intro exI [of _ "sh\<lparr>sh_readers := sh_readers sh - 1, sh_server := (sh_server sh)\<lparr>sv_memTable := Some m'\<rparr>\<rparr>"])
      (auto simp: numeral_eq_Suc RUnlock_def server_ok_def server_view_def fun_eq_iff)
qed

text \<open>Two writes of one key reach the log in one order and the MemTable in the other.\<close>

lemma writes_cross:
  assumes "server_ok s" "sv_wal s = Some w" "\<not> w_closed w" "SyncOnWrite (w_opts w)" "small key v1" "small key v2"
  shows "\<exists>es idx1 t1 idx2 t2 sh w'.
      schedule es (spawn s [Write_Call key v1 False io_ok WriteLock, Write_Call key v2 False io_ok WriteLock])
      = Some ([Write_Call key v1 False io_ok (WriteReturned (idx1, t1, True, None)),
               Write_Call key v2 False io_ok (WriteReturned (idx2, t2, True, None))], sh)
    \<and> server_ok (sh_server sh) \<and> server_view (sh_server sh) key = Some (v1, False) \<and> sv_wal (sh_server sh) = Some w'
    \<and> f_data (w_file w') = f_data (w_file w) @ entry_bytes (entry_of key v1 False) @ entry_bytes (entry_of key v2 False)
    \<and> f_synced (w_file w') = length (f_data (w_file w'))"
proof -
  let ?a = "Write_Call key v1 False io_ok" and ?b = "Write_Call key v2 False io_ok"
  obtain sh0 where sh0: "spawn s [?a WriteLock, ?b WriteLock] = ([?a WriteLock, ?b WriteLock], sh0)" "\<not> sh_writer sh0" "sh_server sh0 = s"
    by (simp add: spawn_def)
  obtain n1 idx1 t1 sh1 w1 where s1: "schedule (replicate n1 (0, None)) ([?a WriteLock, ?b WriteLock], sh0) = Some ([?a (WriteStore idx1 t1), ?b WriteLock], sh1)"
    "\<not> sh_writer sh1" "server_ok (sh_server sh1)" "sv_wal (sh_server sh1) = Some w1" "\<not> w_closed w1" "w_opts w1 = w_opts w"
    "f_data (w_file w1) = f_data (w_file w) @ entry_bytes (entry_of key v1 False)"
    using write_reaches_store [of 0 "[?a WriteLock, ?b WriteLock]" key v1 sh0 w] assms sh0 by auto
  obtain n2 idx2 t2 sh2 w2 where s2: "schedule (replicate n2 (1, None)) ([?a (WriteStore idx1 t1), ?b WriteLock], sh1)
      = Some ([?a (WriteStore idx1 t1), ?b (WriteStore idx2 t2)], sh2)" "server_ok (sh_server sh2)" "sv_wal (sh_server sh2) = Some w2"
    "f_data (w_file w2) = f_data (w_file w1) @ entry_bytes (entry_of key v2 False)" "f_synced (w_file w2) = length (f_data (w_file w2))"
    using write_reaches_store [of 1 "[?a (WriteStore idx1 t1), ?b WriteLock]" key v2 sh1 w1] assms s1 by auto
  obtain sh3 where s3: "schedule (replicate 2 (1, None)) ([?a (WriteStore idx1 t1), ?b (WriteStore idx2 t2)], sh2)
      = Some ([?a (WriteStore idx1 t1), ?b (WriteReturned (idx2, t2, True, None))], sh3)" "server_ok (sh_server sh3)"
      "sv_wal (sh_server sh3) = Some w2"
    using write_finishes [of 1 "[?a (WriteStore idx1 t1), ?b (WriteStore idx2 t2)]" key v2 io_ok idx2 t2 sh2] s2 by auto
  obtain sh4 where s4: "schedule (replicate 2 (0, None)) ([?a (WriteStore idx1 t1), ?b (WriteReturned (idx2, t2, True, None))], sh3)
      = Some ([?a (WriteReturned (idx1, t1, True, None)), ?b (WriteReturned (idx2, t2, True, None))], sh4)" "server_ok (sh_server sh4)"
      "sv_wal (sh_server sh4) = Some w2" "server_view (sh_server sh4) key = Some (v1, False)"
    using write_finishes [of 0 "[?a (WriteStore idx1 t1), ?b (WriteReturned (idx2, t2, True, None))]" key v1 io_ok idx1 t1 sh3] s3 by auto
  have "schedule (replicate n1 (0, None) @ replicate n2 (1, None) @ replicate 2 (1, None) @ replicate 2 (0, None)) (spawn s [?a WriteLock, ?b WriteLock])
      = Some ([?a (WriteReturned (idx1, t1, True, None)), ?b (WriteReturned (idx2, t2, True, None))], sh4)"
    unfolding sh0 schedule_append s1(1) option.case s2(1) s3(1) s4(1) ..
  then show ?thesis using s1(7) s2(4,5) s4(2-4) by (metis append.assoc)
qed

end
