(* ===== verification/Cli.thy ===== *)
theory Cli
  imports Stagway Flags
begin

text \<open>
  The command line client, \<open>cmd/hallownest-cli/main.go\<close>: the flags, the requests it sends and what
  it makes of the responses. A text on the terminal is a constructor of \<open>printed\<close>. The connection is
  an argument: whether dialling and sending succeed, and the bytes that arrive before it closes.
\<close>

section \<open>The command line\<close>

definition printUsage :: "string list" where
  "printUsage =
     [''HallownestKV CLI Client (Stagway Transport)'',
      ''Usage:'',
      ''  hallownest-cli put --key <key> --value <value> [--addr 127.0.0.1:50051]'',
      ''  hallownest-cli get --key <key> [--addr 127.0.0.1:50051]'',
      ''  hallownest-cli delete --key <key> [--addr 127.0.0.1:50051]'']"

text \<open>What the process does: run a command, or print something and exit.\<close>

datatype command =
    RunPut string bytes bytes
  | RunGet string bytes
  | RunDelete string bytes
  | UsageExit "string list" int
  | KeyRequiredExit int
  | BadFlagsExit int

definition main :: "string list \<Rightarrow> command" where
  "main args =
     (case args of
        _ # command # rest \<Rightarrow>
          if command = ''put'' then
            (case Parse (map string_flag [''addr'', ''key'', ''value'']) rest [] of
               FlagExit n \<Rightarrow> BadFlagsExit n
             | Flags vals \<Rightarrow>
                 let addr = flag_value vals ''addr'' ''127.0.0.1:50051'';
                     key = flag_value vals ''key'' '''';
                     val = flag_value vals ''value'' ''''
                 in if key = '''' then KeyRequiredExit 1 else RunPut addr (ascii key) (ascii val))
          else if command = ''get'' then
            (case Parse (map string_flag [''addr'', ''key'']) rest [] of
               FlagExit n \<Rightarrow> BadFlagsExit n
             | Flags vals \<Rightarrow>
                 let addr = flag_value vals ''addr'' ''127.0.0.1:50051'';
                     key = flag_value vals ''key'' ''''
                 in if key = '''' then KeyRequiredExit 1 else RunGet addr (ascii key))
          else if command = ''delete'' then
            (case Parse (map string_flag [''addr'', ''key'']) rest [] of
               FlagExit n \<Rightarrow> BadFlagsExit n
             | Flags vals \<Rightarrow>
                 let addr = flag_value vals ''addr'' ''127.0.0.1:50051'';
                     key = flag_value vals ''key'' ''''
                 in if key = '''' then KeyRequiredExit 1 else RunDelete addr (ascii key))
          else UsageExit printUsage 1
      | _ \<Rightarrow> UsageExit printUsage 1)"

section \<open>Requests and responses\<close>

datatype printed =
    ConnectionError
  | SendError
  | ReadError
  | PutOk u32 u32 bool
  | PutFailed bool
  | NotFound
  | KeyDeleted
  | ValueIs bytes
  | TombstoneInserted u32 u32
  | DeleteFailed

text \<open>
  The request of \<open>executePut\<close>; \<open>None\<close> is the panic of the slice expressions when the 32-bit sum
  \<open>9+keyLen+valLen\<close> wraps around.
\<close>

definition put_request :: "bytes \<Rightarrow> bytes \<Rightarrow> bytes option" where
  "put_request key val =
     (let keyLen = of_nat (length key) :: u32;
          valLen = of_nat (length val) :: u32;
          total = 9 + keyLen + valLen
      in if total < 9 \<or> 9 + keyLen < 9 \<or> total < 9 + keyLen then None
         else Some ([OpPut] @ PutUint32 keyLen @ PutUint32 valLen @ take (unat keyLen) key @ take (unat valLen) val))"

text \<open>The request of \<open>executeGet\<close> and \<open>executeDelete\<close>.\<close>

definition key_request :: "byte \<Rightarrow> bytes \<Rightarrow> bytes option" where
  "key_request op key =
     (let keyLen = of_nat (length key) :: u32 in
      if 9 + keyLen < 9 then None
      else Some ([op] @ PutUint32 keyLen @ PutUint32 0 @ take (unat keyLen) key))"

definition executePut :: "bool \<Rightarrow> bool \<Rightarrow> bytes \<Rightarrow> bytes \<Rightarrow> bytes \<Rightarrow> printed option" where
  "executePut dial_ok send_ok arriving key val =
     (if \<not> dial_ok then Some ConnectionError
      else case put_request key val of
        None \<Rightarrow> None
      | Some reqBuf \<Rightarrow>
          if \<not> send_ok then Some SendError
          else case readFull 10 arriving of
            None \<Rightarrow> Some ReadError
          | Some (respBuf, _) \<Rightarrow>
              let success = (respBuf ! 0 = 1);
                  index = Uint32 (take 4 (drop 1 respBuf));
                  t = Uint32 (take 4 (drop 5 respBuf));
                  isLeader = (respBuf ! 9 = 1)
              in Some (if success then PutOk index t isLeader else PutFailed isLeader))"

definition executeGet :: "bool \<Rightarrow> bool \<Rightarrow> bytes \<Rightarrow> bytes \<Rightarrow> printed option" where
  "executeGet dial_ok send_ok arriving key =
     (if \<not> dial_ok then Some ConnectionError
      else case key_request OpGet key of
        None \<Rightarrow> None
      | Some reqBuf \<Rightarrow>
          if \<not> send_ok then Some SendError
          else case readFull 6 arriving of
            None \<Rightarrow> Some ReadError
          | Some (hdrBuf, left) \<Rightarrow>
              let found = (hdrBuf ! 0 = 1);
                  tombstone = (hdrBuf ! 1 = 1);
                  valLen = Uint32 (take 4 (drop 2 hdrBuf))
              in if \<not> found then Some NotFound
                 else if tombstone then Some KeyDeleted
                 else case readFull (unat valLen) left of
                   None \<Rightarrow> Some ReadError
                 | Some (valBuf, _) \<Rightarrow> Some (ValueIs valBuf))"

definition executeDelete :: "bool \<Rightarrow> bool \<Rightarrow> bytes \<Rightarrow> bytes \<Rightarrow> printed option" where
  "executeDelete dial_ok send_ok arriving key =
     (if \<not> dial_ok then Some ConnectionError
      else case key_request OpTombstone key of
        None \<Rightarrow> None
      | Some reqBuf \<Rightarrow>
          if \<not> send_ok then Some SendError
          else case readFull 10 arriving of
            None \<Rightarrow> Some ReadError
          | Some (respBuf, _) \<Rightarrow>
              let success = (respBuf ! 0 = 1);
                  index = Uint32 (take 4 (drop 1 respBuf));
                  t = Uint32 (take 4 (drop 5 respBuf))
              in Some (if success then TombstoneInserted index t else DeleteFailed))"

section \<open>Client and server\<close>

lemma put_request_bytes:
  assumes "small key val"
  shows "put_request key val = Some (request_bytes (OpPut, key, val))"
proof -
  have l: "length key + length val < 2 ^ 32" "length key < 2 ^ 32" "length val < 2 ^ 32"
    using assms by (auto simp: small_def)
  have "unat (9 + of_nat (length key) + of_nat (length val) :: u32) = 9 + length key + length val"
    "unat (9 + of_nat (length key) :: u32) = 9 + length key"
    using assms unat_of_nat_u32 [of "9 + length key + length val"] unat_of_nat_u32 [of "9 + length key"]
    by (simp_all add: small_def)
  then show ?thesis
    using l unat_of_nat_u32 by (simp add: put_request_def Let_def request_bytes_def word_less_nat_alt)
qed

lemma key_request_bytes:
  assumes "small key []"
  shows "key_request op key = Some (request_bytes (op, key, []))"
proof -
  have "unat (9 + of_nat (length key) :: u32) = 9 + length key" "unat (of_nat (length key) :: u32) = length key"
    using assms unat_of_nat_u32 [of "9 + length key"] unat_of_nat_u32 [of "length key"] by (simp_all add: small_def)
  then show ?thesis by (simp add: key_request_def Let_def request_bytes_def word_less_nat_alt)
qed

text \<open>A single request on a connection of its own.\<close>

lemma handleConnection_one:
  assumes "request_fits (op, key, val)" "dispatch (os n) op key val s = Some (s', calls, resp)"
  shows "handleConnection os n (request_bytes (op, key, val)) s = Some (s', calls, resp)"
proof -
  have "read_request (request_bytes (op, key, val)) = Got (op, key, val) []"
    using protocol.dec_enc [OF assms(1), of "[]"] by simp
  moreover have "handleConnection os (Suc n) [] s' = Some (s', [], [])"
    by (subst handleConnection.simps) (simp add: protocol.dec_nil)
  ultimately show ?thesis using assms(2) by (subst handleConnection.simps) simp
qed

lemma put_response:
  "small key val \<Longrightarrow> executePut True True (sendWriteResponse idx t True None) key val = Some (PutOk (of_int idx) (of_int t) True)"
  "small key [] \<Longrightarrow> executeDelete True True (sendWriteResponse idx t True None) key = Some (TombstoneInserted (of_int idx) (of_int t))"
  by (simp_all add: executePut_def executeDelete_def put_request_bytes key_request_bytes sendWriteResponse_def readFull_def Let_def nth_append)

lemma sendReadResponse_small:
  assumes "length val < 2 ^ 32 - 6"
  shows "sendReadResponse val tomb found None = Some ([if found then 1 else 0, if tomb then 1 else 0] @ PutUint32 (of_nat (length val)) @ val)"
proof -
  have "unat (6 + of_nat (length val) :: u32) = 6 + length val" "unat (of_nat (length val) :: u32) = length val"
    using assms unat_of_nat_u32 [of "6 + length val"] unat_of_nat_u32 [of "length val"] by simp_all
  then show ?thesis by (simp add: sendReadResponse_def Let_def word_less_nat_alt)
qed

lemma get_response:
  assumes "small key []" "length val < 2 ^ 32 - 6" "sendReadResponse val tomb found None = Some resp"
  shows "executeGet True True resp key
    = Some (if \<not> found then NotFound else if tomb then KeyDeleted else ValueIs val)"
proof -
  have resp: "resp = [if found then 1 else 0, if tomb then 1 else 0] @ PutUint32 (of_nat (length val)) @ val"
    using sendReadResponse_small [OF assms(2)] assms(3) by simp
  have u: "unat (of_nat (length val) :: u32) = length val" using assms(2) by (intro unat_of_nat_u32) simp
  have "readFull 6 resp = Some ([if found then 1 else 0, if tomb then 1 else 0] @ PutUint32 (of_nat (length val)), val)"
    by (simp add: resp readFull_def)
  then show ?thesis
    using u by (auto simp: executeGet_def key_request_bytes [OF assms(1)] Let_def readFull_def)
qed

text \<open>What a lookup through the client says of the entry of a key.\<close>

definition shown :: "(bytes \<times> bool) option \<Rightarrow> printed" where
  "shown vt = (case vt of None \<Rightarrow> NotFound | Some (v, t) \<Rightarrow> if t then KeyDeleted else ValueIs v)"

lemma get_through_client:
  assumes "server_ok s" "small key []" "case server_view s key of None \<Rightarrow> True | Some (v, t) \<Rightarrow> length v < 2 ^ 32 - 6"
  shows "\<exists>req resp. key_request OpGet key = Some req \<and> handleConnection os n req s = Some (s, [], resp)
    \<and> executeGet True True resp key = Some (shown (server_view s key))"
proof -
  obtain val tomb found where g: "GetGeo key s = Some (val, tomb, found, None)" "length val < 2 ^ 32 - 6"
    "shown (server_view s key) = (if \<not> found then NotFound else if tomb then KeyDeleted else ValueIs val)"
    using GetGeo_ok [OF assms(1), of key] assms(3) by (auto simp: shown_def split: option.splits)
  obtain resp where r: "sendReadResponse val tomb found None = Some resp" using sendReadResponse_small [OF g(2)] by blast
  have "dispatch (os n) OpGet key [] s = Some (s, [], resp)"
    using g(1) r by (simp add: dispatch_def OpPut_def OpGet_def)
  then have "handleConnection os n (request_bytes (OpGet, key, [])) s = Some (s, [], resp)"
    using assms(2) by (intro handleConnection_one) (simp_all add: request_fits_def small_def)
  then show ?thesis using key_request_bytes [OF assms(2)] get_response [OF assms(2) g(2) r] g(3) by simp
qed

text \<open>The forms of the command line, whatever the texts are, dashes and equal signs included.\<close>

lemma command_line_forms:
  "main [prog, ''put'', ''--addr'', a, ''--key'', k, ''--value'', v]
     = (if k = '''' then KeyRequiredExit 1 else RunPut a (ascii k) (ascii v))
   \<and> main [prog, ''get'', ''--addr'', a, ''--key'', k]
     = (if k = '''' then KeyRequiredExit 1 else RunGet a (ascii k))
   \<and> main [prog, ''delete'', ''--addr'', a, ''--key'', k]
     = (if k = '''' then KeyRequiredExit 1 else RunDelete a (ascii k))
   \<and> main [prog, ''put'', ''--key'', k, ''--value'', v]
     = (if k = '''' then KeyRequiredExit 1 else RunPut ''127.0.0.1:50051'' (ascii k) (ascii v))
   \<and> main [prog, ''put'', ''--addr'', a, ''--key='' @ k, ''--value='' @ v]
     = (if k = '''' then KeyRequiredExit 1 else RunPut a (ascii k) (ascii v))
   \<and> main [prog, ''get'', ''--key'', k]
     = (if k = '''' then KeyRequiredExit 1 else RunGet ''127.0.0.1:50051'' (ascii k))
   \<and> main [prog, ''delete'', ''-addr'', a, ''-key'', k]
     = (if k = '''' then KeyRequiredExit 1 else RunDelete a (ascii k))
   \<and> main [prog, ''put''] = KeyRequiredExit 1 \<and> main [prog] = UsageExit printUsage 1"
  by (simp add: main_def flag_name_def flag_value_def string_flag_def)

lemma client_operations:
  assumes server: "server_ok s" and fits: "small key val"
  shows "\<exists>req s1 c1 r1 req2 r2 req3 s3 c3 r3 r4 i1 t1 i3 t3.
    put_request key val = Some req \<and> handleConnection os 0 req s = Some (s1, c1, r1)
    \<and> executePut True True r1 key val = Some (PutOk i1 t1 True)
    \<and> key_request OpGet key = Some req2 \<and> handleConnection os 1 req2 s1 = Some (s1, [], r2)
    \<and> executeGet True True r2 key = Some (ValueIs val)
    \<and> key_request OpTombstone key = Some req3 \<and> handleConnection os 2 req3 s1 = Some (s3, c3, r3)
    \<and> executeDelete True True r3 key = Some (TombstoneInserted i3 t3)
    \<and> handleConnection os 3 req2 s3 = Some (s3, [], r4)
    \<and> executeGet True True r4 key = Some KeyDeleted"
proof -
  have sm: "small key []" "length val < 2 ^ 32 - 6" using fits by (simp_all add: small_def)
  have f: "write_fits key (val, False)" "write_fits key ([], True)" using fits sm(1) by (simp_all add: write_fits_def)
  obtain s1 c1 i1 t1 where s1: "PutGeo (os 0) key val s = Some (s1, c1, i1, t1, True, None)" "server_ok s1"
    "server_view s1 = (server_view s)(key \<mapsto> (val, False))"
    using do_write_ok [OF server f(1), of "os 0"] by (auto simp: do_write_def)
  obtain s3 c3 i3 t3 where s3: "FocusTombstone (os 2) key s1 = Some (s3, c3, i3, t3, True, None)" "server_ok s3"
    "server_view s3 = (server_view s1)(key \<mapsto> ([], True))"
    using do_write_ok [OF s1(2) f(2), of "os 2"] by (auto simp: do_write_def)
  have p: "handleConnection os 0 (request_bytes (OpPut, key, val)) s = Some (s1, c1, sendWriteResponse i1 t1 True None)"
    by (rule handleConnection_one) (use fits s1(1) in \<open>simp_all add: request_fits_def small_def dispatch_def\<close>)
  have d: "handleConnection os 2 (request_bytes (OpTombstone, key, [])) s1 = Some (s3, c3, sendWriteResponse i3 t3 True None)"
    by (rule handleConnection_one) (use sm(1) s3(1) in \<open>simp_all add: request_fits_def small_def dispatch_def\<close>)
  obtain r2 where r2: "handleConnection os 1 (request_bytes (OpGet, key, [])) s1 = Some (s1, [], r2)"
    "executeGet True True r2 key = Some (ValueIs val)"
    using get_through_client [OF s1(2) sm(1), of os 1] s1(3) sm(2) key_request_bytes [OF sm(1)] by (auto simp: shown_def)
  obtain r4 where r4: "handleConnection os 3 (request_bytes (OpGet, key, [])) s3 = Some (s3, [], r4)"
    "executeGet True True r4 key = Some KeyDeleted"
    using get_through_client [OF s3(2) sm(1), of os 3] s3(3) key_request_bytes [OF sm(1)] by (auto simp: shown_def)
  show ?thesis
    using put_request_bytes [OF fits] key_request_bytes [OF sm(1)] p d r2 r4 put_response(1) [OF fits]
      put_response(2) [OF sm(1)] by blast
qed

text \<open>
  C21: Client and server agree. Whatever the texts \<open>k\<close> and \<open>v\<close> are, the command lines \<open>put\<close>, \<open>get\<close>
  and \<open>delete\<close> run the operations on their bytes. Against a server that leads, the put is
  acknowledged, a get then shows exactly the value, the delete is acknowledged, and a get then shows
  that the key is deleted; each over a connection of its own.
\<close>

theorem client_put_get_delete:
  assumes "server_ok s" "small (ascii k) (ascii v)" "k \<noteq> []"
  shows "main [prog, ''put'', ''--addr'', a, ''--key'', k, ''--value'', v] = RunPut a (ascii k) (ascii v)
    \<and> main [prog, ''get'', ''--addr'', a, ''--key'', k] = RunGet a (ascii k)
    \<and> main [prog, ''delete'', ''--addr'', a, ''--key'', k] = RunDelete a (ascii k)
    \<and> (\<exists>req s1 c1 r1 req2 r2 req3 s3 c3 r3 r4 i1 t1 i3 t3.
    put_request (ascii k) (ascii v) = Some req \<and> handleConnection os 0 req s = Some (s1, c1, r1)
    \<and> executePut True True r1 (ascii k) (ascii v) = Some (PutOk i1 t1 True)
    \<and> key_request OpGet (ascii k) = Some req2 \<and> handleConnection os 1 req2 s1 = Some (s1, [], r2)
    \<and> executeGet True True r2 (ascii k) = Some (ValueIs (ascii v))
    \<and> key_request OpTombstone (ascii k) = Some req3 \<and> handleConnection os 2 req3 s1 = Some (s3, c3, r3)
    \<and> executeDelete True True r3 (ascii k) = Some (TombstoneInserted i3 t3)
    \<and> handleConnection os 3 req2 s3 = Some (s3, [], r4)
    \<and> executeGet True True r4 (ascii k) = Some KeyDeleted)"
  using client_operations [OF assms(1,2)] command_line_forms [of prog a k v] assms(3) by simp

theorem client_put_get_delete_witness:
  "main [''cli'', ''get'', ''--addr'', ''h:1'', ''--key'', ''k''] = RunGet ''h:1'' [107]
    \<and> (\<exists>req s1 c1 r1 req2 r2. put_request [107] [118] = Some req
      \<and> handleConnection (\<lambda>_. io_ok) 0 req sample_server = Some (s1, c1, r1)
      \<and> key_request OpGet [107] = Some req2 \<and> handleConnection (\<lambda>_. io_ok) 1 req2 s1 = Some (s1, [], r2)
      \<and> executeGet True True r2 [107] = Some (ValueIs [118]))"
proof -
  have a: "ascii ''k'' = [107]" "ascii ''v'' = [118]" by (simp_all add: ascii_def)
  have "small (ascii ''k'') (ascii ''v'')" by (simp add: a small_def)
  from client_put_get_delete [OF sample_server_ok this, of "''cli''" "''h:1''" "\<lambda>_. io_ok"]
  show ?thesis unfolding a by blast
qed

end
