(* ===== verification/Url.thy ===== *)
theory Url
  imports KV_Prelude
begin

text \<open>
  What the HTTP gateway and its page use of URLs: \<open>Query().Get\<close> of Go's package \<open>net/url\<close>, and
  \<open>encodeURIComponent\<close> and the parsing of a URL in the browser. Texts are their UTF-8 bytes. A key that
  the page puts into a URL reaches the handler unchanged, whatever characters it has.
\<close>

section \<open>Reading a query\<close>

definition ishex :: "byte \<Rightarrow> bool" where
  "ishex b \<longleftrightarrow> 48 \<le> b \<and> b \<le> 57 \<or> 97 \<le> b \<and> b \<le> 102 \<or> 65 \<le> b \<and> b \<le> 70"

definition unhex :: "byte \<Rightarrow> byte" where
  "unhex b = (if 48 \<le> b \<and> b \<le> 57 then b - 48 else if 97 \<le> b \<and> b \<le> 102 then b - 97 + 10
     else if 65 \<le> b \<and> b \<le> 70 then b - 65 + 10 else 0)"

text \<open>\<open>QueryUnescape\<close>; \<open>None\<close> is an \<open>EscapeError\<close>.\<close>

fun QueryUnescape :: "bytes \<Rightarrow> bytes option" where
  "QueryUnescape [] = Some []"
| "QueryUnescape (b # bs) =
     (if b = 37 then
        (case bs of
           h # l # rest \<Rightarrow>
             if ishex h \<and> ishex l then map_option (Cons (unhex h * 16 + unhex l)) (QueryUnescape rest) else None
         | _ \<Rightarrow> None)
      else map_option (Cons (if b = 43 then 32 else b)) (QueryUnescape bs))"

text \<open>\<open>strings.Cut\<close> at a byte.\<close>

definition cut :: "byte \<Rightarrow> bytes \<Rightarrow> bytes \<times> bytes" where
  "cut c s = (takeWhile (\<lambda>b. b \<noteq> c) s, drop 1 (dropWhile (\<lambda>b. b \<noteq> c) s))"

lemma cut_shrinks: "s \<noteq> [] \<Longrightarrow> length (snd (cut c s)) < length s"
  using length_dropWhile_le [of "\<lambda>b. b \<noteq> c" s] by (cases s) (auto simp: cut_def split: if_splits)

text \<open>\<open>ParseQuery\<close>, with the pairs that do not parse left out; \<open>Query\<close> ignores the error.\<close>

function parse_query :: "bytes \<Rightarrow> (bytes \<times> bytes) list" where
  "parse_query q =
     (if q = [] then []
      else let (part, rest) = cut 38 q in
        if 59 \<in> set part \<or> part = [] then parse_query rest
        else (case (QueryUnescape (fst (cut 61 part)), QueryUnescape (snd (cut 61 part))) of
                (Some key, Some val) \<Rightarrow> (key, val) # parse_query rest
              | _ \<Rightarrow> parse_query rest))"
  by pat_completeness auto
termination
  by (relation "measure length") (metis cut_shrinks in_measure snd_conv wf_measure)+

declare parse_query.simps [simp del]

text \<open>\<open>Values.Get\<close>: the first value of the name, or the empty string.\<close>

definition query_get :: "bytes \<Rightarrow> bytes \<Rightarrow> bytes" where
  "query_get name q = (case map_of (parse_query q) name of None \<Rightarrow> [] | Some v \<Rightarrow> v)"

section \<open>Writing a query\<close>

text \<open>The bytes that \<open>encodeURIComponent\<close> leaves alone: letters, digits and \<open>- _ . ! ~ * ' ( )\<close>.\<close>

definition unreserved :: "byte \<Rightarrow> bool" where
  "unreserved b \<longleftrightarrow> 65 \<le> b \<and> b \<le> 90 \<or> 97 \<le> b \<and> b \<le> 122 \<or> 48 \<le> b \<and> b \<le> 57
     \<or> b \<in> {45, 95, 46, 33, 126, 42, 39, 40, 41}"

definition hex_digit :: "byte \<Rightarrow> byte" where
  "hex_digit n = (if n < 10 then 48 + n else 55 + n)"

definition percent :: "byte \<Rightarrow> bytes" where
  "percent b = [37, hex_digit (b div 16), hex_digit (b mod 16)]"

definition encodeURIComponent :: "bytes \<Rightarrow> bytes" where
  "encodeURIComponent s = concat (map (\<lambda>b. if unreserved b then [b] else percent b) s)"

text \<open>A browser replaces the apostrophe in the query of an HTTP URL.\<close>

definition url_query :: "bytes \<Rightarrow> bytes" where
  "url_query q = concat (map (\<lambda>b. if b = 39 then percent b else [b]) q)"

section \<open>The round trip\<close>

lemma hex_digit_ok:
  assumes "n < (16 :: byte)"
  shows "ishex (hex_digit n)" "unhex (hex_digit n) = n" "hex_digit n \<notin> {38, 39, 59}"
proof -
  have "unat n \<in> set [0..<16]" using assms by (simp add: word_less_nat_alt)
  then have "of_nat (unat n) \<in> (of_nat ` set [0..<16] :: byte set)" by (rule imageI)
  then have "n \<in> of_nat ` set [0..<16]" by simp
  then have "n \<in> {0, 1, 2, 3, 4, 5, 6, 7, 8, 9, 10, 11, 12, 13, 14, 15}" by (simp add: upt_rec)
  then have "ishex (hex_digit n) \<and> unhex (hex_digit n) = n \<and> hex_digit n \<notin> {38, 39, 59}"
    by (elim insertE emptyE; hypsubst; code_simp)
  then show "ishex (hex_digit n)" "unhex (hex_digit n) = n" "hex_digit n \<notin> {38, 39, 59}" by simp_all
qed

lemma nibbles: "(b :: byte) div 16 < 16" "b mod 16 < 16" "b div 16 * 16 + b mod 16 = b"
proof -
  have "unat b < 256" using unsigned_less [of b, where 'a = nat] by simp
  then show "b div 16 < 16" by (simp add: word_less_nat_alt unat_div)
  show "b mod 16 < 16" by (simp add: word_less_nat_alt unat_mod)
  show "b div 16 * 16 + b mod 16 = b" by (rule div_mult_mod_eq)
qed

text \<open>What becomes of one byte on the way into the URL.\<close>

definition sent_byte :: "byte \<Rightarrow> bytes" where
  "sent_byte b = url_query (encodeURIComponent [b])"

lemma sent_byte_eq: "sent_byte b = (if unreserved b \<and> b \<noteq> 39 then [b] else percent b)"
  using hex_digit_ok(3) [OF nibbles(1)] hex_digit_ok(3) [OF nibbles(2)]
  by (auto simp: sent_byte_def url_query_def encodeURIComponent_def percent_def)

lemma unescape_sent: "QueryUnescape (sent_byte b @ rest) = map_option (Cons b) (QueryUnescape rest)"
proof (cases "unreserved b \<and> b \<noteq> 39")
  case True
  then have "b \<noteq> 37" "b \<noteq> 43" by (auto simp: unreserved_def)
  then show ?thesis using True by (simp add: sent_byte_eq)
next
  case False
  then have "sent_byte b = percent b" by (auto simp: sent_byte_eq)
  then show ?thesis
    using hex_digit_ok(1,2) [OF nibbles(1)] hex_digit_ok(1,2) [OF nibbles(2)] nibbles(3) [of b]
    by (simp add: percent_def)
qed

lemma sent_no_separator: "38 \<notin> set (sent_byte b)" "59 \<notin> set (sent_byte b)"
proof -
  have "\<not> unreserved 38" "\<not> unreserved 59" by (simp_all add: unreserved_def)
  then show "38 \<notin> set (sent_byte b)" "59 \<notin> set (sent_byte b)"
    using hex_digit_ok(3) [OF nibbles(1)] hex_digit_ok(3) [OF nibbles(2)] by (auto simp: sent_byte_eq percent_def)
qed

lemma sent_concat: "url_query (encodeURIComponent s) = concat (map sent_byte s)"
  by (induction s) (simp_all add: sent_byte_def url_query_def encodeURIComponent_def)

lemma unescape_concat: "QueryUnescape (concat (map sent_byte s)) = Some s"
  by (induction s) (simp_all add: unescape_sent)

lemma query_roundtrip:
  assumes "name \<noteq> []" "QueryUnescape name = Some name" "38 \<notin> set name" "59 \<notin> set name" "61 \<notin> set name"
  shows "query_get name (name @ [61] @ url_query (encodeURIComponent s)) = s"
proof -
  let ?v = "concat (map sent_byte s)" and ?q = "name @ [61] @ concat (map sent_byte s)"
  have sep: "38 \<notin> set ?v" "59 \<notin> set ?v" using sent_no_separator by auto
  have "takeWhile (\<lambda>b. b \<noteq> 38) ?q = ?q" "dropWhile (\<lambda>b. b \<noteq> 38) ?q = []"
    unfolding takeWhile_eq_all_conv dropWhile_eq_Nil_conv using assms(3) sep(1) by auto
  then have c: "cut 38 ?q = (?q, [])" by (simp only: cut_def drop_Nil)
  have e: "cut 61 ?q = (name, ?v)"
  proof -
    have "takeWhile (\<lambda>b. b \<noteq> 61) ?q = name" "dropWhile (\<lambda>b. b \<noteq> 61) ?q = 61 # ?v"
      using assms(5) by (induction name) simp_all
    then show ?thesis by (simp add: cut_def)
  qed
  have "59 \<notin> set ?q" "?q \<noteq> []" using assms(4) sep(2) by auto
  then have "parse_query ?q = [(name, s)]"
    using assms(2) unescape_concat [of s] c e by (subst parse_query.simps) (simp add: parse_query.simps [of "[]"])
  then show ?thesis by (simp add: query_get_def sent_concat)
qed

end
