(* ===== verification/Json.thy ===== *)
theory Json
  imports Url
begin

text \<open>
  What the HTTP gateway and its page use of JSON: reading a text with \<open>json.Unmarshal\<close> of Go's package
  \<open>encoding/json\<close>, and writing an object of strings with \<open>JSON.stringify\<close> in the browser. Texts are
  bytes. Reading follows Go: \<open>\u\<close> escapes with surrogate pairs, bytes that are no UTF-8 replaced by
  U+FFFD, no control characters in strings, at most 10000 levels of nesting, nothing behind the
  value. An object that the browser writes is read back.
\<close>

section \<open>UTF-8\<close>

definition encode_rune :: "nat \<Rightarrow> bytes" where
  "encode_rune r =
     (if r < 128 then [of_nat r]
      else if r < 2048 then [of_nat (192 + r div 64), of_nat (128 + r mod 64)]
      else if r < 65536 then [of_nat (224 + r div 4096), of_nat (128 + r div 64 mod 64), of_nat (128 + r mod 64)]
      else [of_nat (240 + r div 262144), of_nat (128 + r div 4096 mod 64), of_nat (128 + r div 64 mod 64),
            of_nat (128 + r mod 64)])"

definition RuneError :: nat where
  "RuneError = 65533"

text \<open>\<open>utf8.DecodeRune\<close> of a non-empty text: the code point and the number of bytes.\<close>

definition decode_rune :: "bytes \<Rightarrow> nat \<times> nat" where
  "decode_rune bs =
     (let x = (\<lambda>i. unat (bs ! i));
          within = (\<lambda>i lo hi. i < length bs \<and> lo \<le> x i \<and> x i \<le> hi)
      in if x 0 < 128 then (x 0, 1)
         else if 194 \<le> x 0 \<and> x 0 \<le> 223 \<and> within 1 128 191 then (x 0 mod 32 * 64 + x 1 mod 64, 2)
         else if 224 \<le> x 0 \<and> x 0 \<le> 239 \<and> within 1 (if x 0 = 224 then 160 else 128) (if x 0 = 237 then 159 else 191)
           \<and> within 2 128 191 then (x 0 mod 16 * 4096 + x 1 mod 64 * 64 + x 2 mod 64, 3)
         else if 240 \<le> x 0 \<and> x 0 \<le> 244 \<and> within 1 (if x 0 = 240 then 144 else 128) (if x 0 = 244 then 143 else 191)
           \<and> within 2 128 191 \<and> within 3 128 191
           then (x 0 mod 8 * 262144 + x 1 mod 64 * 4096 + x 2 mod 64 * 64 + x 3 mod 64, 4)
         else (RuneError, 1))"

definition is_scalar :: "nat \<Rightarrow> bool" where
  "is_scalar r \<longleftrightarrow> r < 55296 \<or> 57344 \<le> r \<and> r < 1114112"

text \<open>The texts: what a string of characters is in UTF-8.\<close>

definition utf8 :: "nat list \<Rightarrow> bytes" where
  "utf8 rs = concat (map encode_rune rs)"

section \<open>Reading\<close>

definition hex4 :: "bytes \<Rightarrow> nat option" where
  "hex4 bs =
     (if 4 \<le> length bs \<and> list_all ishex (take 4 bs)
      then Some (foldl (\<lambda>n b. n * 16 + unat (unhex b)) 0 (take 4 bs)) else None)"

text \<open>The character of an escape behind the backslash.\<close>

definition escaped :: "byte \<Rightarrow> byte option" where
  "escaped c = map_of [(34, 34), (92, 92), (47, 47), (98, 8), (102, 12), (110, 10), (114, 13), (116, 9)] c"

text \<open>
  A \<open>\u\<close> escape with the value \<open>r\<close> in front of \<open>rest\<close>: the first half of a surrogate pair takes the second
  half with it, a lone half becomes U+FFFD.
\<close>

definition unicode_escape :: "nat \<Rightarrow> bytes \<Rightarrow> nat \<times> bytes" where
  "unicode_escape r rest =
     (if r < 55296 \<or> 57344 \<le> r then (r, rest)
      else case (if take 2 rest = [92, 117] then hex4 (drop 2 rest) else None) of
        None \<Rightarrow> (RuneError, rest)
      | Some r' \<Rightarrow>
          if r < 56320 \<and> 56320 \<le> r' \<and> r' < 57344
          then ((r - 55296) * 1024 + (r' - 56320) + 65536, drop 6 rest)
          else (RuneError, rest))"

definition put_front :: "bytes \<Rightarrow> (bytes \<times> bytes) option \<Rightarrow> (bytes \<times> bytes) option" where
  "put_front s x = map_option (\<lambda>(s', rest). (s @ s', rest)) x"

lemma put_front_cong [fundef_cong]: "s = s' \<Longrightarrow> x = x' \<Longrightarrow> put_front s x = put_front s' x'"
  by simp

text \<open>A string behind its opening quote: its value and what follows the closing quote.\<close>

function scan_string :: "bytes \<Rightarrow> (bytes \<times> bytes) option" where
  "scan_string [] = None"
| "scan_string (b # bs) =
     (if b = 34 then Some ([], bs)
      else if b = 92 then
        (if bs = [] then None
         else if hd bs = 117 then
           (case hex4 (tl bs) of
              None \<Rightarrow> None
            | Some r \<Rightarrow> put_front (encode_rune (fst (unicode_escape r (drop 5 bs))))
                (scan_string (snd (unicode_escape r (drop 5 bs)))))
         else (case escaped (hd bs) of None \<Rightarrow> None | Some c \<Rightarrow> put_front [c] (scan_string (tl bs))))
      else if b < 32 then None
      else if b < 128 then put_front [b] (scan_string bs)
      else put_front (encode_rune (fst (decode_rune (b # bs)))) (scan_string (drop (snd (decode_rune (b # bs)) - 1) bs)))"
  by pat_completeness auto
termination
proof (relation "measure length")
  show "(snd (unicode_escape r (drop 5 bs)), b # bs) \<in> measure length" for r b and bs :: bytes
    by (auto simp: unicode_escape_def split: option.split)
qed auto

declare scan_string.simps [simp del]

definition is_space :: "byte \<Rightarrow> bool" where
  "is_space b \<longleftrightarrow> b \<in> {32, 9, 13, 10}"

abbreviation skip_ws :: "bytes \<Rightarrow> bytes" where
  "skip_ws bs \<equiv> dropWhile is_space bs"

definition is_digit :: "byte \<Rightarrow> bool" where
  "is_digit b \<longleftrightarrow> 48 \<le> b \<and> b \<le> 57"

text \<open>At least one digit.\<close>

definition some_digits :: "bytes \<Rightarrow> bytes option" where
  "some_digits bs = (if bs \<noteq> [] \<and> is_digit (hd bs) then Some (dropWhile is_digit bs) else None)"

definition scan_exponent :: "bytes \<Rightarrow> bytes option" where
  "scan_exponent bs =
     (if bs \<noteq> [] \<and> hd bs \<in> {101, 69}
      then some_digits (if tl bs \<noteq> [] \<and> hd (tl bs) \<in> {43, 45} then drop 2 bs else tl bs)
      else Some bs)"

definition scan_number :: "bytes \<Rightarrow> bytes option" where
  "scan_number bs =
     (let bs1 = (if take 1 bs = [45] then drop 1 bs else bs) in
      case (if take 1 bs1 = [48] then Some (drop 1 bs1) else some_digits bs1) of
        None \<Rightarrow> None
      | Some bs2 \<Rightarrow>
          (case (if take 1 bs2 = [46] then some_digits (drop 1 bs2) else Some bs2) of
             None \<Rightarrow> None
           | Some bs3 \<Rightarrow> scan_exponent bs3))"

datatype json = JNull | JBool bool | JNumber | JString bytes | JArray "json list" | JObject "(bytes \<times> json) list"

definition max_depth :: int where
  "max_depth = 10000"

text \<open>
  A value inside of \<open>d\<close> arrays and objects, and the rest of an array and of an object. The first
  argument is fuel; every call reads at least a byte, so the length of the text is enough.
\<close>

fun jvalue :: "nat \<Rightarrow> nat \<Rightarrow> bytes \<Rightarrow> (json \<times> bytes) option"
  and jelements :: "nat \<Rightarrow> nat \<Rightarrow> bytes \<Rightarrow> (json list \<times> bytes) option"
  and jmembers :: "nat \<Rightarrow> nat \<Rightarrow> bytes \<Rightarrow> ((bytes \<times> json) list \<times> bytes) option" where
  "jvalue 0 d bs = None"
| "jvalue (Suc n) d bs =
     (case skip_ws bs of
        [] \<Rightarrow> None
      | b # rest \<Rightarrow>
          if b = 34 then map_option (\<lambda>(s, rest'). (JString s, rest')) (scan_string rest)
          else if b = 91 then
            (if max_depth \<le> int d then None
             else if take 1 (skip_ws rest) = [93] then Some (JArray [], drop 1 (skip_ws rest))
             else map_option (\<lambda>(vs, rest'). (JArray vs, rest')) (jelements n (Suc d) rest))
          else if b = 123 then
            (if max_depth \<le> int d then None
             else if take 1 (skip_ws rest) = [125] then Some (JObject [], drop 1 (skip_ws rest))
             else map_option (\<lambda>(ms, rest'). (JObject ms, rest')) (jmembers n (Suc d) rest))
          else if take 4 (b # rest) = [110, 117, 108, 108] then Some (JNull, drop 3 rest)
          else if take 4 (b # rest) = [116, 114, 117, 101] then Some (JBool True, drop 3 rest)
          else if take 5 (b # rest) = [102, 97, 108, 115, 101] then Some (JBool False, drop 4 rest)
          else map_option (Pair JNumber) (scan_number (b # rest)))"
| "jelements 0 d bs = None"
| "jelements (Suc n) d bs =
     (case jvalue n d bs of
        None \<Rightarrow> None
      | Some (v, rest) \<Rightarrow>
          (case skip_ws rest of
             [] \<Rightarrow> None
           | c # rest' \<Rightarrow>
               if c = 44 then map_option (\<lambda>(vs, rest''). (v # vs, rest'')) (jelements n d rest')
               else if c = 93 then Some ([v], rest') else None))"
| "jmembers 0 d bs = None"
| "jmembers (Suc n) d bs =
     (if take 1 (skip_ws bs) \<noteq> [34] then None
      else case scan_string (drop 1 (skip_ws bs)) of
        None \<Rightarrow> None
      | Some (k, rest) \<Rightarrow>
          if take 1 (skip_ws rest) \<noteq> [58] then None
          else case jvalue n d (drop 1 (skip_ws rest)) of
            None \<Rightarrow> None
          | Some (v, rest1) \<Rightarrow>
              (case skip_ws rest1 of
                 [] \<Rightarrow> None
               | c # rest2 \<Rightarrow>
                   if c = 44 then map_option (\<lambda>(ms, rest3). ((k, v) # ms, rest3)) (jmembers n d rest2)
                   else if c = 125 then Some ([(k, v)], rest2) else None))"

definition parse_json :: "bytes \<Rightarrow> json option" where
  "parse_json bs =
     (case jvalue (2 * length bs + 2) 0 bs of
        None \<Rightarrow> None
      | Some (v, rest) \<Rightarrow> if skip_ws rest = [] then Some v else None)"

text \<open>
  \<open>foldName\<close>, by which a member is matched to a field of a struct when no field has exactly its name,
  as far as it can give letters of ASCII: lower case, with the Kelvin sign folded to \<open>k\<close>.
\<close>

fun fold_name :: "bytes \<Rightarrow> bytes" where
  "fold_name [] = []"
| "fold_name (b # bs) =
     (if take 3 (b # bs) = [226, 132, 170] then 107 # fold_name (drop 2 bs)
      else (if 65 \<le> b \<and> b \<le> 90 then b + 32 else b) # fold_name bs)"

section \<open>Writing\<close>

definition low_hex :: "byte \<Rightarrow> byte" where
  "low_hex n = (if n < 10 then 48 + n else 87 + n)"

definition json_byte :: "byte \<Rightarrow> bytes" where
  "json_byte b =
     (if b = 34 \<or> b = 92 then [92, b]
      else if b = 8 then [92, 98] else if b = 9 then [92, 116] else if b = 10 then [92, 110]
      else if b = 12 then [92, 102] else if b = 13 then [92, 114]
      else if b < 32 then [92, 117, 48, 48, low_hex (b div 16), low_hex (b mod 16)]
      else [b])"

definition stringify_string :: "bytes \<Rightarrow> bytes" where
  "stringify_string s = 34 # concat (map json_byte s) @ [34]"

text \<open>\<open>JSON.stringify\<close> of an object whose members are strings.\<close>

fun stringify_members :: "(bytes \<times> bytes) list \<Rightarrow> bytes" where
  "stringify_members [] = []"
| "stringify_members [(k, v)] = stringify_string k @ [58] @ stringify_string v"
| "stringify_members ((k, v) # ms) = stringify_string k @ [58] @ stringify_string v @ [44] @ stringify_members ms"

definition stringify :: "(bytes \<times> bytes) list \<Rightarrow> bytes" where
  "stringify ms = [123] @ stringify_members ms @ [125]"

section \<open>Enough fuel\<close>

lemma scan_string_shrinks: "scan_string bs = Some (s, rest) \<Longrightarrow> length rest < length bs"
proof (induction bs arbitrary: s rest rule: scan_string.induct)
  case (2 b bs)
  have u: "length (snd (unicode_escape r x)) \<le> length x" for r x
    by (auto simp: unicode_escape_def split: option.split)
  consider "rest = bs"
    | r s' where "b \<noteq> 34" "b = 92" "bs \<noteq> []" "hd bs = 117" "hex4 (tl bs) = Some r"
      "scan_string (snd (unicode_escape r (drop 5 bs))) = Some (s', rest)"
    | c s' where "b \<noteq> 34" "b = 92" "bs \<noteq> []" "hd bs \<noteq> 117" "escaped (hd bs) = Some c" "scan_string (tl bs) = Some (s', rest)"
    | s' where "b \<noteq> 34" "b \<noteq> 92" "\<not> b < 32" "b < 128" "scan_string bs = Some (s', rest)"
    | s' where "b \<noteq> 34" "b \<noteq> 92" "\<not> b < 32" "\<not> b < 128"
      "scan_string (drop (snd (decode_rune (b # bs)) - 1) bs) = Some (s', rest)"
    using 2(5) [unfolded scan_string.simps(2)] by (auto simp: put_front_def split: if_splits option.splits)
  then show ?case
  proof cases
    case 2
    then show ?thesis using "2.IH"(1) [OF 2(1-5) 2(6)] u [of r "drop 5 bs"] by simp
  next
    case 3
    then show ?thesis using "2.IH"(2) [OF 3(1-5) 3(6)] by simp
  next
    case 4
    then show ?thesis using "2.IH"(3) [OF 4(1-4) 4(5)] by simp
  next
    case 5
    then show ?thesis using "2.IH"(4) [OF 5(1-4) 5(5)] by simp
  qed simp
qed (simp add: scan_string.simps)

lemma some_digits_shrinks: "some_digits bs = Some r \<Longrightarrow> length r < length bs"
  using length_dropWhile_le [of is_digit "tl bs"] by (cases bs) (auto simp: some_digits_def split: if_splits)

lemma scan_exponent_shrinks: "scan_exponent bs = Some r \<Longrightarrow> length r \<le> length bs"
  by (cases bs) (auto simp: scan_exponent_def split: if_splits dest!: some_digits_shrinks)

lemma scan_number_shrinks:
  assumes "scan_number bs = Some r"
  shows "length r < length bs"
proof -
  define bs1 where "bs1 = (if take 1 bs = [45] then drop 1 bs else bs)"
  have l1: "length bs1 \<le> length bs" by (simp add: bs1_def)
  obtain bs2 bs3 where b2: "(if take 1 bs1 = [48] then Some (drop 1 bs1) else some_digits bs1) = Some bs2"
    and b3: "(if take 1 bs2 = [46] then some_digits (drop 1 bs2) else Some bs2) = Some bs3" and b4: "scan_exponent bs3 = Some r"
    using assms unfolding scan_number_def bs1_def [symmetric] Let_def by (auto split: option.splits)
  have "length bs2 < length bs1" using b2 by (cases bs1) (auto split: if_splits dest: some_digits_shrinks)
  moreover have "length bs3 \<le> length bs2" using b3 by (auto split: if_splits dest!: some_digits_shrinks)
  ultimately show ?thesis using scan_exponent_shrinks [OF b4] l1 by simp
qed

lemma skip_ws_length: "length (skip_ws bs) \<le> length bs"
  by (rule length_dropWhile_le)

lemma skip_ws_Cons: "skip_ws bs = c # rest \<Longrightarrow> length rest < length bs"
  using skip_ws_length [of bs] by simp

lemma skip_ws_take: "take 1 (skip_ws bs) = [c] \<Longrightarrow> length (drop 1 (skip_ws bs)) < length bs"
  using skip_ws_length [of bs] by (cases "skip_ws bs") simp_all

lemma json_shrinks:
  "jvalue n d bs = Some (v, rest) \<Longrightarrow> length rest < length bs"
  "jelements n d bs = Some (vs, rest) \<Longrightarrow> length rest < length bs"
  "jmembers n d bs = Some (ms, rest) \<Longrightarrow> length rest < length bs"
proof (induction n d bs and n d bs and n d bs arbitrary: v rest and vs rest and ms rest
    rule: jvalue_jelements_jmembers.induct)
  case (2 n d bs)
  obtain b r where b: "skip_ws bs = b # r" using 2(3) by (auto split: list.splits)
  note l = skip_ws_Cons [OF b] skip_ws_length [of r]
  consider s where "scan_string r = Some (s, rest)" | "rest = drop 1 (skip_ws r)" | "rest = drop 3 r" | "rest = drop 4 r"
    | vs where "b \<noteq> 34" "b = 91" "\<not> max_depth \<le> int d" "take 1 (skip_ws r) \<noteq> [93]" "jelements n (Suc d) r = Some (vs, rest)"
    | ms where "b \<noteq> 34" "b \<noteq> 91" "b = 123" "\<not> max_depth \<le> int d" "take 1 (skip_ws r) \<noteq> [125]" "jmembers n (Suc d) r = Some (ms, rest)"
    | "scan_number (b # r) = Some rest"
    using 2(3) unfolding jvalue.simps b by (auto split: if_splits)
  then show ?case
  proof cases
    case 1
    then show ?thesis using scan_string_shrinks [of r s rest] l by simp
  next
    case 5
    then show ?thesis using 2(1) [OF b 5(1-4) 5(5)] l by simp
  next
    case 6
    then show ?thesis using 2(2) [OF b 6(1-5) 6(6)] l by simp
  next
    case 7
    then show ?thesis using scan_number_shrinks [OF 7] skip_ws_length [of bs] b by simp
  qed (use l in auto)
next
  case (4 n d bs)
  obtain v r where v: "jvalue n d bs = Some (v, r)" using 4(3) by (auto split: option.splits)
  then obtain c r' where c: "skip_ws r = c # r'" using 4(3) by (auto split: list.splits)
  note l = 4(1) [OF v] skip_ws_Cons [OF c]
  show ?case
  proof (cases "c = 44")
    case True
    then obtain vs' where "jelements n d r' = Some (vs', rest)" using 4(3) v c by auto
    then show ?thesis using 4(2) [OF v refl c True] l by simp
  next
    case False
    then show ?thesis using 4(3) v c l by (auto split: if_splits)
  qed
next
  case (6 n d bs)
  obtain k r where k: "take 1 (skip_ws bs) = [34]" "scan_string (drop 1 (skip_ws bs)) = Some (k, r)" "take 1 (skip_ws r) = [58]"
    using 6(3) by (auto split: option.splits if_splits)
  obtain v r1 where v: "jvalue n d (drop 1 (skip_ws r)) = Some (v, r1)" using 6(3) k by (auto split: option.splits)
  then obtain c r2 where c: "skip_ws r1 = c # r2" using 6(3) k by (auto split: list.splits)
  have nn: "\<not> take 1 (skip_ws bs) \<noteq> [34]" "\<not> take 1 (skip_ws r) \<noteq> [58]" using k by simp_all
  have "length r1 < length bs"
    using 6(1) [OF nn(1) k(2) refl nn(2) v] scan_string_shrinks [OF k(2)] skip_ws_take [OF k(1)] skip_ws_take [OF k(3)] by simp
  note l = this skip_ws_Cons [OF c]
  show ?case
  proof (cases "c = 44")
    case True
    then obtain ms' where "jmembers n d r2 = Some (ms', rest)" using 6(3) k v c by auto
    then show ?thesis using 6(2) [OF nn(1) k(2) refl nn(2) v refl c True] l by simp
  next
    case False
    then show ?thesis using 6(3) k v c l by (auto split: if_splits)
  qed
qed simp_all

text \<open>More fuel than that does not change what is read.\<close>

lemma json_fuel:
  "2 * length bs < n \<Longrightarrow> n \<le> m \<Longrightarrow> jvalue m d bs = jvalue n d bs"
  "2 * length bs + 1 < n \<Longrightarrow> n \<le> m \<Longrightarrow> jelements m d bs = jelements n d bs"
  "2 * length bs < n \<Longrightarrow> n \<le> m \<Longrightarrow> jmembers m d bs = jmembers n d bs"
proof (induction n d bs and n d bs and n d bs arbitrary: m and m and m rule: jvalue_jelements_jmembers.induct)
  case (2 n d bs)
  obtain m' where m: "m = Suc m'" "n \<le> m'" using 2(4) by (cases m) auto
  show ?case
  proof (cases "skip_ws bs")
    case (Cons b r)
    have l: "2 * length r + 1 < n" using skip_ws_Cons [OF Cons] 2(3) by simp
    have e: "jelements m' (Suc d) r = jelements n (Suc d) r"
      if "b \<noteq> 34" "b = 91" "\<not> max_depth \<le> int d" "take 1 (skip_ws r) \<noteq> [93]"
      using 2(1) [OF Cons that l m(2)] .
    have f: "jmembers m' (Suc d) r = jmembers n (Suc d) r"
      if "b \<noteq> 34" "b \<noteq> 91" "b = 123" "\<not> max_depth \<le> int d" "take 1 (skip_ws r) \<noteq> [125]"
      using 2(2) [OF Cons that _ m(2)] l by simp
    show ?thesis unfolding m(1) jvalue.simps Cons list.case using e f by (simp split del: if_split cong: if_cong)
  next
    case Nil
    show ?thesis unfolding m(1) jvalue.simps Nil by simp
  qed
next
  case (4 n d bs)
  obtain m' where m: "m = Suc m'" "n \<le> m'" using 4(4) by (cases m) auto
  have v: "jvalue m' d bs = jvalue n d bs" using 4(1) [OF _ m(2)] 4(3) by simp
  show ?case
  proof (cases "jvalue n d bs")
    case (Some vr)
    obtain x r where vr: "vr = (x, r)" by (cases vr)
    show ?thesis
    proof (cases "skip_ws r")
      case (Cons c r')
      have l: "2 * length r' + 1 < n"
        using json_shrinks(1) [of n d bs x r] Some vr skip_ws_Cons [OF Cons] 4(3) by simp
      have "jelements m' d r' = jelements n d r'" if "c = 44"
        using 4(2) [OF Some vr [symmetric] Cons that l m(2)] .
      then show ?thesis using m(1) v Some vr Cons by simp
    next
      case Nil
      show ?thesis unfolding m(1) jelements.simps v Some vr option.case prod.case Nil by simp
    qed
  qed (use m(1) v in simp)
next
  case (6 n d bs)
  obtain m' where m: "m = Suc m'" "n \<le> m'" using 6(4) by (cases m) auto
  show ?case
  proof (cases "take 1 (skip_ws bs) = [34]")
    case k: True
    show ?thesis
    proof (cases "scan_string (drop 1 (skip_ws bs))")
      case s: (Some kr)
      obtain x r where kr: "kr = (x, r)" by (cases kr)
      show ?thesis
      proof (cases "take 1 (skip_ws r) = [58]")
        case c: True
        have nn: "\<not> take 1 (skip_ws bs) \<noteq> [34]" "\<not> take 1 (skip_ws r) \<noteq> [58]" using k c by simp_all
        have l: "length (drop 1 (skip_ws r)) + 2 < length bs"
          using scan_string_shrinks [of "drop 1 (skip_ws bs)" x r] s kr skip_ws_take [OF k] skip_ws_take [OF c] by simp
        have v: "jvalue m' d (drop 1 (skip_ws r)) = jvalue n d (drop 1 (skip_ws r))"
          using 6(1) [OF nn(1) s kr [symmetric] nn(2) _ m(2)] l 6(3) by simp
        show ?thesis
        proof (cases "jvalue n d (drop 1 (skip_ws r))")
          case y: (Some vr)
          obtain w r1 where vr: "vr = (w, r1)" by (cases vr)
          show ?thesis
          proof (cases "skip_ws r1")
            case z: (Cons e r2)
            have "2 * length r2 < n"
              using json_shrinks(1) [of n d "drop 1 (skip_ws r)" w r1] y vr skip_ws_Cons [OF z] l 6(3) by simp
            then have "jmembers m' d r2 = jmembers n d r2" if "e = 44"
              using 6(2) [OF nn(1) s kr [symmetric] nn(2) y vr [symmetric] z that _ m(2)] by simp
            then show ?thesis using m(1) v y vr z k s kr c by simp
          next
            case z: Nil
            show ?thesis unfolding m(1) jmembers.simps s kr v y vr option.case prod.case z by simp
          qed
        qed (use m(1) v k s kr c in simp)
      qed (use m(1) k s kr in simp)
    qed (use m(1) k in simp)
  qed (use m(1) in simp)
qed simp_all

declare jvalue.simps [simp del] jelements.simps [simp del] jmembers.simps [simp del]

lemma parse_json_fuel:
  assumes "2 * length bs < n" "jvalue n 0 bs = Some (v, rest)" "skip_ws rest = []"
  shows "parse_json bs = Some v"
proof -
  have "jvalue (2 * length bs + 2) 0 bs = jvalue (2 * length bs + 1) 0 bs" "jvalue n 0 bs = jvalue (2 * length bs + 1) 0 bs"
    using assms(1) by (intro json_fuel(1); simp)+
  then have "jvalue (2 * length bs + 2) 0 bs = Some (v, rest)" using assms(2) by simp
  then show ?thesis using assms(3) by (simp add: parse_json_def)
qed

section \<open>Reading what was written\<close>

lemma unat_byte: "n < 256 \<Longrightarrow> unat (of_nat n :: byte) = n"
  by (simp add: unat_of_nat)

lemma six_bits: "n mod 64 \<le> (63 :: nat)"
  using mod_less_divisor [of 64 n] by linarith

lemma six_bit_groups:
  "r div 4096 * 4096 + r div 64 mod 64 * 64 + r mod 64 = (r :: nat)"
  "r div 262144 * 262144 + r div 4096 mod 64 * 4096 + r div 64 mod 64 * 64 + r mod 64 = r"
proof -
  have d: "r div 64 div 64 = r div 4096" "r div 4096 div 64 = r div 262144" by (simp_all flip: div_mult2_eq)
  have "r = r div 64 * 64 + r mod 64" "r div 64 = r div 64 div 64 * 64 + r div 64 mod 64"
    "r div 4096 = r div 4096 div 64 * 64 + r div 4096 mod 64" by simp_all
  then show "r div 4096 * 4096 + r div 64 mod 64 * 64 + r mod 64 = r"
    "r div 262144 * 262144 + r div 4096 mod 64 * 4096 + r div 64 mod 64 * 64 + r mod 64 = r" unfolding d by linarith+
qed

text \<open>Two, three and four bytes, by the six bits each of them carries.\<close>

lemma decode_rune_bytes:
  assumes "b < 64" "c < 64" "d < 64"
  shows "2 \<le> a \<Longrightarrow> a < 32 \<Longrightarrow> decode_rune (of_nat (192 + a) # of_nat (128 + b) # rest) = (a * 64 + b, 2)"
    "a < 16 \<Longrightarrow> (a = 0 \<Longrightarrow> 32 \<le> b) \<Longrightarrow> (a = 13 \<Longrightarrow> b < 32)
      \<Longrightarrow> decode_rune (of_nat (224 + a) # of_nat (128 + b) # of_nat (128 + c) # rest) = (a * 4096 + b * 64 + c, 3)"
    "a \<le> 4 \<Longrightarrow> (a = 0 \<Longrightarrow> 16 \<le> b) \<Longrightarrow> (a = 4 \<Longrightarrow> b < 16)
      \<Longrightarrow> decode_rune (of_nat (240 + a) # of_nat (128 + b) # of_nat (128 + c) # of_nat (128 + d) # rest)
        = (a * 262144 + b * 4096 + c * 64 + d, 4)"
proof -
  have m: "(128 + n) mod 64 = n" if "n < 64" for n :: nat using that by (simp add: mod_if)
  have u: "unat (of_nat (128 + n) :: byte) = 128 + n" if "n < 64" for n using that by (intro unat_byte) simp
  note um = m [OF assms(1)] m [OF assms(2)] m [OF assms(3)] u [OF assms(1)] u [OF assms(2)] u [OF assms(3)]
  show "decode_rune (of_nat (192 + a) # of_nat (128 + b) # rest) = (a * 64 + b, 2)" if "2 \<le> a" "a < 32"
  proof -
    have "unat (of_nat (192 + a) :: byte) = 192 + a" using that(2) by (intro unat_byte) simp
    moreover have "(192 + a) mod 32 = a" using that(2) by (simp add: mod_if)
    ultimately show ?thesis using that assms um by (simp add: decode_rune_def del: of_nat_add)
  qed
  show "decode_rune (of_nat (224 + a) # of_nat (128 + b) # of_nat (128 + c) # rest) = (a * 4096 + b * 64 + c, 3)"
    if "a < 16" "a = 0 \<Longrightarrow> 32 \<le> b" "a = 13 \<Longrightarrow> b < 32"
  proof -
    have "unat (of_nat (224 + a) :: byte) = 224 + a" using that(1) by (intro unat_byte) simp
    moreover have "(224 + a) mod 16 = a" using that(1) by (simp add: mod_if)
    ultimately show ?thesis using that assms um by (auto simp: decode_rune_def simp del: of_nat_add)
  qed
  show "decode_rune (of_nat (240 + a) # of_nat (128 + b) # of_nat (128 + c) # of_nat (128 + d) # rest)
      = (a * 262144 + b * 4096 + c * 64 + d, 4)" if "a \<le> 4" "a = 0 \<Longrightarrow> 16 \<le> b" "a = 4 \<Longrightarrow> b < 16"
  proof -
    have "unat (of_nat (240 + a) :: byte) = 240 + a" using that(1) by (intro unat_byte) simp
    moreover have "(240 + a) mod 8 = a" using that(1) by (simp add: mod_if)
    ultimately show ?thesis using that assms um by (auto simp: decode_rune_def simp del: of_nat_add)
  qed
qed

lemma decode_encode_rune:
  assumes "is_scalar r" "128 \<le> r"
  shows "decode_rune (encode_rune r @ rest) = (r, length (encode_rune r))"
proof -
  let ?b = "r div 64 mod 64" and ?c = "r mod 64"
  have l: "n mod 64 < 64" for n :: nat by simp
  have d: "r div 64 div 64 = r div 4096" "r div 4096 div 64 = r div 262144" by (simp_all flip: div_mult2_eq)
  consider "r < 2048" | "2048 \<le> r" "r < 65536" | "65536 \<le> r" "r < 1114112"
    using assms unfolding is_scalar_def by linarith
  then show ?thesis
  proof cases
    case 1
    have "2 \<le> r div 64" "r div 64 < 32" using 1 assms(2) by (simp_all add: less_eq_div_iff_mult_less_eq div_less_iff_less_mult)
    from decode_rune_bytes(1) [OF l l l this, of r rest] show ?thesis using 1 assms(2) by (simp add: encode_rune_def)
  next
    case 2
    let ?a = "r div 4096"
    have e: "?a * 4096 + ?b * 64 + ?c = r" by (rule six_bit_groups(1))
    have "?a < 16" using 2 by (simp add: div_less_iff_less_mult)
    moreover have "32 \<le> ?b" if "?a = 0" using e that 2(1) l [of r] by linarith
    moreover have "?b < 32" if "?a = 13" using e that assms(1) l [of r] l [of "r div 64"] unfolding is_scalar_def by linarith
    ultimately show ?thesis using decode_rune_bytes(2) [OF l l l, of ?a "r div 64" r rest] e 2 by (simp add: encode_rune_def)
  next
    case 3
    let ?a = "r div 262144" and ?a' = "r div 4096 mod 64"
    have e: "?a * 262144 + ?a' * 4096 + ?b * 64 + ?c = r" by (rule six_bit_groups(2))
    have "?a \<le> 4" using e 3 by linarith
    moreover have "16 \<le> ?a'" if "?a = 0" using e that 3(1) l [of r] l [of "r div 64"] by linarith
    moreover have "?a' < 16" if "?a = 4" using e that 3(2) by linarith
    ultimately show ?thesis
      using decode_rune_bytes(3) [OF l l l, of ?a "r div 4096" "r div 64" r rest] e 3 by (simp add: encode_rune_def)
  qed
qed

lemma encode_rune_high:
  assumes "is_scalar r" "128 \<le> r"
  shows "\<forall>b \<in> set (encode_rune r). 128 \<le> b" "encode_rune r \<noteq> []"
proof -
  have h: "128 \<le> (of_nat n :: byte)" if "128 \<le> n" "n < 256" for n
    using that unat_byte [of n] by (simp add: word_le_nat_alt)
  show "\<forall>b \<in> set (encode_rune r). 128 \<le> b"
    using assms by (auto simp: encode_rune_def is_scalar_def simp del: of_nat_add intro!: h)
  show "encode_rune r \<noteq> []" by (simp add: encode_rune_def)
qed

lemma hex4_front: "hex4 (a # b # c # d # rest) = hex4 [a, b, c, d]"
  by (simp add: hex4_def)

lemma low_hex4_all: "list_all (\<lambda>n. hex4 [48, 48, low_hex (of_nat n div 16), low_hex (of_nat n mod 16)] = Some n) [0..<32]"
  by code_simp

lemma low_hex4:
  assumes "b < (32 :: byte)"
  shows "hex4 ([48, 48, low_hex (b div 16), low_hex (b mod 16)] @ rest) = Some (unat b)"
proof -
  have "unat b < 32" using assms by (simp add: word_less_nat_alt)
  then have "unat b \<in> set [0..<32]" by simp
  from bspec [OF low_hex4_all [unfolded list_all_iff] this]
  have "hex4 [48, 48, low_hex (b div 16), low_hex (b mod 16)] = Some (unat b)" by simp
  then show ?thesis using hex4_front [of 48 48 "low_hex (b div 16)" "low_hex (b mod 16)" rest] by simp
qed

text \<open>One character: below 128 it may be escaped, above it is copied.\<close>

lemma scan_ascii: "b < 128 \<Longrightarrow> scan_string (json_byte b @ rest) = put_front [b] (scan_string rest)"
proof -
  assume b: "b < 128"
  consider "b \<in> {34, 92, 8, 9, 10, 12, 13}" | "b < 32" "b \<notin> {34, 92, 8, 9, 10, 12, 13}"
    | "\<not> b < 32" "b \<notin> {34, 92, 8, 9, 10, 12, 13}" by blast
  then show ?thesis
  proof cases
    case 1
    then show ?thesis by (auto simp: json_byte_def scan_string.simps escaped_def)
  next
    case 2
    have j: "json_byte b = [92, 117, 48, 48, low_hex (b div 16), low_hex (b mod 16)]" using 2 by (simp add: json_byte_def)
    have u: "unat b < 128" using b by (simp add: word_less_nat_alt)
    have h: "hex4 ([48, 48, low_hex (b div 16), low_hex (b mod 16)] @ rest) = Some (unat b)" by (rule low_hex4 [OF 2(1)])
    have "unicode_escape (unat b) rest = (unat b, rest)" using u by (simp add: unicode_escape_def)
    then show ?thesis using h u unfolding j by (simp add: scan_string.simps encode_rune_def)
  next
    case 3
    then show ?thesis using b by (simp add: json_byte_def scan_string.simps)
  qed
qed

lemma json_byte_high: "128 \<le> b \<Longrightarrow> json_byte b = [b]"
  by (auto simp: json_byte_def word_le_nat_alt word_less_nat_alt)

lemma scan_high:
  assumes "is_scalar r" "128 \<le> r"
  shows "scan_string (concat (map json_byte (encode_rune r)) @ rest) = put_front (encode_rune r) (scan_string rest)"
proof -
  have "concat (map json_byte bs) = bs" if "\<forall>b \<in> set bs. 128 \<le> b" for bs
    using that by (induction bs) (simp_all add: json_byte_high)
  then have c: "concat (map json_byte (encode_rune r)) = encode_rune r" using encode_rune_high(1) [OF assms] by simp
  obtain b bs where b: "encode_rune r = b # bs" using encode_rune_high(2) [OF assms] by (cases "encode_rune r") simp_all
  then have "128 \<le> b" using encode_rune_high(1) [OF assms] by simp
  then have n: "b \<noteq> 34" "b \<noteq> 92" "\<not> b < 32" "\<not> b < 128" by (auto simp: word_le_nat_alt word_less_nat_alt)
  have d: "decode_rune (b # bs @ rest) = (r, Suc (length bs))" using decode_encode_rune [OF assms, of rest] b by simp
  show ?thesis unfolding c unfolding b append_Cons scan_string.simps d using n by (simp add: b)
qed

lemma scan_written:
  assumes "\<forall>r \<in> set rs. is_scalar r"
  shows "scan_string (concat (map json_byte (utf8 rs)) @ 34 # rest) = Some (utf8 rs, rest)"
  using assms
proof (induction rs)
  case (Cons r rs)
  then have IH: "scan_string (concat (map json_byte (utf8 rs)) @ 34 # rest) = Some (utf8 rs, rest)" by simp
  have "scan_string (concat (map json_byte (encode_rune r)) @ x) = put_front (encode_rune r) (scan_string x)" for x
  proof (cases "r < 128")
    case True
    then have "encode_rune r = [of_nat r]" "(of_nat r :: byte) < 128"
      using unat_byte [of r] by (simp_all add: encode_rune_def word_less_nat_alt)
    then show ?thesis using scan_ascii by simp
  next
    case False
    then show ?thesis using scan_high Cons.prems by simp
  qed
  then show ?case using IH by (simp add: utf8_def put_front_def)
qed (simp add: utf8_def scan_string.simps)

lemma jvalue_string:
  assumes "\<forall>r \<in> set rs. is_scalar r"
  shows "jvalue (Suc n) d (stringify_string (utf8 rs) @ rest) = Some (JString (utf8 rs), rest)"
  using scan_written [OF assms, of rest] by (simp add: jvalue.simps stringify_string_def is_space_def)

lemma jmembers_written:
  assumes "\<forall>(k, v) \<in> set ms. \<forall>r \<in> set (k @ v). is_scalar r" "ms \<noteq> []" "length ms < n"
  shows "jmembers n d (stringify_members (map (\<lambda>(k, v). (utf8 k, utf8 v)) ms) @ 125 # rest)
    = Some (map (\<lambda>(k, v). (utf8 k, JString (utf8 v))) ms, rest)"
  using assms
proof (induction ms arbitrary: n)
  case (Cons kv ms)
  obtain k v where kv: "kv = (k, v)" by (cases kv)
  obtain m where n: "n = Suc (Suc m)" using Cons.prems(3) by (cases n; cases "n - 1") auto
  have ok: "\<forall>r \<in> set k. is_scalar r" "\<forall>r \<in> set v. is_scalar r" using Cons.prems(1) kv by auto
  have step: "jmembers n d (stringify_string (utf8 k) @ 58 # stringify_string (utf8 v) @ x) =
      (case skip_ws x of [] \<Rightarrow> None
       | c # rest2 \<Rightarrow> if c = 44 then map_option (\<lambda>(ms, rest3). ((utf8 k, JString (utf8 v)) # ms, rest3)) (jmembers (Suc m) d rest2)
                      else if c = 125 then Some ([(utf8 k, JString (utf8 v))], rest2) else None)" for x
    unfolding n jmembers.simps
    using scan_written [OF ok(1), of "58 # stringify_string (utf8 v) @ x"] jvalue_string [OF ok(2), of m d x]
    by (simp add: stringify_string_def [of "utf8 k"] is_space_def)
  show ?case
  proof (cases ms)
    case Nil
    then show ?thesis using step [of "125 # rest"] kv by (simp add: is_space_def)
  next
    case (Cons kv' ms')
    have "stringify_members (map (\<lambda>(k, v). (utf8 k, utf8 v)) (kv # ms)) @ 125 # rest
        = stringify_string (utf8 k) @ 58 # stringify_string (utf8 v) @ 44 # stringify_members (map (\<lambda>(k, v). (utf8 k, utf8 v)) ms) @ 125 # rest"
      by (cases kv') (simp add: kv Cons)
    moreover have "jmembers (Suc m) d (stringify_members (map (\<lambda>(k, v). (utf8 k, utf8 v)) ms) @ 125 # rest)
        = Some (map (\<lambda>(k, v). (utf8 k, JString (utf8 v))) ms, rest)"
      using Cons.IH Cons.prems n \<open>ms = kv' # ms'\<close> by simp
    ultimately show ?thesis using step kv by (simp add: is_space_def)
  qed
qed simp

lemma stringify_members_length: "length ms \<le> length (stringify_members ms)"
  by (induction ms rule: stringify_members.induct) (simp_all add: stringify_string_def)

text \<open>An object of strings that the browser writes is read back member by member.\<close>

lemma parse_stringify:
  assumes "\<forall>(k, v) \<in> set ms. \<forall>r \<in> set (k @ v). is_scalar r" "ms \<noteq> []"
  shows "parse_json (stringify (map (\<lambda>(k, v). (utf8 k, utf8 v)) ms))
    = Some (JObject (map (\<lambda>(k, v). (utf8 k, JString (utf8 v))) ms))"
proof -
  let ?ms = "map (\<lambda>(k, v). (utf8 k, utf8 v)) ms"
  let ?n = "2 * length (stringify ?ms)"
  have l: "length ms < ?n" using stringify_members_length [of ?ms] by (simp add: stringify_def)
  obtain k v ms' where ms: "?ms = (k, v) # ms'" using assms(2) by (cases ms) auto
  have q: "\<exists>x. stringify_members ?ms @ [125] = 34 # x"
    unfolding ms by (cases ms') (simp_all add: stringify_string_def)
  have "jvalue (Suc ?n) 0 (stringify ?ms) = Some (JObject (map (\<lambda>(k, v). (utf8 k, JString (utf8 v))) ms), [])"
    using jmembers_written [OF assms l, of "Suc 0" "[]"] q
    by (auto simp: jvalue.simps stringify_def is_space_def max_depth_def)
  then show ?thesis by (rule parse_json_fuel [rotated]) simp_all
qed

end
