(* ===== verification/Hallownestd.thy ===== *)
theory Hallownestd
  imports Stagway Radiance_Safety Flags Json
begin

text \<open>
  The daemon, \<open>cmd/hallownestd/main.go\<close>: start-up with the replay of the log, the loop that applies
  committed commands, the handlers of the HTTP gateway and the shutdown. The MemTable, the log and
  the consensus node are shared by pointers; they live in the fields of the server. What the
  operating system answers is an argument. A request is its method, its path in canonical form, the
  raw query and the body; a response is its status code and the value that is marshalled. \<open>None\<close> is
  a panic of the handler, which \<open>net/http\<close> confines to the connection.

  Then lemmas on what a start makes of a log, on the log behind a sequence of writes and on the
  apply loop, and the gateway as a store.
\<close>

section \<open>Data\<close>

record PutJSONRequest =
  pj_Key :: bytes
  pj_Value :: bytes

record ResponseJSON =
  rj_Success :: bool
  rj_Key :: bytes
  rj_Value :: bytes
  rj_Found :: bool
  rj_Tombstone :: bool
  rj_Index :: int
  rj_Term :: int
  rj_Message :: bytes

text \<open>The zero value of the struct.\<close>

definition no_response :: ResponseJSON where
  "no_response = \<lparr>rj_Success = False, rj_Key = [], rj_Value = [], rj_Found = False, rj_Tombstone = False,
     rj_Index = 0, rj_Term = 0, rj_Message = []\<rparr>"

record StatusJSON =
  st_status :: string
  st_node_id :: int
  st_term :: nat
  st_is_leader :: bool
  st_grpc_port :: int
  st_http_port :: int
  st_memtable_bytes :: int

text \<open>The fixed texts of the gateway, and the bodies of its responses.\<close>

datatype fixed_text = MethodNotAllowed | BodyUnreadable | InvalidJSON | KeyParameterRequired | PageNotFound

datatype http_body = Json ResponseJSON | ErrorText fixed_text | Dashboard | Status StatusJSON

type_synonym http_response = "int \<times> http_body"

text \<open>
  \<open>json.Unmarshal\<close> into the request. A member sets the field of exactly its name, or else the one its
  name folds to; a later member overwrites an earlier one, \<open>null\<close> sets nothing, other members are
  skipped. Any other value for a field is an error, and so is a text that is no object.
\<close>

definition set_member :: "bytes \<times> json \<Rightarrow> PutJSONRequest \<Rightarrow> PutJSONRequest option" where
  "set_member = (\<lambda>(name, v) req.
     (let field = fold_name name in
      if field \<notin> {ascii ''key'', ascii ''value''} \<or> v = JNull then Some req
      else case v of
        JString s \<Rightarrow> Some (if field = ascii ''key'' then req\<lparr>pj_Key := s\<rparr> else req\<lparr>pj_Value := s\<rparr>)
      | _ \<Rightarrow> None))"

fun set_members :: "(bytes \<times> json) list \<Rightarrow> PutJSONRequest \<Rightarrow> PutJSONRequest option" where
  "set_members [] req = Some req"
| "set_members (m # ms) req = (case set_member m req of None \<Rightarrow> None | Some req' \<Rightarrow> set_members ms req')"

definition Unmarshal :: "bytes \<Rightarrow> PutJSONRequest option" where
  "Unmarshal body =
     (case parse_json body of
        Some (JObject ms) \<Rightarrow> set_members ms \<lparr>pj_Key = [], pj_Value = []\<rparr>
      | Some JNull \<Rightarrow> Some \<lparr>pj_Key = [], pj_Value = []\<rparr>
      | _ \<Rightarrow> None)"

section \<open>Start-up and shutdown\<close>

text \<open>The callback of the replay.\<close>

definition replay_apply :: "bytes \<Rightarrow> bytes \<Rightarrow> bool \<Rightarrow> MemTable \<Rightarrow> MemTable option" where
  "replay_apply key val tombstone memTable =
     map_option fst (if tombstone then Delete memTable key else Put memTable key val)"

text \<open>The loop over the apply channel, on the messages it receives.\<close>

fun apply_loop :: "ApplyMsg list \<Rightarrow> MemTable \<Rightarrow> MemTable option" where
  "apply_loop [] memTable = Some memTable"
| "apply_loop (got # later) memTable =
     (if am_CommandValid got then
        (case (if am_Tombstone got then Delete memTable (am_Key got) else Put memTable (am_Key got) (am_Value got)) of
           None \<Rightarrow> None
         | Some (memTable', _) \<Rightarrow> apply_loop later memTable')
      else apply_loop later memTable)"

text \<open>
  What the machine answers during the start: the calls on the data directory and the log file, the
  listing of the directory, the random numbers of the MemTable, and whether the port is free.
\<close>

record boot_env =
  be_mkdir :: bool
  be_wal_mkdir :: bool
  be_wal_open :: bool
  be_wal_stat :: bool
  be_file :: "File option"
  be_dir :: dir_listing
  be_rnd :: "nat \<Rightarrow> rat"
  be_listen :: bool

datatype fatal = FatalMkdir | FatalWAL wal_error | FatalListen net_error

text \<open>The running daemon: the server, the network, and the warning or the count of the replay.\<close>

record Daemon =
  dm_server :: StagwayServer
  dm_mockNet :: MockNetwork
  dm_replay :: "wal_error + int"

definition start_daemon :: "boot_env \<Rightarrow> int \<Rightarrow> int \<Rightarrow> string \<Rightarrow> (fatal + Daemon) option" where
  "start_daemon env port nodeID dataDir =
     (if \<not> be_mkdir env then Some (Inl FatalMkdir)
      else case OpenWAL (be_wal_mkdir env) (be_wal_open env) (be_wal_stat env) (DefaultWALOptions dataDir) (be_file env) of
        Inl e \<Rightarrow> Some (Inl (FatalWAL e))
      | Inr w \<Rightarrow>
          let memTable = NewMemTable DefaultMemTableOptions (be_rnd env) in
          (case ReplayWAL (be_dir env) replay_apply memTable of
             None \<Rightarrow> None
           | Some (memTable', replayed, err) \<Rightarrow>
               let raftNode = NewRaftNode nodeID [] (Some []);
                   mockNet = RegisterNode nodeID (Some nodeID) NewMockNetwork;
                   opts = DefaultStagwayServerOptions (''127.0.0.1:'' @ decimal port) nodeID;
                   (s, lerr) = Start (be_listen env) (NewStagwayServer opts (Some raftNode) (Some memTable') (Some w))
               in (case lerr of
                     Some e \<Rightarrow> Some (Inl (FatalListen e))
                   | None \<Rightarrow> Some (Inr \<lparr>dm_server = s, dm_mockNet = mockNet,
                               dm_replay = (case err of Some e \<Rightarrow> Inl e | None \<Rightarrow> Inr replayed)\<rparr>))))"

text \<open>
  The process: the flags, then the start. The gateway listens in a goroutine of its own, \<open>http_ok\<close> says
  whether its port is free; when it is not, the daemon goes on without the gateway.
\<close>

record settings =
  cf_port :: int
  cf_httpPort :: int
  cf_nodeID :: int
  cf_dataDir :: string

datatype process = FlagsExit int | Fatal fatal | Running settings Daemon "string option"

definition daemon_flags :: "(string \<times> string) list \<Rightarrow> settings" where
  "daemon_flags vals = \<lparr>cf_port = flag_int vals ''port'' 50051, cf_httpPort = flag_int vals ''http-port'' 8080,
     cf_nodeID = flag_int vals ''node-id'' 1, cf_dataDir = flag_value vals ''data-dir'' ''./data/node1''\<rparr>"

definition launch :: "boot_env \<Rightarrow> bool \<Rightarrow> settings \<Rightarrow> process option" where
  "launch env http_ok cf =
     map_option (\<lambda>started. case started of
         Inl e \<Rightarrow> Fatal e
       | Inr d \<Rightarrow> Running cf d (if http_ok then Some ('':'' @ decimal (cf_httpPort cf)) else None))
       (start_daemon env (cf_port cf) (cf_nodeID cf) (cf_dataDir cf))"

definition hallownestd_main :: "boot_env \<Rightarrow> bool \<Rightarrow> string list \<Rightarrow> process option" where
  "hallownestd_main env http_ok args =
     (case Parse [int_flag ''port'', int_flag ''http-port'', int_flag ''node-id'', string_flag ''data-dir''] (tl args) [] of
        FlagExit n \<Rightarrow> Some (FlagsExit n)
      | Flags vals \<Rightarrow> launch env http_ok (daemon_flags vals))"

text \<open>An election timeout of the node of the daemon.\<close>

definition daemon_timeout :: "StagwayServer \<Rightarrow> (StagwayServer \<times> rpc list) option" where
  "daemon_timeout s =
     (case sv_raft s of
        None \<Rightarrow> Some (s, [])
      | Some r \<Rightarrow> map_option (\<lambda>(r', calls). (s\<lparr>sv_raft := Some r'\<rparr>, calls)) (election_tick True r))"

text \<open>The deferred calls, in the order in which they run.\<close>

definition shutdown :: "io \<Rightarrow> bool \<Rightarrow> StagwayServer \<Rightarrow> StagwayServer" where
  "shutdown os close_ok s =
     (let s1 = fst (Stop close_ok s);
          s2 = s1\<lparr>sv_raft := map_option Kill (sv_raft s1)\<rparr>
      in s2\<lparr>sv_wal := map_option (\<lambda>w. fst (Close os w)) (sv_wal s2)\<rparr>)"

section \<open>The HTTP gateway\<close>

fun error_text :: "stagway_error \<Rightarrow> string" where
  "error_text ErrServerClosed = ''stagway: server is closed''"
| "error_text ErrNotLeader = ''stagway: node is not raft leader''"

definition bool_text :: "bool \<Rightarrow> string" where
  "bool_text b = (if b then ''true'' else ''false'')"

definition internal_error :: "stagway_error \<Rightarrow> http_response" where
  "internal_error err = (500, Json (no_response\<lparr>rj_Message := ascii (error_text err)\<rparr>))"

definition handle_root :: "string \<Rightarrow> http_response" where
  "handle_root path = (if path \<noteq> ''/'' then (404, ErrorText PageNotFound) else (200, Dashboard))"

text \<open>\<open>None\<close> as the body is a failed read.\<close>

definition handle_put ::
  "io \<Rightarrow> string \<Rightarrow> bytes option \<Rightarrow> StagwayServer \<Rightarrow> (StagwayServer \<times> rpc list \<times> http_response) option" where
  "handle_put os verb body s =
     (if verb \<noteq> ''POST'' then Some (s, [], 405, ErrorText MethodNotAllowed)
      else case body of
        None \<Rightarrow> Some (s, [], 400, ErrorText BodyUnreadable)
      | Some b \<Rightarrow>
          (case Unmarshal b of
             None \<Rightarrow> Some (s, [], 400, ErrorText InvalidJSON)
           | Some req \<Rightarrow>
               if pj_Key req = [] then Some (s, [], 400, ErrorText InvalidJSON)
               else (case PutGeo os (pj_Key req) (pj_Value req) s of
                       None \<Rightarrow> None
                     | Some (s', calls, idx, t, isLeader, Some err) \<Rightarrow> Some (s', calls, internal_error err)
                     | Some (s', calls, idx, t, isLeader, None) \<Rightarrow>
                         Some (s', calls, 200, Json (no_response\<lparr>rj_Success := True, rj_Key := pj_Key req,
                           rj_Value := pj_Value req, rj_Index := idx, rj_Term := t,
                           rj_Message := ascii ''Stored key '' @ [39] @ pj_Key req @ [39]
                             @ ascii ('' via Raft Leader='' @ bool_text isLeader)\<rparr>)))))"

definition handle_get :: "bytes \<Rightarrow> StagwayServer \<Rightarrow> http_response option" where
  "handle_get key s =
     (if key = [] then Some (400, ErrorText KeyParameterRequired)
      else case GetGeo key s of
        None \<Rightarrow> None
      | Some (val, tombstone, found, Some err) \<Rightarrow> Some (internal_error err)
      | Some (val, tombstone, found, None) \<Rightarrow>
          if \<not> found then
            Some (404, Json (no_response\<lparr>rj_Key := key, rj_Message := ascii ''404 Key Not Found''\<rparr>))
          else if tombstone then
            Some (200, Json (no_response\<lparr>rj_Key := key, rj_Found := True, rj_Tombstone := True,
              rj_Message := ascii ''Key Deleted (Tombstone)''\<rparr>))
          else Some (200, Json (no_response\<lparr>rj_Success := True, rj_Key := key, rj_Value := val, rj_Found := True\<rparr>)))"

definition handle_delete ::
  "io \<Rightarrow> bytes \<Rightarrow> StagwayServer \<Rightarrow> (StagwayServer \<times> rpc list \<times> http_response) option" where
  "handle_delete os key s =
     (if key = [] then Some (s, [], 400, ErrorText KeyParameterRequired)
      else case FocusTombstone os key s of
        None \<Rightarrow> None
      | Some (s', calls, idx, t, isLeader, Some err) \<Rightarrow> Some (s', calls, internal_error err)
      | Some (s', calls, idx, t, isLeader, None) \<Rightarrow>
          Some (s', calls, 200, Json (no_response\<lparr>rj_Success := True, rj_Key := key, rj_Index := idx, rj_Term := t,
            rj_Message := ascii ''Inserted tombstone for key '' @ [39] @ key @ [39]
              @ ascii ('' via Raft Leader='' @ bool_text isLeader)\<rparr>)))"

text \<open>The handler runs only in a daemon that has its node and its MemTable.\<close>

definition handle_status :: "int \<Rightarrow> int \<Rightarrow> int \<Rightarrow> RaftNode \<Rightarrow> MemTable \<Rightarrow> http_response" where
  "handle_status nodeID port httpPort raftNode memTable =
     (200, Status \<lparr>st_status = ''RUNNING'', st_node_id = nodeID, st_term = fst (GetState raftNode), st_is_leader = snd (GetState raftNode),
        st_grpc_port = port, st_http_port = httpPort, st_memtable_bytes = SizeBytes memTable\<rparr>)"

text \<open>A request with a path in canonical form, and the routes.\<close>

record http_request =
  hr_verb :: string
  hr_path :: string
  hr_query :: bytes
  hr_body :: "bytes option"

definition serve_http ::
  "io \<Rightarrow> int \<Rightarrow> int \<Rightarrow> int \<Rightarrow> http_request \<Rightarrow> StagwayServer \<Rightarrow> (StagwayServer \<times> rpc list \<times> http_response) option" where
  "serve_http os nodeID port httpPort req s =
     (if hr_path req = ''/put'' then handle_put os (hr_verb req) (hr_body req) s
      else if hr_path req = ''/get'' then
        map_option (\<lambda>resp. (s, [], resp)) (handle_get (query_get (ascii ''key'') (hr_query req)) s)
      else if hr_path req = ''/delete'' then handle_delete os (query_get (ascii ''key'') (hr_query req)) s
      else if hr_path req = ''/status'' then
        (case (sv_raft s, sv_memTable s) of
           (Some r, Some m) \<Rightarrow> Some (s, [], handle_status nodeID port httpPort r m)
         | _ \<Rightarrow> None)
      else Some (s, [], handle_root (hr_path req)))"

section \<open>Recovery\<close>

definition entry_cell :: "LogEntry \<Rightarrow> bytes \<times> bytes \<times> bool" where
  "entry_cell e = (le_Key e, if le_Tombstone e then ([], True) else (le_Value e, False))"

lemma replay_apply_eq:
  "replay_apply key val tomb m = mem_ins m key (if tomb then ([], True) else (val, False))"
  by (simp add: replay_apply_def mem_ins_def Put_def Delete_def)

lemma apply_entries_mem: "apply_entries replay_apply es m = insert_all mem_ins m (map entry_cell es)"
  by (induction es arbitrary: m) (auto simp: replay_apply_eq entry_cell_def split: option.split)

lemma GetGeo_mem:
  assumes "sv_running s" "sv_memTable s = Some m" "mem_inv m"
  shows "GetGeo key s = Some (case mem_view m key of None \<Rightarrow> ([], False, False, None) | Some (v, t) \<Rightarrow> (v, t, True, None))"
  using assms Get_inv [OF assms(3), of key] by (auto simp: GetGeo_def split: option.splits)

text \<open>The log of a server whose writes and syncs go through: it holds every write, and all of it is on disk.\<close>

definition logged :: "(bytes \<times> bytes \<times> bool) list \<Rightarrow> WAL \<Rightarrow> bool" where
  "logged ws w \<longleftrightarrow> \<not> w_closed w \<and> SyncOnWrite (w_opts w)
     \<and> f_data (w_file w) = concat (map (\<lambda>(k, v, t). entry_bytes (entry_of k v t)) ws)
     \<and> f_synced (w_file w) = length (f_data (w_file w))"

lemma log_and_store_logged:
  assumes "sv_wal s = Some w" "logged ws w" "small key val" "log_and_store io_ok key val tomb s = Some s'"
  shows "\<exists>w'. sv_wal s' = Some w' \<and> logged (ws @ [(key, val, tomb)]) w'"
proof -
  have "\<exists>w' n. Append io_ok w key val tomb = Some (w', n, None) \<and> logged (ws @ [(key, val, tomb)]) w'"
    using assms(2) EncodeRecord_small [OF assms(3)]
    by (auto simp: Append_def Let_def logged_def file_append_def file_sync_def entry_bytes_def)
  then show ?thesis
    using assms(1,4) by (auto simp: log_and_store_def log_part_def store_part_def split: option.splits)
qed

lemma writes_logged:
  assumes "server_ok s" "sv_wal s = Some w" "logged vs w" "\<forall>(key, vt) \<in> set ws. write_fits key vt"
  shows "\<exists>s' w'. insert_all (srv_ins io_ok) s ws = Some s' \<and> server_ok s'
    \<and> server_view s' = server_view s ++ map_of (rev ws) \<and> sv_wal s' = Some w' \<and> logged (vs @ ws) w'"
  using assms
proof (induction ws arbitrary: s w vs)
  case (Cons kv ws)
  obtain key val tomb where kv: "kv = (key, val, tomb)" by (cases kv)
  have f: "write_fits key (val, tomb)" "small key val" using Cons.prems(4) kv by (auto simp: write_fits_def)
  obtain s1 calls idx t s0 where s1: "do_write io_ok s key (val, tomb) = Some (s1, calls, idx, t, True, None)" "server_ok s1"
    "server_view s1 = (server_view s)(key \<mapsto> (val, tomb))" "sv_wal s0 = sv_wal s"
    "log_and_store io_ok key val tomb s0 = Some s1"
    using do_write_ok [OF Cons.prems(1) f(1), of io_ok] by auto
  obtain w1 where w1: "sv_wal s1 = Some w1" "logged (vs @ [kv]) w1"
    using log_and_store_logged [OF _ Cons.prems(3) f(2) s1(5)] s1(4) Cons.prems(2) kv by auto
  obtain s' w' where s': "insert_all (srv_ins io_ok) s1 ws = Some s'" "server_ok s'"
    "server_view s' = server_view s1 ++ map_of (rev ws)" "sv_wal s' = Some w'" "logged ((vs @ [kv]) @ ws) w'"
    using Cons.IH [OF s1(2) w1] Cons.prems(4) by auto
  have "insert_all (srv_ins io_ok) s (kv # ws) = Some s'"
    using s1(1) s'(1) by (simp add: kv srv_ins_def)
  then show ?case using s' s1(3) kv by auto
qed simp

text \<open>The disk as a start finds it: the log file, or none, and nothing else in the directory.\<close>

definition disk_env :: "File option \<Rightarrow> (nat \<Rightarrow> rat) \<Rightarrow> boot_env" where
  "disk_env f rnd = \<lparr>be_mkdir = True, be_wal_mkdir = True, be_wal_open = True, be_wal_stat = True, be_file = f,
     be_dir = DirEntries [\<lparr>d_name = ''bench_0.wal'', d_isdir = False,
       d_contents = Some (case f of None \<Rightarrow> [] | Some g \<Rightarrow> f_data g, False)\<rparr>],
     be_rnd = rnd, be_listen = True\<rparr>"

lemma replay_one_file:
  assumes "\<forall>e \<in> set es. entry_fits e" "apply_entries f es s = Some s'"
  shows "ReplayWAL (DirEntries [\<lparr>d_name = ''bench_0.wal'', d_isdir = False,
      d_contents = Some (concat (map entry_bytes es), False)\<rparr>]) f s = Some (s', int (length es), None)"
proof -
  have "reads (read_record False) (concat (map entry_bytes es) @ []) es []" by (rule wal.reads_all [OF assms(1)])
  then have "replay_file f False (concat (map entry_bytes es)) s 0 = Some (s', int (length es), None)"
    using replay_file_reads [of False "concat (map entry_bytes es)" es "[]" f s 0] replay_file_stop(1) wal.dec_nil assms(2)
    by simp
  then show ?thesis by (simp add: ReplayWAL_def Ext_def)
qed

text \<open>A start on a disk that holds the log of some writes.\<close>

lemma start_on_log:
  assumes "\<forall>(key, vt) \<in> set ws. write_fits key vt"
    and "(case f of None \<Rightarrow> [] | Some g \<Rightarrow> f_data g) = concat (map (\<lambda>(k, v, t). entry_bytes (entry_of k v t)) ws)"
  shows "\<exists>d m w. start_daemon (disk_env f rnd) port nodeID dir = Some (Inr d) \<and> dm_replay d = Inr (int (length ws))
    \<and> sv_running (dm_server d) \<and> sv_raft (dm_server d) = Some (NewRaftNode nodeID [] (Some []))
    \<and> sv_memTable (dm_server d) = Some m \<and> mem_inv m \<and> mem_view m = map_of (rev ws)
    \<and> OpenWAL True True True (DefaultWALOptions dir) f = Inr w \<and> sv_wal (dm_server d) = Some w"
proof -
  let ?m = "NewMemTable DefaultMemTableOptions rnd" and ?es = "map (\<lambda>(k, v, t). entry_of k v t) ws"
  have cells: "map entry_cell ?es = ws"
    using assms(1) by (induction ws) (auto simp: entry_cell_def write_fits_def)
  obtain m where m: "insert_all mem_ins ?m ws = Some m" "mem_inv m" "mem_view m = map_of (rev ws)"
    using mem.insert_all_ok [OF NewMemTable_inv(1), of ws DefaultMemTableOptions rnd] by auto
  have fits: "\<forall>e \<in> set ?es. entry_fits e"
    using assms(1) by (auto simp: entry_fits_def write_fits_def)
  have data: "concat (map entry_bytes ?es) = (case f of None \<Rightarrow> [] | Some g \<Rightarrow> f_data g)"
    unfolding assms(2) by (rule arg_cong [where f = concat]) auto
  have "apply_entries replay_apply ?es ?m = Some m" unfolding apply_entries_mem cells by (rule m(1))
  from replay_one_file [OF fits this]
  have rp: "ReplayWAL (be_dir (disk_env f rnd)) replay_apply ?m = Some (m, int (length ws), None)"
    unfolding data by (simp add: disk_env_def)
  obtain w where w: "OpenWAL True True True (DefaultWALOptions dir) f = Inr w" by (simp add: OpenWAL_def Let_def)
  show ?thesis
    using m(2,3) rp w
    by (simp add: start_daemon_def Let_def Start_def NewStagwayServer_def disk_env_def)
qed

text \<open>The first election timeout makes the node of the daemon the leader.\<close>

lemma lone_node_leads:
  "\<exists>r. election_tick True (NewRaftNode nodeID [] (Some [])) = Some (r, []) \<and> ready r"
  by (simp add: election_tick_def startElection_def becomeLeader_def broadcastHeartbeats_def majorityNeeded_def
      NewRaftNode_def Let_def ready_def)

lemma daemon_leads:
  assumes "sv_running s" "sv_raft s = Some (NewRaftNode nodeID [] (Some []))" "sv_memTable s = Some m" "mem_inv m"
  shows "\<exists>s'. daemon_timeout s = Some (s', []) \<and> server_ok s' \<and> server_view s' = mem_view m \<and> sv_wal s' = sv_wal s"
proof -
  obtain r where "election_tick True (NewRaftNode nodeID [] (Some [])) = Some (r, [])" "ready r"
    using lone_node_leads by blast
  then show ?thesis using assms by (auto simp: daemon_timeout_def server_ok_def server_view_def fun_eq_iff)
qed

section \<open>The command line\<close>

text \<open>
  C25: The daemon runs with the settings on its command line. Written as \<open>--node-id=N --port=P
  --http-port=H --data-dir=D\<close> with any 64-bit integers in decimal and any directory, in this order,
  the flags are read back as exactly these values, and the start uses them; whereas a port that is
  no integer ends the process with exit code 2 before anything is opened.
\<close>

theorem command_line_sets_daemon:
  assumes "\<forall>n \<in> {nodeID, port, hp}. - (2 ^ 63) \<le> n \<and> n < 2 ^ 63" "ParseInt bad = None"
  shows "hallownestd_main env http_ok [prog, ''--node-id='' @ decimal nodeID, ''--port='' @ decimal port,
      ''--http-port='' @ decimal hp, ''--data-dir='' @ dir]
    = launch env http_ok \<lparr>cf_port = port, cf_httpPort = hp, cf_nodeID = nodeID, cf_dataDir = dir\<rparr>
    \<and> hallownestd_main env http_ok (prog # (''--port='' @ bad) # args) = Some (FlagsExit 2)"
proof
  let ?formal = "[int_flag ''port'', int_flag ''http-port'', int_flag ''node-id'', string_flag ''data-dir'']"
  have d: "ParseInt (decimal nodeID) = Some nodeID" "ParseInt (decimal port) = Some port" "ParseInt (decimal hp) = Some hp"
    using assms(1) by (simp_all add: ParseInt_decimal)
  have "Parse ?formal [''--node-id='' @ decimal nodeID, ''--port='' @ decimal port, ''--http-port='' @ decimal hp, ''--data-dir='' @ dir] []
      = Flags [(''data-dir'', dir), (''http-port'', decimal hp), (''port'', decimal port), (''node-id'', decimal nodeID)]"
    using Parse_flag(1) [of ?formal "''node-id''" "\<lambda>v. ParseInt v \<noteq> None" "decimal nodeID"]
      Parse_flag(1) [of ?formal "''port''" "\<lambda>v. ParseInt v \<noteq> None" "decimal port"]
      Parse_flag(1) [of ?formal "''http-port''" "\<lambda>v. ParseInt v \<noteq> None" "decimal hp"]
      Parse_flag(1) [of ?formal "''data-dir''" "\<lambda>_. True" dir] d
    by (simp add: int_flag_def string_flag_def)
  then show "hallownestd_main env http_ok [prog, ''--node-id='' @ decimal nodeID, ''--port='' @ decimal port,
      ''--http-port='' @ decimal hp, ''--data-dir='' @ dir]
    = launch env http_ok \<lparr>cf_port = port, cf_httpPort = hp, cf_nodeID = nodeID, cf_dataDir = dir\<rparr>"
    using d by (simp add: hallownestd_main_def daemon_flags_def flag_int_def flag_value_def)
  show "hallownestd_main env http_ok (prog # (''--port='' @ bad) # args) = Some (FlagsExit 2)"
    using assms(2) by (simp add: hallownestd_main_def flag_name_def int_flag_def)
qed

theorem command_line_sets_daemon_witness:
  "hallownestd_main (disk_env None (\<lambda>_. 0)) True [''hallownestd'', ''--node-id=2'', ''--port=50052'', ''--http-port=8082'', ''--data-dir=/app/data/node2'']
      = launch (disk_env None (\<lambda>_. 0)) True \<lparr>cf_port = 50052, cf_httpPort = 8082, cf_nodeID = 2, cf_dataDir = ''/app/data/node2''\<rparr>
    \<and> hallownestd_main (disk_env None (\<lambda>_. 0)) True [''hallownestd'', ''--port=:50052''] = Some (FlagsExit 2)"
proof -
  have d: "decimal 2 = ''2''" "decimal 50052 = ''50052''" "decimal 8082 = ''8082''"
    by (simp_all add: decimal_def digits.simps char_of_def bit_0)
  have "ParseInt '':50052'' = None" by code_simp
  show ?thesis
    using command_line_sets_daemon [of 2 50052 8082 "'':50052''" "disk_env None (\<lambda>_. 0)" True "''hallownestd''" "''/app/data/node2''" "[]"] d
    \<open>ParseInt '':50052'' = None\<close> by simp
qed

section \<open>Replicas\<close>

lemma apply_loop_mem:
  assumes "\<forall>a \<in> set msgs. am_CommandValid a"
  shows "apply_loop msgs m = insert_all mem_ins m
    (map (\<lambda>a. (am_Key a, if am_Tombstone a then ([], True) else (am_Value a, False))) msgs)"
  using assms
  by (induction msgs arbitrary: m) (auto simp: mem_ins_def Put_def Delete_def map_option_case split: option.split)

text \<open>The loop of the daemon on a new MemTable: it never panics, and the random levels do not matter.\<close>

lemma apply_loop_new:
  assumes "\<forall>a \<in> set msgs. am_CommandValid a"
  shows "\<exists>m. apply_loop msgs (NewMemTable opts rnd) = Some m \<and> mem_inv m \<and> mem_view m = map_of (rev
    (map (\<lambda>a. (am_Key a, if am_Tombstone a then ([], True) else (am_Value a, False))) msgs))"
  unfolding apply_loop_mem [OF assms] using mem.insert_all_ok [OF NewMemTable_inv(1)] by auto

lemma applied_valid:
  assumes "sim ids c s" "i \<in> ids" "rn_applyCh (cl_nodes c i) = Some xs"
  shows "\<forall>a \<in> set xs. am_CommandValid a"
  using sim_covered(3) [OF assms(1,2)] assms(3) by (auto simp: applied_def apply_msg_def)

section \<open>The gateway as a store\<close>

lemma handle_get_ok:
  assumes "server_ok s" "key \<noteq> []"
  shows "handle_get key s = Some (case server_view s key of
      None \<Rightarrow> (404, Json (no_response\<lparr>rj_Key := key, rj_Message := ascii ''404 Key Not Found''\<rparr>))
    | Some (v, t) \<Rightarrow> (200, Json (if t then no_response\<lparr>rj_Key := key, rj_Found := True, rj_Tombstone := True,
          rj_Message := ascii ''Key Deleted (Tombstone)''\<rparr>
        else no_response\<lparr>rj_Success := True, rj_Key := key, rj_Value := v, rj_Found := True\<rparr>)))"
  using GetGeo_ok [OF assms(1), of key] assms(2) by (auto simp: handle_get_def split: option.split)

text \<open>
  The gateway is a store. On a server that leads, a JSON body with a key and a value posted to
  \<open>/put\<close> is acknowledged, and \<open>/get\<close> with any query for that key returns the value; after \<open>/delete\<close> of
  the key, \<open>/get\<close> reports a tombstone and no success; and the answers of \<open>/get\<close> for all other keys are
  the same as before.
\<close>

theorem http_put_get_delete:
  assumes "server_ok s" "Unmarshal b = Some \<lparr>pj_Key = key, pj_Value = val\<rparr>" "key \<noteq> []" "small key val" "query_get (ascii ''key'') q = key"
  shows "\<exists>s1 calls1 idx1 t1 text1 s2 calls2 idx2 t2 text2.
    serve_http os nodeID port hp \<lparr>hr_verb = ''POST'', hr_path = ''/put'', hr_query = q', hr_body = Some b\<rparr> s
      = Some (s1, calls1, 200, Json (no_response\<lparr>rj_Success := True, rj_Key := key, rj_Value := val,
          rj_Index := idx1, rj_Term := t1, rj_Message := text1\<rparr>))
    \<and> serve_http os nodeID port hp \<lparr>hr_verb = ''GET'', hr_path = ''/get'', hr_query = q, hr_body = b'\<rparr> s1
      = Some (s1, [], 200, Json (no_response\<lparr>rj_Success := True, rj_Key := key, rj_Value := val, rj_Found := True\<rparr>))
    \<and> serve_http os' nodeID port hp \<lparr>hr_verb = verb, hr_path = ''/delete'', hr_query = q, hr_body = b'\<rparr> s1
      = Some (s2, calls2, 200, Json (no_response\<lparr>rj_Success := True, rj_Key := key,
          rj_Index := idx2, rj_Term := t2, rj_Message := text2\<rparr>))
    \<and> serve_http os nodeID port hp \<lparr>hr_verb = ''GET'', hr_path = ''/get'', hr_query = q, hr_body = b'\<rparr> s2
      = Some (s2, [], 200, Json (no_response\<lparr>rj_Key := key, rj_Found := True, rj_Tombstone := True,
          rj_Message := ascii ''Key Deleted (Tombstone)''\<rparr>))
    \<and> (\<forall>key'. key' \<noteq> key \<longrightarrow> handle_get key' s2 = handle_get key' s)"
proof -
  have f: "write_fits key (val, False)" "write_fits key ([], True)" using assms(4) by (simp_all add: write_fits_def small_def)
  obtain s1 calls1 idx1 t1 where s1: "PutGeo os key val s = Some (s1, calls1, idx1, t1, True, None)" "server_ok s1"
    "server_view s1 = (server_view s)(key \<mapsto> (val, False))"
    using do_write_ok [OF assms(1) f(1), of os] by (auto simp: do_write_def)
  obtain s2 calls2 idx2 t2 where s2: "FocusTombstone os' key s1 = Some (s2, calls2, idx2, t2, True, None)" "server_ok s2"
    "server_view s2 = (server_view s1)(key \<mapsto> ([], True))"
    using do_write_ok [OF s1(2) f(2), of os'] by (auto simp: do_write_def)
  have "handle_get key' s2 = handle_get key' s" if "key' \<noteq> key" for key'
  proof (cases "key' = []")
    case False
    then show ?thesis using that handle_get_ok [OF s2(2) False] handle_get_ok [OF assms(1) False] s1(3) s2(3) by simp
  qed (simp add: handle_get_def)
  then show ?thesis
    using s1(1,3) s2(1,3) assms(2,3,5) handle_get_ok [OF s1(2) assms(3)] handle_get_ok [OF s2(2) assms(3)]
    by (simp add: serve_http_def handle_put_def handle_delete_def) blast
qed

text \<open>The body that the page writes is read as the key and the value that were put in.\<close>

lemma Unmarshal_stringify:
  assumes "\<forall>r \<in> set (ks @ vs). is_scalar r"
  shows "Unmarshal (stringify [(ascii ''key'', utf8 ks), (ascii ''value'', utf8 vs)]) = Some \<lparr>pj_Key = utf8 ks, pj_Value = utf8 vs\<rparr>"
proof -
  have n: "ascii ''key'' = utf8 [107, 101, 121]" "ascii ''value'' = utf8 [118, 97, 108, 117, 101]"
    by (simp_all add: ascii_def utf8_def encode_rune_def)
  have "parse_json (stringify [(ascii ''key'', utf8 ks), (ascii ''value'', utf8 vs)])
      = Some (JObject [(ascii ''key'', JString (utf8 ks)), (ascii ''value'', JString (utf8 vs))])"
    using parse_stringify [of "[([107, 101, 121], ks), ([118, 97, 108, 117, 101], vs)]"] assms by (simp add: n is_scalar_def)
  then show ?thesis by (simp add: Unmarshal_def set_member_def ascii_def)
qed

text \<open>A body with its members in another order and spelling.\<close>

definition sample_body :: bytes where
  "sample_body = ascii ''{ \"value\": \"v\", \"Key\": \"'' @ [92] @ ascii ''u006b\"}''"

lemma Unmarshal_sample: "Unmarshal sample_body = Some \<lparr>pj_Key = [107], pj_Value = [118]\<rparr>"
proof -
  have body: "sample_body = [123, 32, 34, 118, 97, 108, 117, 101, 34, 58, 32, 34, 118, 34, 44, 32, 34, 75, 101, 121, 34, 58, 32,
      34, 92, 117, 48, 48, 54, 98, 34, 125]"
    by (simp add: sample_body_def ascii_def)
  have h: "hex4 (48 # 48 # 54 # 98 # x) = Some 107" for x by (simp add: hex4_def ishex_def unhex_def)
  have s: "scan_string (118 # 97 # 108 # 117 # 101 # 34 # x) = Some (ascii ''value'', x)"
    "scan_string (118 # 34 # x) = Some ([118], x)" "scan_string (75 # 101 # 121 # 34 # x) = Some (ascii ''Key'', x)" for x
    by (simp_all add: scan_string.simps put_front_def ascii_def)
  have u: "scan_string (92 # 117 # 48 # 48 # 54 # 98 # 34 # x) = Some ([107], x)" for x
    by (simp add: scan_string.simps put_front_def h unicode_escape_def encode_rune_def)
  have v: "jvalue (Suc (Suc (Suc (Suc (Suc n))))) 0 sample_body
      = Some (JObject [(ascii ''value'', JString [118]), (ascii ''Key'', JString [107])], [])" for n
    unfolding body by (simp add: jvalue.simps jmembers.simps s u is_space_def max_depth_def)
  have "parse_json sample_body = Some (JObject [(ascii ''value'', JString [118]), (ascii ''Key'', JString [107])])"
    by (rule parse_json_fuel [OF _ v [of 65]]) (simp_all add: body)
  then show ?thesis by (simp add: Unmarshal_def set_member_def ascii_def)
qed

theorem http_put_get_delete_witness:
  "\<exists>s1 calls1 idx1 t1 text1. serve_http io_ok 1 50051 8080
      \<lparr>hr_verb = ''POST'', hr_path = ''/put'', hr_query = [], hr_body = Some sample_body\<rparr> sample_server
      = Some (s1, calls1, 200, Json (no_response\<lparr>rj_Success := True, rj_Key := [107], rj_Value := [118],
          rj_Index := idx1, rj_Term := t1, rj_Message := text1\<rparr>))
    \<and> serve_http io_ok 1 50051 8080
      \<lparr>hr_verb = ''GET'', hr_path = ''/get'', hr_query = ascii ''x=1&key=%6b'', hr_body = None\<rparr> s1
      = Some (s1, [], 200, Json (no_response\<lparr>rj_Success := True, rj_Key := [107], rj_Value := [118], rj_Found := True\<rparr>))"
proof -
  note b = Unmarshal_sample
  have q: "query_get (ascii ''key'') (ascii ''x=1&key=%6b'') = [107]" by code_simp
  show ?thesis
    using http_put_get_delete [OF sample_server_ok b _ _ q, of io_ok 1 50051 8080 "[]" None io_ok "''GET''"]
    by (simp add: small_def) blast
qed

end
