(* ===== verification/Console.thy ===== *)
theory Console
  imports Hallownestd
begin

text \<open>
  The script of the web console, the constant \<open>DashboardHTML\<close> of \<open>cmd/hallownestd/main.go\<close>. The page is
  the texts of its elements. A function of the script that waits for \<open>fetch\<close> has two parts: the request
  it sends, and what it does with the answer when that arrives. What the browser supplies is an
  argument: the local time, and the message of an exception. Texts are their UTF-8 bytes, and numbers
  are those a \<open>Number\<close> holds exactly, below \<open>2\<^sup>5\<^sup>3\<close>.

  Then the console in front of the gateway: what it shows after a start, with the gateway up or down;
  a key and a value typed in are stored, fetched and deleted; and what it shows when the server
  refuses a write.
\<close>

section \<open>Answers\<close>

text \<open>\<open>json.Marshal\<close> of a string, read by the browser: bytes that are no UTF-8 have become U+FFFD.\<close>

function valid_text :: "bytes \<Rightarrow> bytes" where
  "valid_text [] = []"
| "valid_text (b # bs) =
     encode_rune (fst (decode_rune (b # bs))) @ valid_text (drop (snd (decode_rune (b # bs)) - 1) bs)"
  by pat_completeness auto
termination
  by (relation "measure length") auto

declare valid_text.simps [simp del]

text \<open>
  The fields of an answer that the script reads. A field with \<open>omitempty\<close> is missing when it is zero;
  a missing field is \<open>undefined\<close>, which is false as a condition.
\<close>

record answer_data =
  js_found :: bool
  js_tombstone :: bool
  js_value :: "bytes option"
  js_index :: "int option"
  js_term :: "int option"
  js_is_leader :: bool
  js_memtable_bytes :: "int option"

definition no_data :: answer_data where
  "no_data = \<lparr>js_found = False, js_tombstone = False, js_value = None, js_index = None, js_term = None,
     js_is_leader = False, js_memtable_bytes = None\<rparr>"

definition omitempty :: "'a \<Rightarrow> 'a \<Rightarrow> 'a option" where
  "omitempty zero x = (if x = zero then None else Some x)"

text \<open>\<open>res.json()\<close>; \<open>None\<close> is the exception when the body is no JSON. The texts of \<open>http.Error\<close> are JSON objects.\<close>

fun res_json :: "http_body \<Rightarrow> answer_data option" where
  "res_json (Json r) = Some (no_data\<lparr>js_found := rj_Found r, js_tombstone := rj_Tombstone r,
     js_value := map_option valid_text (omitempty [] (rj_Value r)), js_index := omitempty 0 (rj_Index r), js_term := omitempty 0 (rj_Term r)\<rparr>)"
| "res_json (Status st) = Some (no_data\<lparr>js_term := Some (int (st_term st)), js_is_leader := st_is_leader st,
     js_memtable_bytes := Some (st_memtable_bytes st)\<rparr>)"
| "res_json (ErrorText PageNotFound) = None"
| "res_json (ErrorText _) = Some no_data"
| "res_json Dashboard = None"

datatype answer = Data answer_data | Thrown bytes

text \<open>The answer to a request that was served; \<open>message\<close> is the message of the exception, if there is one.\<close>

definition answer_of :: "bytes \<Rightarrow> http_response \<Rightarrow> answer" where
  "answer_of message resp = (case res_json (snd resp) of None \<Rightarrow> Thrown message | Some d \<Rightarrow> Data d)"

text \<open>A field joined to a string.\<close>

definition text_of :: "bytes option \<Rightarrow> bytes" where
  "text_of x = (case x of None \<Rightarrow> ascii ''undefined'' | Some s \<Rightarrow> s)"

definition number_of :: "int option \<Rightarrow> bytes" where
  "number_of x = text_of (map_option (\<lambda>n. ascii (decimal n)) x)"

section \<open>The page\<close>

record page =
  pg_nodeRole :: bytes
  pg_nodeTerm :: bytes
  pg_nodeMem :: bytes
  pg_inputKey :: bytes
  pg_inputValue :: bytes
  pg_logBox :: "bytes list"

text \<open>The page as it is loaded.\<close>

definition first_page :: page where
  "first_page = \<lparr>pg_nodeRole = ascii ''LEADER'', pg_nodeTerm = ascii ''1'', pg_nodeMem = ascii ''0 B'',
     pg_inputKey = [], pg_inputValue = [],
     pg_logBox = [ascii ''<span class=\"log-time\">[Console]</span> HallownestKV Web Console Initialized. Ready for queries.'']\<rparr>"

definition get_request :: "string \<Rightarrow> http_request" where
  "get_request path = \<lparr>hr_verb = ''GET'', hr_path = path, hr_query = [], hr_body = Some []\<rparr>"



text \<open>An entry of the log box, as the HTML that is set.\<close>

definition log_entry :: "bytes \<Rightarrow> bytes \<Rightarrow> bool \<Rightarrow> bytes" where
  "log_entry time message isError =
     ascii ''<span class=\"log-time\">['' @ time @ ascii '']</span> <span class=\"''
       @ ascii (if isError then ''log-error'' else ''log-success'') @ ascii ''\">'' @ message @ ascii ''</span>''"

definition addLog :: "bytes \<Rightarrow> bytes \<Rightarrow> bool \<Rightarrow> page \<Rightarrow> page" where
  "addLog time message isError pg = pg\<lparr>pg_logBox := log_entry time message isError # pg_logBox pg\<rparr>"

text \<open>The button PUT: \<open>None\<close> is the alert for an empty key.\<close>

definition doPut :: "page \<Rightarrow> http_request option" where
  "doPut pg =
     (let k = pg_inputKey pg; v = pg_inputValue pg in
      if k = [] then None
      else Some \<lparr>hr_verb = ''POST'', hr_path = ''/put'', hr_query = [],
        hr_body = Some (stringify [(ascii ''key'', k), (ascii ''value'', v)])\<rparr>)"

definition doPut_answer :: "bytes \<Rightarrow> bytes \<Rightarrow> answer \<Rightarrow> page \<Rightarrow> page" where
  "doPut_answer time k a pg =
     (case a of
        Thrown message \<Rightarrow> addLog time (ascii ''PUT Error: '' @ message) True pg
      | Data d \<Rightarrow> addLog time (ascii ''PUT \"'' @ k @ ascii ''\" -> OK (Index: '' @ number_of (js_index d)
          @ ascii '', Term: '' @ number_of (js_term d) @ ascii '')'') False pg)"

definition doGet :: "page \<Rightarrow> http_request option" where
  "doGet pg =
     (let k = pg_inputKey pg in
      if k = [] then None
      else Some ((get_request ''/get'')\<lparr>hr_query := url_query (ascii ''key='' @ encodeURIComponent k)\<rparr>))"

definition doGet_answer :: "bytes \<Rightarrow> bytes \<Rightarrow> answer \<Rightarrow> page \<Rightarrow> page" where
  "doGet_answer time k a pg =
     (case a of
        Thrown message \<Rightarrow> addLog time (ascii ''GET Error: '' @ message) True pg
      | Data d \<Rightarrow>
          if js_found d then
            (if js_tombstone d then addLog time (ascii ''GET \"'' @ k @ ascii ''\" -> KEY DELETED (Tombstone)'') True pg
             else addLog time (ascii ''GET \"'' @ k @ ascii ''\" -> VALUE: \"'' @ text_of (js_value d) @ ascii ''\"'') False
               (pg\<lparr>pg_inputValue := text_of (js_value d)\<rparr>))
          else addLog time (ascii ''GET \"'' @ k @ ascii ''\" -> 404 Key Not Found'') True pg)"

definition doDelete :: "page \<Rightarrow> http_request option" where
  "doDelete pg =
     (let k = pg_inputKey pg in
      if k = [] then None
      else Some \<lparr>hr_verb = ''DELETE'', hr_path = ''/delete'', hr_query = url_query (ascii ''key='' @ encodeURIComponent k), hr_body = Some []\<rparr>)"

definition doDelete_answer :: "bytes \<Rightarrow> bytes \<Rightarrow> answer \<Rightarrow> page \<Rightarrow> page" where
  "doDelete_answer time k a pg =
     (case a of
        Thrown message \<Rightarrow> addLog time (ascii ''DELETE Error: '' @ message) True pg
      | Data d \<Rightarrow> addLog time (ascii ''DELETE \"'' @ k @ ascii ''\" -> TOMBSTONE INSERTED (Index: '' @ number_of (js_index d)
          @ ascii '')'') False pg)"

section \<open>The console in front of the gateway\<close>

text \<open>
  A request to the gateway. \<open>gateway\<close> is the address at which the process listens for HTTP, or \<open>None\<close>
  when its port was taken; \<open>fetch\<close> throws then, with the message of the browser. \<open>None\<close> as the result is
  a panic of the handler.
\<close>

definition fetch ::
  "string option \<Rightarrow> io \<Rightarrow> settings \<Rightarrow> bytes \<Rightarrow> http_request \<Rightarrow> StagwayServer \<Rightarrow> (answer \<times> StagwayServer) option" where
  "fetch gateway os cf message req s =
     (case gateway of
        None \<Rightarrow> Some (Thrown message, s)
      | Some _ \<Rightarrow> map_option (\<lambda>(s', calls, resp). (answer_of message resp, s'))
          (serve_http os (cf_nodeID cf) (cf_port cf) (cf_httpPort cf) req s))"

text \<open>A click whose request is answered before anything else happens on the page.\<close>

definition click ::
  "(page \<Rightarrow> http_request option) \<Rightarrow> (bytes \<Rightarrow> bytes \<Rightarrow> answer \<Rightarrow> page \<Rightarrow> page) \<Rightarrow> string option \<Rightarrow> io \<Rightarrow> settings \<Rightarrow> bytes \<Rightarrow> bytes
    \<Rightarrow> page \<times> StagwayServer \<Rightarrow> (page \<times> StagwayServer) option" where
  "click ask finish gateway os cf time message = (\<lambda>(pg, s).
     (case ask pg of
        None \<Rightarrow> Some (pg, s)
      | Some req \<Rightarrow> map_option (\<lambda>(a, s'). (finish time (pg_inputKey pg) a pg, s')) (fetch gateway os cf message req s)))"




lemma valid_text_utf8: "\<forall>r \<in> set rs. is_scalar r \<Longrightarrow> valid_text (utf8 rs) = utf8 rs"
proof (induction rs)
  case (Cons r rs)
  have "valid_text (encode_rune r @ x) = encode_rune r @ valid_text x" for x
  proof (cases "r < 128")
    case True
    then show ?thesis by (simp add: encode_rune_def valid_text.simps decode_rune_def unat_byte)
  next
    case False
    then have d: "decode_rune (encode_rune r @ x) = (r, length (encode_rune r))" "encode_rune r \<noteq> []"
      using decode_encode_rune encode_rune_high(2) Cons.prems by simp_all
    then obtain b bs where "encode_rune r = b # bs" by (cases "encode_rune r") simp_all
    then show ?thesis using d(1) by (simp add: valid_text.simps)
  qed
  then show ?case using Cons by (simp add: utf8_def)
qed (simp add: utf8_def valid_text.simps)

text \<open>The key of the URL is the key of the page.\<close>

lemma query_of_page: "query_get (ascii ''key'') (url_query (ascii ''key='' @ encodeURIComponent k)) = k"
proof -
  have "url_query (ascii ''key='' @ encodeURIComponent k) = ascii ''key'' @ [61] @ url_query (encodeURIComponent k)"
    by (simp add: url_query_def ascii_def)
  then show ?thesis using query_roundtrip [of "ascii ''key''" k] by (simp add: ascii_def)
qed

lemma utf8_Nil: "utf8 rs = [] \<longleftrightarrow> rs = []"
  by (cases rs) (auto simp: utf8_def encode_rune_def)

lemma click_put:
  assumes "\<forall>r \<in> set (ks @ vs). is_scalar r" "ks \<noteq> []" "pg_inputKey pg = utf8 ks" "pg_inputValue pg = utf8 vs"
    and "PutGeo os (utf8 ks) (utf8 vs) s = Some (s', calls, idx, t, leader, err)"
  shows "click doPut doPut_answer (Some addr) os cf time message (pg, s) = Some (addLog time (ascii ''PUT \"'' @ utf8 ks @ ascii ''\" -> OK (Index: ''
    @ number_of (if err = None then omitempty 0 idx else None) @ ascii '', Term: ''
    @ number_of (if err = None then omitempty 0 t else None) @ ascii '')'') False pg, s')"
  using assms Unmarshal_stringify [OF assms(1)]
  by (cases err) (simp_all add: click_def fetch_def doPut_def serve_http_def handle_put_def internal_error_def doPut_answer_def answer_of_def
      no_response_def no_data_def omitempty_def utf8_Nil)

lemma click_get:
  assumes "server_ok s" "pg_inputKey pg = k" "k \<noteq> []"
  shows "click doGet doGet_answer (Some addr) os cf time message (pg, s) = Some (case server_view s k of
      None \<Rightarrow> addLog time (ascii ''GET \"'' @ k @ ascii ''\" -> 404 Key Not Found'') True pg
    | Some (v, tomb) \<Rightarrow>
        if tomb then addLog time (ascii ''GET \"'' @ k @ ascii ''\" -> KEY DELETED (Tombstone)'') True pg
        else let x = text_of (map_option valid_text (omitempty [] v)) in
          addLog time (ascii ''GET \"'' @ k @ ascii ''\" -> VALUE: \"'' @ x @ ascii ''\"'') False (pg\<lparr>pg_inputValue := x\<rparr>), s)"
  using assms handle_get_ok [OF assms(1,3)] query_of_page [of k]
  by (auto simp: click_def fetch_def doGet_def get_request_def serve_http_def doGet_answer_def answer_of_def
      no_response_def no_data_def omitempty_def Let_def split: option.split)

lemma click_delete:
  assumes "pg_inputKey pg = k" "k \<noteq> []" "FocusTombstone os k s = Some (s', calls, idx, t, leader, err)"
  shows "click doDelete doDelete_answer (Some addr) os cf time message (pg, s) = Some (addLog time (ascii ''DELETE \"'' @ k
    @ ascii ''\" -> TOMBSTONE INSERTED (Index: '' @ number_of (if err = None then omitempty 0 idx else None) @ ascii '')'') False pg, s')"
  using assms query_of_page [of k]
  by (cases err) (simp_all add: click_def fetch_def doDelete_def serve_http_def handle_delete_def internal_error_def doDelete_answer_def answer_of_def
      no_response_def no_data_def omitempty_def)



text \<open>
  C22: The console stores, shows and deletes what is typed in, through the script, the URL or the JSON
  body, the gateway and the server. On a server that leads and whose gateway listens, for any key that
  is not empty and any value, made of any Unicode characters (quotes, ampersands, control characters
  included) and not too long for the log: after PUT, a click on GET logs the value and puts it into
  the value field, where an empty value, which the answer leaves out, shows as \<open>undefined\<close>; after
  DELETE, it logs that the key is deleted and leaves the value field alone; and no other key of the
  server has changed.
\<close>

theorem console_round_trip:
  assumes "server_ok s" "\<forall>r \<in> set (ks @ vs). is_scalar r" "ks \<noteq> []" "small (utf8 ks) (utf8 vs)"
    and "pg_inputKey pg = utf8 ks" "pg_inputValue pg = utf8 vs" "pg_inputKey pg' = utf8 ks"
  shows "\<exists>pg1 s1 pg2 s2. click doPut doPut_answer (Some addr) os cf time message (pg, s) = Some (pg1, s1)
    \<and> (let shown = (if vs = [] then ascii ''undefined'' else utf8 vs) in
        click doGet doGet_answer (Some addr) os cf time message (pg', s1) = Some (addLog time
          (ascii ''GET \"'' @ utf8 ks @ ascii ''\" -> VALUE: \"'' @ shown @ ascii ''\"'') False (pg'\<lparr>pg_inputValue := shown\<rparr>), s1))
    \<and> click doDelete doDelete_answer (Some addr) os' cf time message (pg1, s1) = Some (pg2, s2)
    \<and> click doGet doGet_answer (Some addr) os cf time message (pg2, s2) = Some (addLog time
        (ascii ''GET \"'' @ utf8 ks @ ascii ''\" -> KEY DELETED (Tombstone)'') True pg2, s2)
    \<and> pg_inputValue pg2 = utf8 vs
    \<and> (\<forall>key. key \<noteq> utf8 ks \<longrightarrow> GetGeo key s2 = GetGeo key s)"
proof -
  let ?k = "utf8 ks" and ?v = "utf8 vs"
  have f: "write_fits ?k (?v, False)" "write_fits ?k ([], True)" using assms(4) by (simp_all add: write_fits_def small_def)
  have n: "?k \<noteq> []" "?v = [] \<longleftrightarrow> vs = []" "valid_text ?v = ?v" using assms(2,3) valid_text_utf8 [of vs] by (simp_all add: utf8_Nil)
  obtain s1 calls1 idx1 t1 where s1: "PutGeo os ?k ?v s = Some (s1, calls1, idx1, t1, True, None)" "server_ok s1"
    "server_view s1 = (server_view s)(?k \<mapsto> (?v, False))"
    using do_write_ok [OF assms(1) f(1), of os] by (auto simp: do_write_def)
  obtain s2 calls2 idx2 t2 where s2: "FocusTombstone os' ?k s1 = Some (s2, calls2, idx2, t2, True, None)" "server_ok s2"
    "server_view s2 = (server_view s1)(?k \<mapsto> ([], True))"
    using do_write_ok [OF s1(2) f(2), of os'] by (auto simp: do_write_def)
  have k: "pg_inputKey (addLog time m e q) = pg_inputKey q" "pg_inputValue (addLog time m e q) = pg_inputValue q" for m e q
    by (simp_all add: addLog_def)
  have "GetGeo key s2 = GetGeo key s" if "key \<noteq> ?k" for key
    using that GetGeo_ok [OF s2(2)] GetGeo_ok [OF assms(1)] s1(3) s2(3) by simp
  then show ?thesis
    using click_put [OF assms(2,3,5,6) s1(1), of addr cf time message] click_get [OF s1(2) assms(7) n(1), of addr os cf time message]
      click_delete [OF _ n(1) s2(1), of _ addr cf time message] click_get [OF s2(2) _ n(1), of _ addr os cf time message] s1(3) s2(3) n(2,3) assms(5,6)
    by (simp add: k omitempty_def text_of_def Let_def)
qed

theorem console_round_trip_witness:
  "\<exists>pg1 s1. click doPut doPut_answer (Some '':8080'') io_ok (daemon_flags []) [] [] (first_page\<lparr>pg_inputKey := utf8 [34, 38, 10, 8364], pg_inputValue := utf8 [128526, 92]\<rparr>,
      sample_server) = Some (pg1, s1)
    \<and> click doGet doGet_answer (Some '':8080'') io_ok (daemon_flags []) [] [] (first_page\<lparr>pg_inputKey := utf8 [34, 38, 10, 8364]\<rparr>, s1)
      = Some (addLog [] (ascii ''GET \"'' @ utf8 [34, 38, 10, 8364] @ ascii ''\" -> VALUE: \"'' @ utf8 [128526, 92] @ ascii ''\"'') False
        (first_page\<lparr>pg_inputKey := utf8 [34, 38, 10, 8364], pg_inputValue := utf8 [128526, 92]\<rparr>), s1)"
proof -
  let ?k = "[34, 38, 10, 8364] :: nat list" and ?v = "[128526, 92] :: nat list"
  let ?pg = "first_page\<lparr>pg_inputKey := utf8 ?k, pg_inputValue := utf8 ?v\<rparr>" and ?pg' = "first_page\<lparr>pg_inputKey := utf8 ?k\<rparr>"
  have c: "\<forall>r \<in> set (?k @ ?v). is_scalar r" "?k \<noteq> []" "small (utf8 ?k) (utf8 ?v)"
    by (simp_all add: is_scalar_def small_def utf8_def encode_rune_def)
  have p: "pg_inputKey ?pg = utf8 ?k" "pg_inputValue ?pg = utf8 ?v" "pg_inputKey ?pg' = utf8 ?k" by simp_all
  have "?v \<noteq> []" by simp
  with console_round_trip [OF sample_server_ok c p, of "'':8080''" io_ok "daemon_flags []" "[]" "[]" io_ok]
  obtain pg1 s1 where "click doPut doPut_answer (Some '':8080'') io_ok (daemon_flags []) [] [] (?pg, sample_server) = Some (pg1, s1)"
    "click doGet doGet_answer (Some '':8080'') io_ok (daemon_flags []) [] [] (?pg', s1)
      = Some (addLog [] (ascii ''GET \"'' @ utf8 ?k @ ascii ''\" -> VALUE: \"'' @ utf8 ?v @ ascii ''\"'') False (?pg'\<lparr>pg_inputValue := utf8 ?v\<rparr>), s1)"
    unfolding Let_def if_not_P [OF \<open>?v \<noteq> []\<close>] by blast
  then show ?thesis by (intro exI conjI) simp_all
qed

text \<open>
  C40: The console shows a refused write as done. On a server that is a follower, with the gateway up,
  PUT and DELETE change nothing and the gateway answers with an error; the entry of the log box has
  the class for success and reads \<open>OK (Index: undefined, Term: undefined)\<close> and \<open>TOMBSTONE INSERTED (Index: undefined)\<close>.
\<close>

theorem console_hides_refusal:
  assumes "sv_running s" "sv_raft s = Some r" "rn_role r \<noteq> Leader"
    and "\<forall>r \<in> set (ks @ vs). is_scalar r" "ks \<noteq> []" "pg_inputKey pg = utf8 ks" "pg_inputValue pg = utf8 vs"
  shows "click doPut doPut_answer (Some addr) os cf time message (pg, s) = Some (addLog time
      (ascii ''PUT \"'' @ utf8 ks @ ascii ''\" -> OK (Index: undefined, Term: undefined)'') False pg, s)
    \<and> click doDelete doDelete_answer (Some addr) os cf time message (pg, s) = Some (addLog time
      (ascii ''DELETE \"'' @ utf8 ks @ ascii ''\" -> TOMBSTONE INSERTED (Index: undefined)'') False pg, s)"
proof -
  have u: "number_of None = ascii ''undefined''" by (simp add: number_of_def text_of_def)
  have a: "ascii (x @ y) = ascii x @ ascii y" for x y by (simp add: ascii_def)
  show ?thesis
    using click_put [OF assms(4-7)] click_delete [OF assms(6)] refused_writes [OF assms(1-3)] assms(5)
    by (simp add: u utf8_Nil ascii_def)
qed

theorem console_hides_refusal_witness:
  "click doPut doPut_answer (Some '':8080'') io_ok (daemon_flags []) [] [] (first_page\<lparr>pg_inputKey := ascii ''a'', pg_inputValue := ascii ''b''\<rparr>,
      sample_server\<lparr>sv_raft := Some (NewRaftNode 1 [2, 3] (Some []))\<rparr>)
    = Some (addLog [] (ascii ''PUT \"a\" -> OK (Index: undefined, Term: undefined)'') False
        (first_page\<lparr>pg_inputKey := ascii ''a'', pg_inputValue := ascii ''b''\<rparr>),
      sample_server\<lparr>sv_raft := Some (NewRaftNode 1 [2, 3] (Some []))\<rparr>)"
proof -
  have u: "utf8 [97] = ascii ''a''" "utf8 [98] = ascii ''b''" by (simp_all add: utf8_def encode_rune_def ascii_def)
  show ?thesis
    using console_hides_refusal [of "sample_server\<lparr>sv_raft := Some (NewRaftNode 1 [2, 3] (Some []))\<rparr>" "NewRaftNode 1 [2, 3] (Some [])"
        "[97]" "[98]" "first_page\<lparr>pg_inputKey := ascii ''a'', pg_inputValue := ascii ''b''\<rparr>" "'':8080''" io_ok "daemon_flags []" "[]" "[]"]
    by (simp add: u is_scalar_def sample_server_def Start_def NewStagwayServer_def NewRaftNode_def ascii_def)
qed

end
