(* ===== verification/Spec2Isabelle.thy ===== *)
theory Spec2Isabelle
  imports Bench Soul Lumafly Deepnest Abyss Radiance_Timer Stagway_Threads Cli Console
begin

text \<open>
  \<^bold>\<open>HallownestKV\<close>, a key-value store in Go with a Bloom filter in C++ (paths below are under \<open>src/\<close>).

  \<^bold>\<open>The program.\<close> The daemon (\<open>cmd/hallownestd/main.go\<close>) opens a write-ahead log, replays it into a
  MemTable, starts a Raft node and serves clients over a binary TCP protocol and over HTTP. A write
  is submitted to the Raft node; on the leader it is then appended to the log and put into the
  MemTable. A read is a lookup in the MemTable. SSTables, their Bloom filters and the compactor are
  a library beside this path: they turn a MemTable into a file and merge files. The command line
  client speaks the binary protocol; a page that the daemon serves, the web console, uses HTTP.

  \<^bold>\<open>Conventions.\<close> Byte slices are lists of 8-bit words; \<open>uint32\<close> and \<open>uint64\<close> are words with
  wrap-around, so the sums the code takes in 32 bits wrap in the model too. An operation that may
  panic has an option type or the type \<open>outcome\<close>, with \<open>None\<close> or \<open>Panic\<close> for a slice or index out of
  range or a nil dereference; errors are values of one datatype per component. What the operating
  system answers (writes cut short, failed syncs, failed opens, directory listings) and the random
  numbers of the skip list are arguments, so the theorems hold for all answers unless they name
  them. A critical section under a mutex is one function; concurrency is the order in which these
  functions run. An operation of the server holds its mutex only for reading, so its critical
  sections on the node, the log and the MemTable can be torn apart; \<open>Stagway_Threads\<close> has them as
  single steps. The packages of the standard library that the code rests on are modelled as far as
  it uses them. The two sizes that the Bloom filter computes in floating point are parameters.

  \<^bold>\<open>The theories.\<close>
  \<^item> \<open>KV_Prelude\<close>: bytes, words, encodings of integers, \<open>io.ReadFull\<close>, sorted association lists, and the
    interfaces as locales: \<open>frame_codec\<close> (a stream of framed records, interpreted for the records of
    the log and for the requests of the protocol), \<open>kv_store\<close> (a store that behaves as a map,
    interpreted for the MemTable and for the server) and \<open>membership_filter\<close> (interpreted for the Bloom
    filter). \<open>Radiance_Spec\<close> adds \<open>quorum_system\<close>, interpreted for majorities.
  \<^item> \<open>Crc32\<close>: \<open>crc32.ChecksumIEEE\<close>, and that it detects every change of up to four consecutive bytes.
  \<^item> \<open>Bench\<close>: \<open>pkg/bench/wal.go\<close>. A file is its contents and how much of it is synced; a crash keeps at
    least the synced part. Encoding and reading are inverse, acknowledged appends survive a crash,
    \<open>Recover\<close> and \<open>ReplayWAL\<close> agree, damage is reported; and the cases where records are lost, silently
    dropped or make the reader panic.
  \<^item> \<open>Soul\<close>: \<open>pkg/storage/memtable.go\<close>. The skip list is a heap of nodes with forward pointers, one
    pointer per level. The invariant \<open>linked\<close> says that every level is a sorted sublist of the one
    below; each insertion preserves it and updates a map, and iteration is sorted and complete.
  \<^item> \<open>Lumafly\<close>: \<open>cpp/src/lumafly_bloom.cpp\<close>. MurmurHash3, the filter and its serialized form: no false
    negatives, and the division by zero on a deserialized empty filter.
  \<^item> \<open>Deepnest\<close>: \<open>pkg/storage/sstable.go\<close>. Building, opening and looking up: a table built from a MemTable
    answers as the MemTable, and damaged records are reported.
  \<^item> \<open>Abyss\<close>: \<open>pkg/storage/compaction.go\<close>. What a compaction keeps, when it is lossless, and what it loses.
  \<^item> \<open>Radiance\<close>: \<open>pkg/consensus/raft_node.go\<close> and the types of \<open>raft_types.go\<close>, one function per critical
    section. \<open>Radiance_Spec\<close>: the abstract protocol as an inductive step relation over states that keep
    the history, with its invariant. \<open>Radiance_Cluster\<close>: a group of nodes and \<open>MockNetwork\<close>, where messages
    are delayed, lost, reordered and repeated, and the simulation by the abstract protocol.
    \<open>Radiance_Safety\<close>: the safety theorems on the nodes, the repair of a lagging follower by
    heartbeats, that a leader without peers commits nothing, and that a node that was restarted votes
    a second time in a term. \<open>Radiance_Timer\<close>: the election deadlines. Runs with
    timers are runs of the group; when a node stands for election, and that a leader that is heard
    in time stays the leader.
  \<^item> \<open>Flags\<close>, \<open>Url\<close>, \<open>Json\<close>: what the programs and the page use of \<open>flag\<close>, \<open>strconv\<close>, \<open>net/url\<close>,
    \<open>encoding/json\<close> and their counterparts in the browser, each with the round trip: printed integers,
    escaped queries and written objects are read back.
  \<^item> \<open>Stagway\<close>: \<open>pkg/network/server.go\<close>. Requests, dispatch and responses; a leading server behaves as a
    map, a follower refuses; writes that the log loses, and requests that crash the server.
  \<^item> \<open>Stagway_Threads\<close>: the goroutines of the same file and the mutex of the server. Client calls, calls of
    \<open>Stop\<close> and the accept loop take single steps in any order (\<open>schedule\<close>); a call that nothing
    interrupts is the operation of \<open>Stagway\<close> (\<open>write_alone\<close>). From the invariant of the mutex: \<open>Stop\<close> is
    final, and when the accept loop ends.
  \<^item> \<open>Cli\<close>: \<open>cmd/hallownest-cli/main.go\<close>. Flags, requests and printed results, run against the server.
  \<^item> \<open>Hallownestd\<close>: \<open>cmd/hallownestd/main.go\<close>. Flags, start, apply loop, HTTP handlers and shutdown; the
    gateway as a store.
  \<^item> \<open>Console\<close>: the script in \<open>DashboardHTML\<close> of the same file. The request and the answer of every
    button and of the status timer, run against the gateway, which may not be listening; what the page
    shows after a start, that what is typed in comes back, and what it shows when a write is refused.
  \<^item> This theory: the properties that span the components. A restart recovers the writes, unless writes
    of one key overlapped; and the apply loops of the replicas agree.

  \<^bold>\<open>Loops and bounds.\<close> Loops over data are recursive functions with a termination proof. Only the
  reader of nested JSON values has fuel, twice the length of the text and two more; more fuel never
  changes its result (\<open>json_fuel\<close>), since every second call reads a byte. The two walks along the pointers of the skip list, which need not end on an arbitrary heap,
  are partial functions in the option type; that they return on a well-formed table is part of the
  theorems. The accept loop is a goroutine that takes one step at a time, and a theorem says when it ends. Hypotheses
  on lengths (\<open>small\<close>, \<open>write_fits\<close>) are the range in which the 32-bit sums do not wrap around; what
  happens beyond is proved separately where it matters.

  \<^bold>\<open>Assumptions on timing.\<close> In \<open>Radiance_Cluster\<close> a timeout may fire at any time; \<open>Radiance_Timer\<close> adds the
  deadlines and a clock that is read once in a critical section. The intervals of the tickers are
  left open, the loops may run at any time. The apply
  channel is unbounded, where the code has room for 1000 messages and blocks after that.
  \<open>handleConnection\<close> and the handlers of the gateway run as if alone; calls that overlap are in
  \<open>Stagway_Threads\<close>, where \<open>Accept\<close> may return a connection or an error at any time, and a
  connection that is handed over is recorded.

  \<^bold>\<open>Not modelled.\<close> The style sheet and the static layout of the console, which have no behaviour; the
  gRPC schema \<open>api/proto/hallownest.proto\<close>, from which no code is generated; the banner of the daemon,
  its log lines and the moment at which a signal arrives; the wording of the lines the client prints
  as results; the memory management of the C interface (\<open>lumafly_destroy\<close>); the files for Docker and
  the Go module, which are configuration.
\<close>

section \<open>Recovery\<close>

text \<open>
  C1: Writes survive a restart of the daemon. Start it on an empty disk, let the first election timeout
  fire, and let clients write one after another, on a disk that carries out every write and every
  \<open>fsync\<close>. Then let the machine crash so that the file keeps at least what \<open>fsync\<close> forced out. The
  next start replays exactly these writes, and every lookup answers as the server before the crash
  did: with the last write of the key. What happens when the
  disk fails, and when writes overlap, are properties of their own.
\<close>

theorem restart_recovers_writes:
  assumes "\<forall>(key, vt) \<in> set ws. write_fits key vt"
  shows "\<exists>d s s' w. start_daemon (disk_env None rnd) port nodeID dir = Some (Inr d)
    \<and> daemon_timeout (dm_server d) = Some (s, []) \<and> insert_all (srv_ins io_ok) s ws = Some s' \<and> sv_wal s' = Some w
    \<and> (\<forall>n \<ge> f_synced (w_file w). \<exists>d'.
         start_daemon (disk_env (Some (crash_to n (w_file w))) rnd') port nodeID dir = Some (Inr d')
         \<and> dm_replay d' = Inr (int (length ws))
         \<and> (\<forall>key. GetGeo key (dm_server d') = GetGeo key s'
              \<and> GetGeo key s' = Some (case map_of (rev ws) key of None \<Rightarrow> ([], False, False, None) | Some (v, t) \<Rightarrow> (v, t, True, None))))"
proof -
  obtain d m w0 where d: "start_daemon (disk_env None rnd) port nodeID dir = Some (Inr d)" "sv_running (dm_server d)"
    "sv_raft (dm_server d) = Some (NewRaftNode nodeID [] (Some []))" "sv_memTable (dm_server d) = Some m" "mem_inv m"
    "mem_view m = Map.empty" "OpenWAL True True True (DefaultWALOptions dir) None = Inr w0" "sv_wal (dm_server d) = Some w0"
    using start_on_log [of "[]" None rnd port nodeID dir] by auto
  obtain s where s: "daemon_timeout (dm_server d) = Some (s, [])" "server_ok s" "server_view s = Map.empty" "sv_wal s = Some w0"
    using daemon_leads [OF d(2-5)] d(6,8) by auto
  have "logged [] w0" using d(7) by (auto simp: OpenWAL_def Let_def logged_def DefaultWALOptions_def)
  from writes_logged [OF s(2,4) this assms] obtain s' w where s': "insert_all (srv_ins io_ok) s ws = Some s'" "server_ok s'" "server_view s' = map_of (rev ws)"
    "sv_wal s' = Some w" "logged ws w"
    using s(3) by auto
  have "\<exists>d'. start_daemon (disk_env (Some (crash_to n (w_file w))) rnd') port nodeID dir = Some (Inr d')
      \<and> dm_replay d' = Inr (int (length ws)) \<and> (\<forall>key. GetGeo key (dm_server d') = GetGeo key s')"
    if "f_synced (w_file w) \<le> n" for n
  proof -
    have "f_data (crash_to n (w_file w)) = concat (map (\<lambda>(k, v, t). entry_bytes (entry_of k v t)) ws)"
      using s'(5) that by (simp add: crash_to_def logged_def)
    then show ?thesis
      using start_on_log [OF assms, of "Some (crash_to n (w_file w))" rnd' port nodeID dir] GetGeo_mem GetGeo_ok [OF s'(2)] s'(3)
      by fastforce
  qed
  then show ?thesis using d(1) s(1) s'(1,4) GetGeo_ok [OF s'(2)] s'(3) by metis
qed

theorem restart_recovers_writes_witness:
  "\<exists>d s s' w d'. start_daemon (disk_env None (\<lambda>_. 0)) 50051 1 ''data'' = Some (Inr d)
    \<and> daemon_timeout (dm_server d) = Some (s, [])
    \<and> insert_all (srv_ins io_ok) s [([1], [2], False), ([1], [], True), ([3], [4], False)] = Some s' \<and> sv_wal s' = Some w
    \<and> start_daemon (disk_env (Some (crash_to (f_synced (w_file w)) (w_file w))) (\<lambda>_. 0)) 50051 1 ''data'' = Some (Inr d')
    \<and> dm_replay d' = Inr 3 \<and> GetGeo [1] (dm_server d') = Some ([], True, True, None)
    \<and> GetGeo [3] (dm_server d') = Some ([4], False, True, None)"
proof -
  let ?ws = "[([1], [2], False), ([1], [], True), ([3], [4], False)] :: (bytes \<times> bytes \<times> bool) list"
  have "\<forall>(key, vt) \<in> set ?ws. write_fits key vt" by (simp add: write_fits_def small_def)
  from restart_recovers_writes [OF this, of "\<lambda>_. 0" 50051 1 "''data''" "\<lambda>_. 0"] obtain d s s' w where
    d: "start_daemon (disk_env None (\<lambda>_. 0)) 50051 1 ''data'' = Some (Inr d)" "daemon_timeout (dm_server d) = Some (s, [])"
      "insert_all (srv_ins io_ok) s ?ws = Some s'" "sv_wal s' = Some w"
    and "\<forall>n \<ge> f_synced (w_file w). \<exists>d'.
         start_daemon (disk_env (Some (crash_to n (w_file w))) (\<lambda>_. 0)) 50051 1 ''data'' = Some (Inr d')
         \<and> dm_replay d' = Inr (int (length ?ws))
         \<and> (\<forall>key. GetGeo key (dm_server d') = GetGeo key s'
              \<and> GetGeo key s' = Some (case map_of (rev ?ws) key of None \<Rightarrow> ([], False, False, None) | Some (v, t) \<Rightarrow> (v, t, True, None)))"
    by blast
  then obtain d' where
    d': "start_daemon (disk_env (Some (crash_to (f_synced (w_file w)) (w_file w))) (\<lambda>_. 0)) 50051 1 ''data'' = Some (Inr d')"
      "dm_replay d' = Inr (int (length ?ws))"
      "\<And>key. GetGeo key (dm_server d') = Some (case map_of (rev ?ws) key of None \<Rightarrow> ([], False, False, None) | Some (v, t) \<Rightarrow> (v, t, True, None))"
    by auto
  have "dm_replay d' = Inr 3" using d'(2) by simp
  moreover have "GetGeo [1] (dm_server d') = Some ([], True, True, None)" "GetGeo [3] (dm_server d') = Some ([4], False, True, None)"
    by (simp_all add: d'(3))
  ultimately show ?thesis using d d'(1) by blast
qed

text \<open>
  C38: Two writes of one key at the same time may leave the log and the MemTable in disagreement. Take a
  leading server whose log holds any writes and whose disk carries out every write and \<open>fsync\<close>, and
  two clients that write two values to one key. The mutex of the server, held for reading, admits a
  run of the two calls in which both are acknowledged and the server then reads the first value; yet
  after any crash that keeps the synced part of the log, the daemon starts with the second.
\<close>

theorem concurrent_writes_diverge:
  assumes "server_ok s" "sv_wal s = Some w" "logged ws w" "\<forall>(k, vt) \<in> set ws. write_fits k vt" "small key v1" "small key v2"
  shows "\<exists>es idx1 t1 idx2 t2 sh w'.
      schedule es (spawn s [Write_Call key v1 False io_ok WriteLock, Write_Call key v2 False io_ok WriteLock])
      = Some ([Write_Call key v1 False io_ok (WriteReturned (idx1, t1, True, None)),
               Write_Call key v2 False io_ok (WriteReturned (idx2, t2, True, None))], sh)
    \<and> GetGeo key (sh_server sh) = Some (v1, False, True, None) \<and> sv_wal (sh_server sh) = Some w'
    \<and> (\<forall>n \<ge> f_synced (w_file w'). \<exists>d. start_daemon (disk_env (Some (crash_to n (w_file w'))) rnd) port nodeID dir = Some (Inr d)
         \<and> GetGeo key (dm_server d) = Some (v2, False, True, None))"
proof -
  let ?ws = "ws @ [(key, v1, False), (key, v2, False)]"
  obtain es idx1 t1 idx2 t2 sh w' where r:
    "schedule es (spawn s [Write_Call key v1 False io_ok WriteLock, Write_Call key v2 False io_ok WriteLock])
      = Some ([Write_Call key v1 False io_ok (WriteReturned (idx1, t1, True, None)),
               Write_Call key v2 False io_ok (WriteReturned (idx2, t2, True, None))], sh)"
    "server_ok (sh_server sh)" "server_view (sh_server sh) key = Some (v1, False)" "sv_wal (sh_server sh) = Some w'"
    "f_data (w_file w') = f_data (w_file w) @ entry_bytes (entry_of key v1 False) @ entry_bytes (entry_of key v2 False)"
    "f_synced (w_file w') = length (f_data (w_file w'))"
    using writes_cross [OF assms(1,2) _ _ assms(5,6)] assms(3) unfolding logged_def by blast
  have fits: "\<forall>(k, vt) \<in> set ?ws. write_fits k vt" using assms(4-6) by (auto simp: write_fits_def)
  have "\<exists>d. start_daemon (disk_env (Some (crash_to n (w_file w'))) rnd) port nodeID dir = Some (Inr d)
      \<and> GetGeo key (dm_server d) = Some (v2, False, True, None)" if "f_synced (w_file w') \<le> n" for n
  proof -
    have "f_data (crash_to n (w_file w')) = concat (map (\<lambda>(k, v, t). entry_bytes (entry_of k v t)) ?ws)"
      using that assms(3) r(5,6) by (simp add: crash_to_def logged_def)
    then obtain d m where "start_daemon (disk_env (Some (crash_to n (w_file w'))) rnd) port nodeID dir = Some (Inr d)"
      "sv_running (dm_server d)" "sv_memTable (dm_server d) = Some m" "mem_inv m" "mem_view m = map_of (rev ?ws)"
      using start_on_log [OF fits, of "Some (crash_to n (w_file w'))" rnd port nodeID dir] by auto
    then show ?thesis using GetGeo_mem by simp
  qed
  moreover have "GetGeo key (sh_server sh) = Some (v1, False, True, None)" using GetGeo_ok [OF r(2), of key] r(3) by simp
  ultimately show ?thesis using r(1,4) by blast
qed

theorem concurrent_writes_diverge_witness:
  "\<exists>es idx1 t1 idx2 t2 sh w' d.
      schedule es (spawn sample_server [Write_Call [1] [2] False io_ok WriteLock, Write_Call [1] [3] False io_ok WriteLock])
      = Some ([Write_Call [1] [2] False io_ok (WriteReturned (idx1, t1, True, None)),
               Write_Call [1] [3] False io_ok (WriteReturned (idx2, t2, True, None))], sh)
    \<and> GetGeo [1] (sh_server sh) = Some ([2], False, True, None) \<and> sv_wal (sh_server sh) = Some w'
    \<and> start_daemon (disk_env (Some (crash_to (f_synced (w_file w')) (w_file w'))) (\<lambda>_. 0)) 50051 1 ''data'' = Some (Inr d)
    \<and> GetGeo [1] (dm_server d) = Some ([3], False, True, None)"
proof -
  obtain w where w: "sv_wal sample_server = Some w" "logged [] w"
    by (simp add: sample_server_def Start_def NewStagwayServer_def DefaultWALOptions_def logged_def)
  have sm: "small [1] [2]" "small [1] [3]" by (simp_all add: small_def)
  from concurrent_writes_diverge [OF sample_server_ok w _ sm, of "\<lambda>_. 0" 50051 1 "''data''"] show ?thesis by fastforce
qed

section \<open>Replicas\<close>

text \<open>
  C2: The apply loops of the replicas compute the same MemTable. Take any two nodes of a group at any
  two times of any run. Two apply loops that start on new MemTables and take the same number of
  messages off the channels of these nodes end with MemTables that answer every lookup alike,
  whatever the options and the random levels. This is about what the apply loop makes of the
  committed commands: the MemTable of the daemon also takes the writes of \<open>PutGeo\<close> and
  \<open>FocusTombstone\<close>, which are there before they are committed.
\<close>

theorem apply_loops_agree:
  assumes "numbering ns" "events_of ns es" "run es (boot ns) = Some c" "events_of ns fs" "run fs c = Some d"
    and "i \<in> set ns" "j \<in> set ns" and "rn_applyCh (cl_nodes c i) = Some xs" "rn_applyCh (cl_nodes d j) = Some ys"
    and "n \<le> length xs" "n \<le> length ys"
  shows "\<exists>m m'. apply_loop (take n xs) (NewMemTable opts rnd) = Some m
    \<and> apply_loop (take n ys) (NewMemTable opts' rnd') = Some m' \<and> (\<forall>key. Get m key = Get m' key)"
proof -
  have same: "take n ys = take n xs"
    using applied_comparable [OF assms(1-9)] assms(10,11) by (auto simp: prefix_def)
  obtain s where "sim (set ns) c s" using reached [OF assms(1-3)] by blast
  then have "\<forall>a \<in> set (take n xs). am_CommandValid a"
    using applied_valid [OF _ assms(6,8)] by (blast dest: in_set_takeD)
  note new = apply_loop_new [OF this]
  obtain m m' where "apply_loop (take n xs) (NewMemTable opts rnd) = Some m" "mem_inv m"
    "apply_loop (take n xs) (NewMemTable opts' rnd') = Some m'" "mem_inv m'" "mem_view m = mem_view m'"
    using new [of opts rnd] new [of opts' rnd'] by auto
  then show ?thesis unfolding same using Get_inv by metis
qed

theorem apply_loops_agree_witness:
  "\<exists>d m m'. run (meeting @ writing) (boot [1, 2, 3]) = Some d \<and> rn_applyCh (cl_nodes d 1) = Some [msg]
    \<and> rn_applyCh (cl_nodes d 2) = Some [msg]
    \<and> apply_loop [msg] (NewMemTable DefaultMemTableOptions (\<lambda>_. 0)) = Some m
    \<and> apply_loop [msg] (NewMemTable DefaultMemTableOptions (\<lambda>_. 1 / 2)) = Some m' \<and> Get m [107] = Get m' [107]"
proof -
  obtain c d where d: "run meeting (boot [1, 2, 3]) = Some c" "run writing c = Some d"
    "rn_applyCh (cl_nodes d 1) = Some [msg]" "rn_applyCh (cl_nodes d 2) = Some [msg]" using writing_run by auto
  have r: "run (meeting @ writing) (boot [1, 2, 3]) = Some d" using d(1,2) by (simp add: run_append)
  have "\<exists>m m'. apply_loop (take 1 [msg]) (NewMemTable DefaultMemTableOptions (\<lambda>_. 0)) = Some m
      \<and> apply_loop (take 1 [msg]) (NewMemTable DefaultMemTableOptions (\<lambda>_. 1 / 2)) = Some m' \<and> (\<forall>key. Get m key = Get m' key)"
    by (rule apply_loops_agree [OF group_of_three(1,4) r group_of_three(5) _ _ _ d(3,4)]) simp_all
  then show ?thesis using r d(3,4) by auto
qed

end
